(* ===== verification/MtPrelude.thy ===== *)
theory MtPrelude
  imports Main "HOL-Library.Word" "HOL-Library.Char_ord"
begin

text \<open>
  Shared vocabulary of the development: the integer widths of the C++ code, the exceptions it
  throws, C++ character classification and integer printing (\<open>std::to_string\<close>, \<open>std::hex\<close>), and
  the generic lemmas on words, options and lists that several components use.
\<close>

unbundle bit_operations_syntax

section \<open>Machine integers\<close>

text \<open>
  The widths are those of an LP64 Unix system: \<open>uint8_t\<close>, \<open>unsigned int\<close>, and \<open>unsigned long\<close>,
  \<open>unsigned long long\<close> and \<open>size_t\<close>.  A C++ \<open>int\<close> that is only stored and compared (a priority) is
  an \<open>int\<close> here, and \<open>int_range\<close> says that it fits 32 bits.
\<close>

type_synonym u8 = "8 word"
type_synonym u16 = "16 word"
type_synonym u32 = "32 word"
type_synonym u64 = "64 word"

abbreviation int_min :: int where
  "int_min \<equiv> - 2147483648"

abbreviation int_max :: int where
  "int_max \<equiv> 2147483647"

definition int_range :: "int \<Rightarrow> bool" where
  "int_range i \<longleftrightarrow> int_min \<le> i \<and> i \<le> int_max"

section \<open>Exceptions\<close>

text \<open>
  One constructor per exception type of the code.  The first five are the \<open>std\<close> exceptions with
  their messages; \<open>Undefined_behaviour\<close> is not an exception: it marks an execution the C++ standard
  gives no meaning to (a read past the end of a vector, an uninitialised variable).
\<close>

datatype cpp_error =
    Out_of_range string
  | Invalid_argument string
  | Length_error string
  | Runtime_error string
  | System_error int string
  | InvalidPacketIDError u64
  | PartialSendError u64 u64
  | RecursionError string
  | DNSLookupError string
  | Undefined_behaviour string

named_theorems error_simps \<open>branches of operations that return an error or a value\<close>
named_theorems word_facts \<open>conversions between machine words and natural numbers\<close>

definition is_ok :: "'e + 'a \<Rightarrow> bool" where
  "is_ok r = (case r of Inl _ \<Rightarrow> False | Inr _ \<Rightarrow> True)"

lemma is_ok_simps [simp]: "\<not> is_ok (Inl e)" "is_ok (Inr x)"
  by (simp_all add: is_ok_def)

lemma is_ok_iff: "is_ok r \<longleftrightarrow> (\<exists>x. r = Inr x)"
  by (cases r) simp_all

section \<open>Characters\<close>

definition is_digit :: "char \<Rightarrow> bool" where
  "is_digit c \<longleftrightarrow> 48 \<le> (of_char c :: nat) \<and> (of_char c :: nat) \<le> 57"

definition digit_val :: "char \<Rightarrow> nat" where
  "digit_val c = of_char c - 48"

definition digit_char :: "nat \<Rightarrow> char" where
  "digit_char n = char_of (48 + n)"

text \<open>The white space of the C locale, which formatted extraction skips.\<close>

definition is_space :: "char \<Rightarrow> bool" where
  "is_space c \<longleftrightarrow> of_char c \<in> {32, 9, 10, 11, 12, 13 :: nat}"

lemma is_digit_digit_char [simp]: "n < 10 \<Longrightarrow> is_digit (digit_char n)"
  by (simp add: is_digit_def digit_char_def)

lemma digit_val_digit_char [simp]: "n < 10 \<Longrightarrow> digit_val (digit_char n) = n"
  by (simp add: digit_val_def digit_char_def)

lemma digit_val_less: "is_digit c \<Longrightarrow> digit_val c < 10"
  unfolding is_digit_def digit_val_def by arith

lemma digit_not_space: "is_digit c \<Longrightarrow> \<not> is_space c"
  by (auto simp: is_digit_def is_space_def)

lemma digit_not_special:
  assumes "is_digit c"
  shows "c \<noteq> CHR ''.''" "c \<noteq> CHR ''-''" "c \<noteq> CHR ''+''" "c \<noteq> CHR '':''" "c \<noteq> CHR '' ''"
    "c \<noteq> CHR ''/''" "c \<noteq> CHR 0x5C"
  using assms by (auto simp: is_digit_def)

section \<open>Integer printing\<close>

text \<open>\<open>std::to_string\<close> on an unsigned value, and \<open>operator<<\<close> in base ten.\<close>

fun show_nat :: "nat \<Rightarrow> string" where
  "show_nat n = (if n < 10 then [digit_char n] else show_nat (n div 10) @ [digit_char (n mod 10)])"

declare show_nat.simps [simp del]

definition show_int :: "int \<Rightarrow> string" where
  "show_int i = (if i < 0 then CHR ''-'' # show_nat (nat (- i)) else show_nat (nat i))"

lemma digit_char_values:
  "digit_char 0 = CHR ''0''" "digit_char 1 = CHR ''1''" "digit_char (Suc 0) = CHR ''1''"
  "digit_char 2 = CHR ''2''"
  "digit_char 3 = CHR ''3''" "digit_char 4 = CHR ''4''" "digit_char 5 = CHR ''5''"
  "digit_char 6 = CHR ''6''" "digit_char 7 = CHR ''7''" "digit_char 8 = CHR ''8''"
  "digit_char 9 = CHR ''9''"
  by (code_simp+)

text \<open>What the simplifier needs to print and to classify the characters of a closed term.\<close>

lemmas print_eval = show_nat.simps show_int_def digit_char_values

lemmas char_eval = is_digit_def is_space_def digit_val_def

text \<open>\<open>std::hex\<close>, with and without \<open>std::uppercase\<close>.\<close>

definition hex_char :: "bool \<Rightarrow> nat \<Rightarrow> char" where
  "hex_char upper n =
     (if n < 10 then digit_char n else char_of ((if upper then 55 else 87) + n))"

fun show_hex :: "bool \<Rightarrow> nat \<Rightarrow> string" where
  "show_hex upper n =
     (if n < 16 then [hex_char upper n]
      else show_hex upper (n div 16) @ [hex_char upper (n mod 16)])"

declare show_hex.simps [simp del]

text \<open>The value of a string of decimal digits.\<close>

definition digits_value :: "string \<Rightarrow> nat" where
  "digits_value s = foldl (\<lambda>a c. 10 * a + digit_val c) 0 s"

lemma digits_value_Nil [simp]: "digits_value [] = 0"
  by (simp add: digits_value_def)

lemma digits_value_snoc [simp]: "digits_value (s @ [c]) = 10 * digits_value s + digit_val c"
  by (simp add: digits_value_def)

lemma digits_value_single [simp]: "digits_value [c] = digit_val c"
  by (simp add: digits_value_def)

lemma show_nat_digits: "\<forall>c \<in> set (show_nat n). is_digit c"
proof (induction n rule: show_nat.induct)
  case (1 n)
  then show ?case by (subst show_nat.simps) auto
qed

lemma show_nat_all_digits [simp]: "list_all is_digit (show_nat n)"
  using show_nat_digits by (simp add: list_all_iff)

lemma digits_value_show_nat [simp]: "digits_value (show_nat n) = n"
proof (induction n rule: show_nat.induct)
  case (1 n)
  show ?case
  proof (cases "n < 10")
    case True
    then show ?thesis by (simp add: show_nat.simps [of n])
  next
    case False
    with "1.IH" show ?thesis by (simp add: show_nat.simps [of n])
  qed
qed

lemma show_nat_nonempty [simp]: "show_nat n \<noteq> []"
  by (subst show_nat.simps) simp

lemma length_show_nat_pos: "1 \<le> length (show_nat n)"
  by (simp add: Suc_le_eq)

lemma show_nat_inject [simp]: "show_nat m = show_nat n \<longleftrightarrow> m = n"
  by (metis digits_value_show_nat)

lemma show_nat_hd_digit: "is_digit (hd (show_nat n))"
  using show_nat_digits [of n] show_nat_nonempty [of n] hd_in_set by blast

lemma show_nat_last_digit: "is_digit (last (show_nat n))"
  using show_nat_digits [of n] show_nat_nonempty [of n] last_in_set by blast

section \<open>Texts joined by a delimiter\<close>

fun join_with :: "char \<Rightarrow> string list \<Rightarrow> string" where
  "join_with d [] = []"
| "join_with d [p] = p"
| "join_with d (p # q # ps) = p @ d # join_with d (q # ps)"

lemma join_with_Cons: "ps \<noteq> [] \<Longrightarrow> join_with d (p # ps) = p @ d # join_with d ps"
  by (cases ps) simp_all

lemma map_join_with: "map f (join_with d ps) = join_with (f d) (map (map f) ps)"
  by (induction d ps rule: join_with.induct) simp_all

lemma join_with_free:
  "list_all (\<lambda>p. d \<notin> set p) ps \<Longrightarrow> ps \<noteq> [] \<Longrightarrow> d \<notin> set (join_with d ps) \<longleftrightarrow> length ps = 1"
  by (induction d ps rule: join_with.induct) auto

lemma join_with_inject:
  assumes "list_all (\<lambda>p. d \<notin> set p) ps" "list_all (\<lambda>p. d \<notin> set p) qs" "ps \<noteq> []" "qs \<noteq> []"
    "join_with d ps = join_with d qs"
  shows "ps = qs"
  using assms
proof (induction ps arbitrary: qs)
  case (Cons p ps)
  obtain q qs' where qs: "qs = q # qs'" using Cons.prems(4) by (cases qs) auto
  have tk: "takeWhile (\<lambda>c. c \<noteq> d) (join_with d (r # rs)) = r"
      "dropWhile (\<lambda>c. c \<noteq> d) (join_with d (r # rs)) = (if rs = [] then [] else d # join_with d rs)"
    if "d \<notin> set r" for r rs
  proof -
    have "takeWhile (\<lambda>c. c \<noteq> d) r = r" "dropWhile (\<lambda>c. c \<noteq> d) r = []"
      using that by (auto simp: takeWhile_eq_all_conv dropWhile_eq_Nil_conv)
    then show "takeWhile (\<lambda>c. c \<noteq> d) (join_with d (r # rs)) = r"
      "dropWhile (\<lambda>c. c \<noteq> d) (join_with d (r # rs)) = (if rs = [] then [] else d # join_with d rs)"
      using that by (cases rs; auto simp: takeWhile_append2 dropWhile_append2)+
  qed
  have "p = q" using tk(1) [of p ps] tk(1) [of q qs'] Cons.prems qs by simp
  moreover have "(if ps = [] then [] else d # join_with d ps) = (if qs' = [] then [] else d # join_with d qs')"
    using tk(2) [of p ps] tk(2) [of q qs'] Cons.prems qs by simp
  ultimately show ?case using Cons.IH [of qs'] Cons.prems qs by (auto split: if_splits)
qed simp

section \<open>Words\<close>

lemma mask_fits:
  fixes w :: "'a::len word"
  assumes "unat w < 2 ^ n"
  shows "take_bit n w = w"
  using assms by (metis take_bit_nat_eq_self unsigned_take_bit_eq word_unat_eq_iff)

lemma byte_and_mask: "unat (w :: u32) < 256 \<Longrightarrow> w AND 0xFF = w"
  using mask_fits [of w 8] by (simp add: take_bit_eq_mask mask_eq_exp_minus_1)


text \<open>
  \<open>to_bytes\<close> of \<open>utility.hpp\<close>: the bytes of a number of \<open>n\<close> bytes, the least significant first.
\<close>

definition to_bytes :: "nat \<Rightarrow> 'a::len word \<Rightarrow> u8 list" where
  "to_bytes n number = map (\<lambda>i. ucast (drop_bit (i * 8) number AND 0xFF)) [0..<n]"

end
