(* ===== verification/Utility.thy ===== *)
theory Utility
  imports MtPrelude
begin

text \<open>
  The templates of \<open>utility.hpp\<close> that work on vectors.  An iterator is a position in the vector.
\<close>

text \<open>
  \<open>append\<close> gives the new destination and the iterator to the first appended element; the variant
  that moves from its source also gives the source back, which is then empty.
\<close>

definition append_copy :: "'a list \<Rightarrow> 'a list \<Rightarrow> 'a list \<times> nat" where
  "append_copy dest source =
     (if dest = [] then (source, 0) else (dest @ source, length dest))"

definition append_move :: "'a list \<Rightarrow> 'a list \<Rightarrow> 'a list \<times> 'a list \<times> nat" where
  "append_move dest source =
     (if dest = [] then (source, [], 0) else (dest @ source, [], length dest))"

text \<open>The output operator for vectors; \<open>pr\<close> prints an element.\<close>

fun show_more :: "('a \<Rightarrow> string) \<Rightarrow> 'a list \<Rightarrow> string" where
  "show_more pr [] = []"
| "show_more pr (x # xs) = '', '' @ pr x @ show_more pr xs"

definition show_vector :: "('a \<Rightarrow> string) \<Rightarrow> 'a list \<Rightarrow> string" where
  "show_vector pr xs =
     ''['' @ (case xs of [] \<Rightarrow> [] | y # ys \<Rightarrow> pr y @ show_more pr ys) @ '']''"

lemma append_copy_eq: "append_copy dest source = (dest @ source, length dest)"
  by (simp add: append_copy_def)

lemma append_move_eq: "append_move dest source = (dest @ source, [], length dest)"
  by (simp add: append_move_def)

text \<open>The iterator points to the first appended element, or to the end if there is none.\<close>

lemma append_position:
  assumes "append_copy dest source = (v, i)"
  shows "take i v = dest" "drop i v = source" "i = length v \<longleftrightarrow> source = []"
proof -
  have "v = dest @ source" "i = length dest" using assms unfolding append_copy_eq by blast+
  then show "take i v = dest" "drop i v = source" "i = length v \<longleftrightarrow> source = []" by simp_all
qed

lemma show_more_append: "show_more pr (xs @ ys) = show_more pr xs @ show_more pr ys"
  by (induction xs) simp_all

lemma show_vector_snoc:
  "show_vector pr (x # xs @ [y]) = ''['' @ pr x @ show_more pr xs @ '', '' @ pr y @ '']''"
  by (simp add: show_vector_def show_more_append)

end
