(* ===== verification/CxxStreams.thy ===== *)
theory CxxStreams
  imports MtPrelude
begin

text \<open>
  The part of the C++ standard library that turns text into integers: formatted extraction from
  a \<open>std::istringstream\<close> (\<open>ss >> i\<close>, C++11 semantics: a failed conversion stores zero, an overflow
  stores the nearest value and fails, a stream with nothing left to read leaves the variable
  alone), the loop \<open>while (ss >> i) v.push_back(i)\<close> of the address parsers, and \<open>std::stoi\<close>,
  \<open>std::stol\<close> and \<open>std::stoll\<close>.
\<close>

section \<open>Input streams\<close>

record istream =
  rest :: string
  eofbit :: bool
  failbit :: bool

definition istringstream :: "string \<Rightarrow> istream" where
  "istringstream s = \<lparr>rest = s, eofbit = False, failbit = False\<rparr>"

text \<open>An optional sign, the longest run of digits, and what follows it.\<close>

definition strip_sign :: "string \<Rightarrow> bool \<times> string" where
  "strip_sign s =
     (case s of
        [] \<Rightarrow> (False, [])
      | c # cs \<Rightarrow> if c = CHR ''-'' then (True, cs) else if c = CHR ''+'' then (False, cs)
                  else (False, s))"

definition scan_int :: "string \<Rightarrow> bool \<times> string \<times> string" where
  "scan_int s =
     (case strip_sign s of (neg, u) \<Rightarrow> (neg, takeWhile is_digit u, dropWhile is_digit u))"

text \<open>
  The value stored for a sign and a magnitude, and whether the conversion is in range.  An
  unsigned target accepts a minus sign and wraps, as \<open>strtoull\<close> does.
\<close>

definition conv_unsigned :: "nat \<Rightarrow> bool \<Rightarrow> nat \<Rightarrow> int \<times> bool" where
  "conv_unsigned width neg m =
     (if 2 ^ width \<le> m then (2 ^ width - 1, False)
      else ((if neg then - int m else int m) mod 2 ^ width, True))"

definition conv_signed :: "nat \<Rightarrow> bool \<Rightarrow> nat \<Rightarrow> int \<times> bool" where
  "conv_signed width neg m =
     (if neg then (if 2 ^ (width - 1) < m then (- (2 ^ (width - 1)), False) else (- int m, True))
      else (if 2 ^ (width - 1) \<le> m then (2 ^ (width - 1) - 1, False) else (int m, True)))"

text \<open>
  \<open>ss >> i\<close>: the value stored in \<open>i\<close> (\<open>None\<close> when \<open>i\<close> keeps its old value) and the stream after.
\<close>

definition extract_int :: "(bool \<Rightarrow> nat \<Rightarrow> int \<times> bool) \<Rightarrow> istream \<Rightarrow> int option \<times> istream" where
  "extract_int conv st =
     (if eofbit st \<or> failbit st then (None, st\<lparr>failbit := True\<rparr>)
      else
        (let s = dropWhile is_space (rest st) in
         if s = [] then (None, \<lparr>rest = [], eofbit = True, failbit = True\<rparr>)
         else
           (let (neg, ds, r) = scan_int s in
            if ds = [] then (Some 0, \<lparr>rest = r, eofbit = (r = []), failbit = True\<rparr>)
            else (let (v, ok) = conv neg (digits_value ds)
                  in (Some v, \<lparr>rest = r, eofbit = (r = []), failbit = \<not> ok\<rparr>)))))"

lemma length_dropWhile_Cons: "P c \<Longrightarrow> length (dropWhile P (c # cs)) < length (c # cs)"
  using length_dropWhile_le [of P cs] by simp

lemma scan_int_shrinks:
  assumes "scan_int s = (neg, ds, r)" "ds \<noteq> []"
  shows "length r < length s"
proof -
  have le: "length (snd (strip_sign s)) \<le> length s"
    by (simp add: strip_sign_def split: list.split)
  from assms(1) have u: "ds = takeWhile is_digit (snd (strip_sign s))"
      "r = dropWhile is_digit (snd (strip_sign s))"
    by (auto simp: scan_int_def split: prod.splits)
  then have "length ds + length r = length (snd (strip_sign s))"
    by (metis length_append takeWhile_dropWhile_id)
  then show ?thesis using assms(2) le by (cases ds) auto
qed

lemma extract_int_shrinks:
  assumes "extract_int conv st = (v, st')" "\<not> failbit st'"
  shows "length (rest st') < length (rest st)"
proof -
  let ?s = "dropWhile is_space (rest st)"
  obtain neg ds r where sc: "scan_int ?s = (neg, ds, r)" by (cases "scan_int ?s") auto
  from assms sc have "ds \<noteq> []" "rest st' = r"
    by (auto simp: extract_int_def Let_def split: if_splits prod.splits)
  with scan_int_shrinks [OF sc] length_dropWhile_le [of is_space "rest st"]
  show ?thesis by simp
qed

text \<open>\<open>while (ss >> i) v.push_back(i)\<close>: the vector, and the stream after the failed extraction.\<close>

function extract_all :: "(bool \<Rightarrow> nat \<Rightarrow> int \<times> bool) \<Rightarrow> istream \<Rightarrow> int list \<times> istream" where
  "extract_all conv st =
     (case extract_int conv st of
        (v, st') \<Rightarrow>
          if failbit st' then ([], st')
          else (case extract_all conv st' of (vs, st'') \<Rightarrow> (the v # vs, st'')))"
  by pat_completeness auto
termination
  by (relation "measure (\<lambda>(conv, st). length (rest st))") (auto dest: extract_int_shrinks [OF sym])

declare extract_all.simps [simp del]

section \<open>Extraction from well-formed text\<close>

lemma takeWhile_prefix:
  assumes "list_all P xs" "ys = [] \<or> \<not> P (hd ys)"
  shows "takeWhile P (xs @ ys) = xs" and "dropWhile P (xs @ ys) = ys"
  using assms by (cases ys; auto simp: list_all_iff)+

lemma scan_int_digits:
  assumes "list_all is_digit ds" "r = [] \<or> \<not> is_digit (hd r)" "ds \<noteq> []"
  shows "scan_int (ds @ r) = (False, ds, r)"
proof -
  obtain c cs where ds: "ds = c # cs" using assms(3) by (cases ds) auto
  with assms(1) have "c \<noteq> CHR ''-''" "c \<noteq> CHR ''+''" by (auto dest: digit_not_special)
  then have "scan_int (ds @ r) = (False, takeWhile is_digit (ds @ r), dropWhile is_digit (ds @ r))"
    by (simp add: scan_int_def strip_sign_def ds)
  then show ?thesis using takeWhile_prefix [OF assms(1,2)] by simp
qed

lemma extract_int_digits:
  assumes "list_all is_digit ds" "r = [] \<or> \<not> is_digit (hd r)" "ds \<noteq> []"
  shows "extract_int conv \<lparr>rest = ds @ r, eofbit = False, failbit = False\<rparr> =
    (Some (fst (conv False (digits_value ds))),
     \<lparr>rest = r, eofbit = (r = []), failbit = \<not> snd (conv False (digits_value ds))\<rparr>)"
proof -
  have "\<not> is_space (hd (ds @ r))"
    using assms(1,3) by (cases ds) (auto dest: digit_not_space)
  then have "dropWhile is_space (ds @ r) = ds @ r"
    using assms(3) by (cases ds) auto
  then show ?thesis
    using assms(3) by (simp add: extract_int_def scan_int_digits [OF assms] split: prod.splits)
qed

lemma extract_int_space:
  "extract_int conv \<lparr>rest = CHR '' '' # s, eofbit = False, failbit = False\<rparr> =
   extract_int conv \<lparr>rest = s, eofbit = False, failbit = False\<rparr>"
  by (simp add: extract_int_def is_space_def)

lemma extract_int_stopped:
  "extract_int conv \<lparr>rest = s, eofbit = True, failbit = b\<rparr> =
   (None, \<lparr>rest = s, eofbit = True, failbit = True\<rparr>)"
  by (simp add: extract_int_def)

lemma extract_all_stopped:
  "extract_all conv \<lparr>rest = s, eofbit = True, failbit = b\<rparr> =
   ([], \<lparr>rest = s, eofbit = True, failbit = True\<rparr>)"
  by (subst extract_all.simps) (simp add: extract_int_stopped)

lemma extract_all_space:
  "extract_all conv \<lparr>rest = CHR '' '' # s, eofbit = False, failbit = False\<rparr> =
   extract_all conv \<lparr>rest = s, eofbit = False, failbit = False\<rparr>"
  by (simp add: extract_all.simps [of conv "\<lparr>rest = CHR '' '' # s, eofbit = False, failbit = False\<rparr>"]
      extract_all.simps [of conv "\<lparr>rest = s, eofbit = False, failbit = False\<rparr>"] extract_int_space)

text \<open>A last group of digits ends the stream, another one is followed by what comes after it.\<close>

lemma extract_all_last:
  assumes "list_all is_digit ds" "ds \<noteq> []" "snd (conv False (digits_value ds))"
  shows "extract_all conv \<lparr>rest = ds, eofbit = False, failbit = False\<rparr> =
    ([fst (conv False (digits_value ds))], \<lparr>rest = [], eofbit = True, failbit = True\<rparr>)"
  using extract_int_digits [OF assms(1) _ assms(2), of "[]" conv] assms(3)
  by (subst extract_all.simps) (simp add: extract_all_stopped)

lemma extract_all_group:
  assumes "list_all is_digit ds" "ds \<noteq> []" "snd (conv False (digits_value ds))"
    "extract_all conv \<lparr>rest = s, eofbit = False, failbit = False\<rparr> = (vs, st')"
  shows "extract_all conv \<lparr>rest = ds @ CHR '' '' # s, eofbit = False, failbit = False\<rparr> =
    (fst (conv False (digits_value ds)) # vs, st')"
proof -
  have "\<not> is_digit (CHR '' '')" by (simp add: is_digit_def)
  then have "extract_int conv \<lparr>rest = ds @ CHR '' '' # s, eofbit = False, failbit = False\<rparr> =
      (Some (fst (conv False (digits_value ds))),
       \<lparr>rest = CHR '' '' # s, eofbit = False, failbit = False\<rparr>)"
    using extract_int_digits [OF assms(1) _ assms(2), of "CHR '' '' # s" conv] assms(3) by simp
  then show ?thesis
    using assms(4) by (subst extract_all.simps) (simp add: extract_all_space)
qed

lemma conv_unsigned_small:
  "m < 2 ^ width \<Longrightarrow> conv_unsigned width False m = (int m, True)"
  by (simp add: conv_unsigned_def)

lemma conv_unsigned_range:
  "0 \<le> fst (conv_unsigned width neg m) \<and> fst (conv_unsigned width neg m) < 2 ^ width"
  by (simp add: conv_unsigned_def)

lemma extract_all_numbers:
  assumes "ns \<noteq> []" "list_all (\<lambda>n. n < 2 ^ width) ns"
  shows "extract_all (conv_unsigned width) (istringstream (join_with (CHR '' '') (map show_nat ns))) =
    (map int ns, \<lparr>rest = [], eofbit = True, failbit = True\<rparr>)"
  unfolding istringstream_def using assms
proof (induction ns)
  case (Cons n ns)
  show ?case
  proof (cases "ns = []")
    case True
    then show ?thesis
      using Cons.prems extract_all_last [of "show_nat n" "conv_unsigned width"]
      by (simp add: conv_unsigned_small)
  next
    case False
    then show ?thesis
      using Cons.prems Cons.IH extract_all_group [of "show_nat n" "conv_unsigned width"]
      by (simp add: join_with_Cons conv_unsigned_small)
  qed
qed simp

lemma conv_signed_low: "- (2 ^ (width - 1)) \<le> fst (conv_signed width neg m)"
proof -
  have "int m \<le> 2 ^ (width - 1)" if "m \<le> 2 ^ (width - 1)"
    using that by (metis of_nat_le_iff of_nat_numeral of_nat_power)
  moreover have "- (2 ^ (width - 1)) \<le> (0 :: int)" by simp
  then have "- (2 ^ (width - 1)) \<le> int m" by linarith
  ultimately show ?thesis by (auto simp: conv_signed_def not_less)
qed

lemma conv_signed_high: "fst (conv_signed width neg m) < 2 ^ (width - 1)"
proof -
  have "int m < 2 ^ (width - 1)" if "m < 2 ^ (width - 1)"
    using that by (metis of_nat_less_iff of_nat_numeral of_nat_power)
  moreover have "- int m < 2 ^ (width - 1)"
    using zero_less_power [of "2 :: int" "width - 1"] by linarith
  moreover have "- (2 ^ (width - 1)) < (2 ^ (width - 1) :: int)"
    using zero_less_power [of "2 :: int" "width - 1"] by linarith
  ultimately show ?thesis by (auto simp: conv_signed_def not_le)
qed

section \<open>\<open>std::stoi\<close> and its kin\<close>

definition sto_signed :: "string \<Rightarrow> nat \<Rightarrow> string \<Rightarrow> cpp_error + int" where
  "sto_signed fname width s =
     (case scan_int (dropWhile is_space s) of
        (neg, ds, _) \<Rightarrow>
          if ds = [] then Inl (Invalid_argument fname)
          else (case conv_signed width neg (digits_value ds) of
                  (v, ok) \<Rightarrow> if ok then Inr v else Inl (Out_of_range fname)))"

definition stoi :: "string \<Rightarrow> cpp_error + int" where
  "stoi s = sto_signed ''stoi'' 32 s"

definition stol :: "string \<Rightarrow> cpp_error + int" where
  "stol s = sto_signed ''stol'' 64 s"

definition stoll :: "string \<Rightarrow> cpp_error + int" where
  "stoll s = sto_signed ''stoll'' 64 s"

lemma stoi_range: "stoi s = Inr v \<Longrightarrow> int_range v"
  using conv_signed_low [of 32] conv_signed_high [of 32]
  by (auto simp: stoi_def sto_signed_def int_range_def split: prod.splits if_splits)
    (smt (verit) fst_conv)+

lemma stoi_show_nat: "n < 2 ^ 31 \<Longrightarrow> stoi (show_nat n) = Inr (int n)"
proof -
  assume n: "n < 2 ^ 31"
  have "dropWhile is_space (show_nat n) = show_nat n"
    using show_nat_hd_digit [of n] digit_not_space
    by (cases "show_nat n") auto
  moreover have "scan_int (show_nat n) = (False, show_nat n, [])"
    using scan_int_digits [of "show_nat n" "[]"] by simp
  ultimately show ?thesis
    using n by (simp add: stoi_def sto_signed_def conv_signed_def)
qed


text \<open>What the simplifier needs to evaluate extraction on a closed text.\<close>

lemmas stream_eval = char_eval digits_value_def istringstream_def strip_sign_def scan_int_def
  conv_unsigned_def conv_signed_def extract_int_def extract_all.simps

end
