(* ===== verification/MavAddress.thy ===== *)
theory MavAddress
  imports MtPrelude CxxStreams
begin

text \<open>
  MAVLink addresses (\<open>MAVAddress.cpp\<close>): two bytes, the system ID in the upper and the component ID in
  the lower one, kept in an \<open>unsigned int\<close>.
\<close>

section \<open>The class\<close>

datatype MAVAddress = MkMAVAddress (address: u32)

text \<open>\<open>MAVAddress(unsigned int)\<close>\<close>

definition MAVAddress_of_int :: "u32 \<Rightarrow> cpp_error + MAVAddress" where
  "MAVAddress_of_int a =
     (if 65535 < a
      then Inl (Out_of_range (''Address ('' @ show_nat (unat a) @
                  '') is outside of the allowed range (0 - 65535).''))
      else Inr (MkMAVAddress a))"

text \<open>\<open>construct_\<close>, and with it \<open>MAVAddress(unsigned int, unsigned int)\<close>\<close>

definition MAVAddress_construct :: "u32 \<Rightarrow> u32 \<Rightarrow> cpp_error + MAVAddress" where
  "MAVAddress_construct sid cid =
     (if 255 < sid
      then Inl (Out_of_range (''System ID ('' @ show_nat (unat sid) @
                  '') is outside of the allowed range (0 - 255).''))
      else if 255 < cid
      then Inl (Out_of_range (''Component ID ('' @ show_nat (unat cid) @
                  '') is outside of the allowed range (0 - 255).''))
      else Inr (MkMAVAddress ((push_bit 8 sid AND 0xFF00) OR (cid AND 0x00FF))))"

text \<open>\<open>MAVAddress(std::string)\<close>\<close>

abbreviation invalid_address :: cpp_error where
  "invalid_address \<equiv> Invalid_argument ''Invalid MAVLink address string.''"

definition MAVAddress_of_string :: "string \<Rightarrow> cpp_error + MAVAddress" where
  "MAVAddress_of_string s =
     (if length s < 3 \<or> \<not> is_digit (hd s) \<or> \<not> is_digit (last s) then Inl invalid_address
      else if \<not> list_all (\<lambda>c. c = CHR ''.'' \<or> is_digit c) s then Inl invalid_address
      else
        (case extract_all (conv_unsigned 32)
                (istringstream (map (\<lambda>c. if c = CHR ''.'' then CHR '' '' else c) s)) of
           (octets, ss) \<Rightarrow>
             if length octets \<noteq> 2 \<or> \<not> eofbit ss then Inl invalid_address
             else MAVAddress_construct (word_of_int (octets ! 0)) (word_of_int (octets ! 1))))"

text \<open>\<open>system()\<close> and \<open>component()\<close>; \<open>address()\<close> is the selector.\<close>

definition system :: "MAVAddress \<Rightarrow> u32" where
  "system a = drop_bit 8 (address a) AND 0x00FF"

definition component :: "MAVAddress \<Rightarrow> u32" where
  "component a = address a AND 0x00FF"

text \<open>The comparison operators compare \<open>address()\<close>.\<close>

definition MAVAddress_less :: "MAVAddress \<Rightarrow> MAVAddress \<Rightarrow> bool" where
  "MAVAddress_less lhs rhs \<longleftrightarrow> address lhs < address rhs"

definition MAVAddress_less_eq :: "MAVAddress \<Rightarrow> MAVAddress \<Rightarrow> bool" where
  "MAVAddress_less_eq lhs rhs \<longleftrightarrow> address lhs \<le> address rhs"

definition MAVAddress_eq :: "MAVAddress \<Rightarrow> MAVAddress \<Rightarrow> bool" where
  "MAVAddress_eq lhs rhs \<longleftrightarrow> address lhs = address rhs"

definition MAVAddress_neq :: "MAVAddress \<Rightarrow> MAVAddress \<Rightarrow> bool" where
  "MAVAddress_neq lhs rhs \<longleftrightarrow> address lhs \<noteq> address rhs"

definition MAVAddress_greater :: "MAVAddress \<Rightarrow> MAVAddress \<Rightarrow> bool" where
  "MAVAddress_greater lhs rhs \<longleftrightarrow> address lhs > address rhs"

definition MAVAddress_greater_eq :: "MAVAddress \<Rightarrow> MAVAddress \<Rightarrow> bool" where
  "MAVAddress_greater_eq lhs rhs \<longleftrightarrow> address lhs \<ge> address rhs"

instantiation MAVAddress :: linorder
begin

definition less_MAVAddress :: "MAVAddress \<Rightarrow> MAVAddress \<Rightarrow> bool" where
  "less_MAVAddress = MAVAddress_less"

definition less_eq_MAVAddress :: "MAVAddress \<Rightarrow> MAVAddress \<Rightarrow> bool" where
  "less_eq_MAVAddress = MAVAddress_less_eq"

instance
  by standard
    (auto simp: less_MAVAddress_def less_eq_MAVAddress_def MAVAddress_less_def MAVAddress_less_eq_def
      intro: MAVAddress.expand)

end

lemma MAVAddress_operators:
  "MAVAddress_eq a b \<longleftrightarrow> a = b" "MAVAddress_neq a b \<longleftrightarrow> a \<noteq> b"
  "MAVAddress_greater a b \<longleftrightarrow> b < a" "MAVAddress_greater_eq a b \<longleftrightarrow> b \<le> a"
  by (auto simp: MAVAddress_eq_def MAVAddress_neq_def MAVAddress_greater_def MAVAddress_greater_eq_def
      less_MAVAddress_def less_eq_MAVAddress_def MAVAddress_less_def MAVAddress_less_eq_def intro: MAVAddress.expand)

text \<open>\<open>operator<<\<close>\<close>

definition show_MAVAddress :: "MAVAddress \<Rightarrow> string" where
  "show_MAVAddress a = show_nat (unat (system a)) @ ''.'' @ show_nat (unat (component a))"

section \<open>The class invariant\<close>

definition mav_wf :: "MAVAddress \<Rightarrow> bool" where
  "mav_wf a \<longleftrightarrow> address a \<le> 65535"

lemma mav_wf_bits: "mav_wf a \<Longrightarrow> take_bit 16 (address a) = address a"
  by (rule mask_fits) (simp add: mav_wf_def word_le_nat_alt)

lemma byte_word: "(sid :: u32) \<le> 255 \<Longrightarrow> take_bit 8 sid = sid"
  by (rule mask_fits) (simp add: word_le_nat_alt)

lemma byte_masks:
  "(0xFF :: u32) = mask 8" "(0xFF00 :: u32) = push_bit 8 (mask 8)"
  by (simp_all add: mask_eq_exp_minus_1)

lemma word_masks: "(0xFFFF :: u32) = mask 16"
  by (simp add: mask_eq_exp_minus_1)

lemma system_construct:
  assumes "sid \<le> 255" "cid \<le> 255"
  shows "system (MkMAVAddress ((push_bit 8 sid AND 0xFF00) OR (cid AND 0x00FF))) = sid"
    and "component (MkMAVAddress ((push_bit 8 sid AND 0xFF00) OR (cid AND 0x00FF))) = cid"
proof -
  have s: "bit sid n \<Longrightarrow> n < 8" for n using byte_word [OF assms(1)] by (metis bit_take_bit_iff)
  have c: "bit cid n \<Longrightarrow> n < 8" for n using byte_word [OF assms(2)] by (metis bit_take_bit_iff)
  show "system (MkMAVAddress ((push_bit 8 sid AND 0xFF00) OR (cid AND 0x00FF))) = sid"
    unfolding system_def byte_masks by (rule bit_eqI) (auto simp: bit_simps dest: s c)
  show "component (MkMAVAddress ((push_bit 8 sid AND 0xFF00) OR (cid AND 0x00FF))) = cid"
    unfolding component_def byte_masks by (rule bit_eqI) (auto simp: bit_simps dest: s c)
qed

lemma construct_bound: "(push_bit 8 sid AND 0xFF00) OR (cid AND 0x00FF) \<le> (65535 :: u32)"
proof -
  have "((push_bit 8 sid AND 0xFF00) OR (cid AND 0x00FF)) AND 0xFFFF =
      (push_bit 8 sid AND 0xFF00) OR (cid AND 0x00FF :: u32)"
    unfolding byte_masks word_masks by (rule bit_eqI) (auto simp: bit_simps)
  then show ?thesis
    by (metis word_and_le1)
qed

lemma system_component_address:
  assumes "mav_wf a"
  shows "(push_bit 8 (system a) AND 0xFF00) OR (component a AND 0x00FF) = address a"
proof -
  have a: "bit (address a) n \<Longrightarrow> n < 16" for n
    using mav_wf_bits [OF assms] by (metis bit_take_bit_iff)
  show ?thesis
    unfolding system_def component_def byte_masks
    by (rule bit_eqI) (auto simp: bit_simps dest: a)
qed

lemma system_le: "system a \<le> 255" and component_le: "component a \<le> 255"
  by (simp_all add: system_def component_def word_and_le1)


lemma construct_ok:
  assumes "sid \<le> 255" "cid \<le> 255"
  obtains a where "MAVAddress_construct sid cid = Inr a" "system a = sid" "component a = cid" "mav_wf a"
  using assms system_construct [OF assms] construct_bound [of sid cid]
  by (auto simp: MAVAddress_construct_def mav_wf_def not_less [symmetric])

lemma construct_Inr_iff:
  "MAVAddress_construct sid cid = Inr a \<longleftrightarrow>
   mav_wf a \<and> system a = sid \<and> component a = cid"
proof
  assume r: "MAVAddress_construct sid cid = Inr a"
  then have "sid \<le> 255" "cid \<le> 255"
    by (auto simp: MAVAddress_construct_def not_less split: if_splits)
  then show "mav_wf a \<and> system a = sid \<and> component a = cid"
    using r by (metis construct_ok sum.inject(2))
next
  assume a: "mav_wf a \<and> system a = sid \<and> component a = cid"
  then show "MAVAddress_construct sid cid = Inr a"
    using system_le [of a] component_le [of a] system_component_address [of a]
    by (auto simp: MAVAddress_construct_def not_less [symmetric])
qed

lemma mav_eqI:
  assumes "mav_wf a" "mav_wf b" "system a = system b" "component a = component b"
  shows "a = b"
  using assms construct_Inr_iff [of "system a" "component a"] by (metis sum.inject(2))

lemma unat_take_drop: "unat (take_bit m (drop_bit n w)) = unat w div 2 ^ n mod 2 ^ m"
  by (simp only: unsigned_take_bit_eq unat_drop_bit_eq) (simp only: take_bit_eq_mod drop_bit_eq_div)

lemma address_value:
  assumes "mav_wf a"
  shows "unat (address a) = 256 * unat (system a) + unat (component a)"
proof -
  have "unat (system a) = unat (address a) div 256 mod 256"
    unfolding system_def byte_masks
    by (simp add: take_bit_eq_mask [symmetric] unat_take_drop)
  moreover have "unat (component a) = unat (address a) mod 256"
    unfolding component_def byte_masks
    using unat_take_drop [of 8 0 "address a"] by (simp add: take_bit_eq_mask [symmetric])
  moreover have "unat (address a) < 65536"
    using assms by (simp add: mav_wf_def word_le_nat_alt)
  then have "unat (address a) div 256 mod 256 = unat (address a) div 256"
    by (simp add: less_mult_imp_div_less)
  ultimately show ?thesis by simp
qed

lemma unat_system_less: "unat (system a) < 256" and unat_component_less: "unat (component a) < 256"
  using system_le [of a] component_le [of a] by (simp_all add: word_le_nat_alt)

section \<open>Properties\<close>

text \<open>
  Constructing an address from a system and a component ID succeeds exactly when both are at
  most 255, and the result is then the one well-formed address with those two IDs.
\<close>

theorem construct_iff_fields:
  "(MAVAddress_construct sid cid = Inr a \<longleftrightarrow> mav_wf a \<and> system a = sid \<and> component a = cid)
   \<and> (is_ok (MAVAddress_construct sid cid) \<longleftrightarrow> sid \<le> 255 \<and> cid \<le> 255)"
  by (auto simp: construct_Inr_iff) (auto simp: MAVAddress_construct_def not_less split: if_splits)

text \<open>
  The order of addresses, which the code takes from the packed number, compares the system IDs
  first and the component IDs second, as the comments of the operators promise.
\<close>

theorem address_order_lexicographic:
  assumes "mav_wf a" "mav_wf b"
  shows "a < b \<longleftrightarrow> system a < system b \<or> (system a = system b \<and> component a < component b)"
  using address_value [OF assms(1)] address_value [OF assms(2)]
    unat_component_less [of a] unat_component_less [of b]
  by (auto simp: less_MAVAddress_def MAVAddress_less_def word_less_nat_alt word_unat_eq_iff)

lemma extract_two_groups:
  assumes "m < 2 ^ 32" "n < 2 ^ 32"
  shows "extract_all (conv_unsigned 32) (istringstream (show_nat m @ CHR '' '' # show_nat n)) =
    ([int m, int n], \<lparr>rest = [], eofbit = True, failbit = True\<rparr>)"
  unfolding istringstream_def
  using assms extract_all_last [of "show_nat n" "conv_unsigned 32"]
  by (subst extract_all_group) (auto simp: conv_unsigned_small)

lemma dots_to_spaces:
  "list_all is_digit ds \<Longrightarrow> map (\<lambda>c. if c = CHR ''.'' then CHR '' '' else c) ds = ds"
  by (induction ds) (auto dest: digit_not_special)

lemma of_string_two_groups:
  assumes "m < 2 ^ 32" "n < 2 ^ 32"
  shows "MAVAddress_of_string (show_nat m @ ''.'' @ show_nat n) =
    MAVAddress_construct (word_of_nat m) (word_of_nat n)"
proof -
  have "hd (show_nat m @ ''.'' @ show_nat n) = hd (show_nat m)" by simp
  moreover have "last (show_nat m @ ''.'' @ show_nat n) = last (show_nat n)" by simp
  moreover have "\<not> length (show_nat m @ ''.'' @ show_nat n) < 3"
    using length_show_nat_pos [of m] length_show_nat_pos [of n] by simp
  moreover have "list_all (\<lambda>c. c = CHR ''.'' \<or> is_digit c) (show_nat m @ ''.'' @ show_nat n)"
    using show_nat_digits by (auto simp: list_all_iff)
  ultimately show ?thesis
    using extract_two_groups [OF assms]
    by (simp add: MAVAddress_of_string_def show_nat_hd_digit show_nat_last_digit dots_to_spaces)
qed

text \<open>
  C32: Printing an address and parsing the text gives the address back.
\<close>

theorem address_string_roundtrip:
  assumes "mav_wf a"
  shows "MAVAddress_of_string (show_MAVAddress a) = Inr a"
  using of_string_two_groups [of "unat (system a)" "unat (component a)"] assms
    unat_system_less [of a] unat_component_less [of a]
  by (simp add: show_MAVAddress_def construct_Inr_iff)


theorem address_order_witness:
  "mav_wf (MkMAVAddress 511) \<and> mav_wf (MkMAVAddress 512) \<and> MkMAVAddress 511 < MkMAVAddress 512
   \<and> system (MkMAVAddress 511) < system (MkMAVAddress 512)"
proof -
  have wf: "mav_wf (MkMAVAddress 511)" "mav_wf (MkMAVAddress 512)" by (simp_all add: mav_wf_def)
  have "system (MkMAVAddress 511) < system (MkMAVAddress 512)" by (simp add: system_def)
  then show ?thesis using wf address_order_lexicographic [OF wf] by blast
qed

theorem address_string_roundtrip_witness:
  "mav_wf (MkMAVAddress 0xC0A8) \<and> MAVAddress_of_string (show_MAVAddress (MkMAVAddress 0xC0A8)) =
     Inr (MkMAVAddress 0xC0A8) \<and> show_MAVAddress (MkMAVAddress 0xC0A8) = ''192.168''"
proof -
  have wf: "mav_wf (MkMAVAddress 0xC0A8)" by (simp add: mav_wf_def)
  have "show_MAVAddress (MkMAVAddress 0xC0A8) = ''192.168''"
    by (simp add: show_MAVAddress_def system_def component_def print_eval)
  then show ?thesis using wf address_string_roundtrip [OF wf] by simp
qed

section \<open>Texts the parser should refuse\<close>

text \<open>
  The string constructor accepts texts that are not of the documented form: an empty group
  (two dots in a row), leading zeros, and a trailing third group, as long as that group does not
  fit an unsigned int, because the failed extraction ends the loop with the stream at its end.
\<close>

theorem address_parser_lenient:
  "MAVAddress_of_string ''1..2'' = MAVAddress_construct 1 2
   \<and> MAVAddress_of_string ''001.2'' = MAVAddress_construct 1 2
   \<and> MAVAddress_of_string ''1.2.4294967296'' = MAVAddress_construct 1 2
   \<and> MAVAddress_of_string ''1.2.3'' = Inl invalid_address"
  by (simp add: MAVAddress_of_string_def stream_eval)

end
