(* ===== verification/MavSubnet.thy ===== *)
theory MavSubnet
  imports MtPrelude CxxStreams MavAddress
begin

text \<open>
  MAVLink subnets (\<open>MAVSubnet.cpp\<close>): an address and a two-byte mask of the bits that must agree.
  The string constructor splits its text with \<open>boost::tokenizer\<close>, which is not part of the
  repository: it is the parameter \<open>tok\<close>, and \<open>char_separator_spec\<close> is the documented behaviour of
  \<open>boost::char_separator<char>("", ":/\\")\<close> (no dropped and three kept delimiters, empty tokens left
  out).
\<close>

section \<open>The tokenizer\<close>

definition is_sep :: "char \<Rightarrow> bool" where
  "is_sep c \<longleftrightarrow> c = CHR '':'' \<or> c = CHR ''/'' \<or> c = CHR 0x5C"

definition is_word :: "string \<Rightarrow> bool" where
  "is_word t \<longleftrightarrow> t \<noteq> [] \<and> list_all (\<lambda>c. \<not> is_sep c) t"

fun valid_tokens :: "string list \<Rightarrow> bool" where
  "valid_tokens [] = True"
| "valid_tokens (t # ts) =
     ((is_word t \<and> (case ts of [] \<Rightarrow> True | u # us \<Rightarrow> \<not> is_word u)
       \<or> (\<exists>c \<in> {CHR '':'', CHR ''/'', CHR 0x5C}. t = [c]))
      \<and> valid_tokens ts)"

definition char_separator_spec :: "(string \<Rightarrow> string list) \<Rightarrow> bool" where
  "char_separator_spec tok \<longleftrightarrow> (\<forall>s. concat (tok s) = s \<and> valid_tokens (tok s))"

section \<open>The class\<close>

datatype MAVSubnet = MkMAVSubnet (subnet_address: MAVAddress) (subnet_mask: u32)

text \<open>\<open>MAVSubnet(const MAVAddress &, unsigned int)\<close> and \<open>MAVSubnet(const MAVAddress &, unsigned int,
  unsigned int)\<close>\<close>

definition MAVSubnet_of_mask :: "MAVAddress \<Rightarrow> u32 \<Rightarrow> cpp_error + MAVSubnet" where
  "MAVSubnet_of_mask a mask_arg =
     (if 0xFFFF < mask_arg
      then Inl (Out_of_range (''mask (0x'' @ show_hex True (unat mask_arg) @
                  '') is outside of the allowed range (0x0000 - 0xFFFF).''))
      else Inr (MkMAVSubnet a mask_arg))"

definition MAVSubnet_of_masks :: "MAVAddress \<Rightarrow> u32 \<Rightarrow> u32 \<Rightarrow> cpp_error + MAVSubnet" where
  "MAVSubnet_of_masks a system_mask component_mask =
     (if 0xFF < system_mask
      then Inl (Out_of_range (''System mask (0x'' @ show_hex True (unat system_mask) @
                  '') is outside of the allowed range (0x00 - 0xFF).''))
      else if 0xFF < component_mask
      then Inl (Out_of_range (''Component mask (0x'' @ show_hex False (unat component_mask) @
                  '') is outside of the allowed range (0x00 - 0xFF).''))
      else Inr (MkMAVSubnet a ((push_bit 8 system_mask AND 0xFF00) OR (component_mask AND 0x00FF))))"

text \<open>The masks of the slash and of the backslash form.\<close>

definition slash_mask :: "nat \<Rightarrow> u32" where
  "slash_mask n = push_bit (16 - n) 0xFFFF AND 0xFFFF"

definition backslash_mask :: "nat \<Rightarrow> u32" where
  "backslash_mask n = push_bit (8 - n) 0xFFFF AND 0x00FF"

abbreviation invalid_subnet :: "string \<Rightarrow> cpp_error" where
  "invalid_subnet s \<equiv> Invalid_argument (''Invalid MAVLink subnet: \"'' @ s @ ''\".'')"

text \<open>
  \<open>MAVSubnet(std::string)\<close>.  The variable \<open>slashmask\<close> has no initial value, so an extraction that
  leaves it alone makes the constructor read an indeterminate integer; \<open>mask_\<close> is left
  uninitialised when the switch matches no case.
\<close>

definition MAVSubnet_of_string :: "(string \<Rightarrow> string list) \<Rightarrow> string \<Rightarrow> cpp_error + MAVSubnet" where
  "MAVSubnet_of_string tok s =
     (case MAVAddress_of_string s of
        Inr a \<Rightarrow> Inr (MkMAVSubnet a 0xFFFF)
      | Inl _ \<Rightarrow>
          (let parts = tok s in
           if length parts \<noteq> 3 then Inl (invalid_subnet s)
           else
             (case MAVAddress_of_string (parts ! 0) of
                Inl e \<Rightarrow> Inl e
              | Inr a \<Rightarrow>
                  (case parts ! 1 of
                     [] \<Rightarrow> Inl (Out_of_range ''basic_string::at'')
                   | sep # _ \<Rightarrow>
                       if sep = CHR '':'' then
                         (case MAVAddress_of_string (parts ! 2) of
                            Inr m \<Rightarrow> Inr (MkMAVSubnet a (address m))
                          | Inl (Invalid_argument _) \<Rightarrow> Inl (invalid_subnet s)
                          | Inl e \<Rightarrow> Inl e)
                       else if sep = CHR ''/'' then
                         (case fst (extract_int (conv_signed 32) (istringstream (parts ! 2))) of
                            None \<Rightarrow> Inl (Undefined_behaviour ''slashmask is uninitialised'')
                          | Some n \<Rightarrow>
                              if n < 0 \<or> 16 < n
                              then Inl (Out_of_range (''Forward slash mask ('' @ show_int n @
                                          '') is outside of allowed range (0 - 16).''))
                              else Inr (MkMAVSubnet a (slash_mask (nat n))))
                       else if sep = CHR 0x5C then
                         (case fst (extract_int (conv_signed 32) (istringstream (parts ! 2))) of
                            None \<Rightarrow> Inl (Undefined_behaviour ''slashmask is uninitialised'')
                          | Some n \<Rightarrow>
                              if n < 0 \<or> 8 < n
                              then Inl (Out_of_range (''Backslash mask ('' @ show_int n @
                                          '') is outside of allowed range (0 - 8).''))
                              else Inr (MkMAVSubnet a (backslash_mask (nat n))))
                       else Inl (Undefined_behaviour ''mask_ is uninitialised'')))))"

definition MAVSubnet_eq :: "MAVSubnet \<Rightarrow> MAVSubnet \<Rightarrow> bool" where
  "MAVSubnet_eq lhs rhs \<longleftrightarrow> MAVAddress_eq (subnet_address lhs) (subnet_address rhs) \<and> subnet_mask lhs = subnet_mask rhs"

definition MAVSubnet_neq :: "MAVSubnet \<Rightarrow> MAVSubnet \<Rightarrow> bool" where
  "MAVSubnet_neq lhs rhs \<longleftrightarrow> MAVAddress_neq (subnet_address lhs) (subnet_address rhs) \<or> subnet_mask lhs \<noteq> subnet_mask rhs"

lemma MAVSubnet_operators: "MAVSubnet_eq a b \<longleftrightarrow> a = b" "MAVSubnet_neq a b \<longleftrightarrow> a \<noteq> b"
  by (auto simp: MAVSubnet_eq_def MAVSubnet_neq_def MAVAddress_operators intro: MAVSubnet.expand)

definition contains :: "MAVSubnet \<Rightarrow> MAVAddress \<Rightarrow> bool" where
  "contains s a \<longleftrightarrow> address a AND subnet_mask s = address (subnet_address s) AND subnet_mask s"

text \<open>\<open>operator<<\<close>: the cases of the switch, and its default.\<close>

definition mask_suffixes :: "(u32 \<times> string) list" where
  "mask_suffixes =
    [(0b1111111111111111, ''''),
     (0b1111111111111110, ''/15''), (0b1111111111111100, ''/14''), (0b1111111111111000, ''/13''),
     (0b1111111111110000, ''/12''), (0b1111111111100000, ''/11''), (0b1111111111000000, ''/10''),
     (0b1111111110000000, ''/9''), (0b1111111100000000, ''/8''), (0b1111111000000000, ''/7''),
     (0b1111110000000000, ''/6''), (0b1111100000000000, ''/5''), (0b1111000000000000, ''/4''),
     (0b1110000000000000, ''/3''), (0b1100000000000000, ''/2''), (0b1000000000000000, ''/1''),
     (0b0000000000000000, ''/0''),
     (0b0000000011111111, CHR 0x5C # ''8''), (0b0000000011111110, CHR 0x5C # ''7''),
     (0b0000000011111100, CHR 0x5C # ''6''), (0b0000000011111000, CHR 0x5C # ''5''),
     (0b0000000011110000, CHR 0x5C # ''4''), (0b0000000011100000, CHR 0x5C # ''3''),
     (0b0000000011000000, CHR 0x5C # ''2''), (0b0000000010000000, CHR 0x5C # ''1'')]"

definition show_MAVSubnet :: "MAVSubnet \<Rightarrow> cpp_error + string" where
  "show_MAVSubnet s =
     (case map_of mask_suffixes (subnet_mask s) of
        Some suffix \<Rightarrow> Inr (show_MAVAddress (subnet_address s) @ suffix)
      | None \<Rightarrow>
          (case MAVAddress_of_int (subnet_mask s) of
             Inl e \<Rightarrow> Inl e
           | Inr m \<Rightarrow> Inr (show_MAVAddress (subnet_address s) @ '':'' @ show_MAVAddress m)))"

definition subnet_wf :: "MAVSubnet \<Rightarrow> bool" where
  "subnet_wf s \<longleftrightarrow> mav_wf (subnet_address s) \<and> subnet_mask s \<le> 0xFFFF"

section \<open>Tokens of a text with one delimiter\<close>

lemma valid_tokens_word:
  assumes "valid_tokens ts" "concat ts = w @ r" "is_word w" "r = [] \<or> is_sep (hd r)"
  obtains ts' where "ts = w # ts'" "concat ts' = r" "valid_tokens ts'"
proof -
  obtain t ts' where ts: "ts = t # ts'"
    using assms(2,3) by (cases ts) (auto simp: is_word_def)
  obtain c w' where w: "w = c # w'" "\<not> is_sep c" using assms(3) by (cases w) (auto simp: is_word_def)
  have "\<not> (\<exists>c \<in> {CHR '':'', CHR ''/'', CHR 0x5C}. t = [c])"
    using assms(2) ts w by (auto simp: is_sep_def)
  then have t: "is_word t" and next_sep: "case ts' of [] \<Rightarrow> True | u # us \<Rightarrow> \<not> is_word u"
    and v: "valid_tokens ts'"
    using assms(1) ts by auto
  have r': "concat ts' = [] \<or> is_sep (hd (concat ts'))"
    using next_sep v by (cases ts') (auto simp: is_sep_def)
  have tw: "takeWhile (\<lambda>c. \<not> is_sep c) (x @ y) = x" "dropWhile (\<lambda>c. \<not> is_sep c) (x @ y) = y"
    if "is_word x" "y = [] \<or> is_sep (hd y)" for x y
    using takeWhile_prefix [of "\<lambda>c. \<not> is_sep c" x y] that by (auto simp: is_word_def)
  have "t @ concat ts' = w @ r" using assms(2) ts by simp
  then have "t = w" "concat ts' = r"
    using tw [OF t r'] tw [OF assms(3,4)] by auto
  then show ?thesis using that ts v by blast
qed

lemma tokens_word_sep_word:
  assumes "char_separator_spec tok" "is_word u" "is_sep c" "is_word v"
  shows "tok (u @ c # v) = [u, [c], v]"
proof -
  have sp: "valid_tokens (tok (u @ c # v))" "concat (tok (u @ c # v)) = u @ c # v"
    using assms(1) by (auto simp: char_separator_spec_def)
  then obtain ts where ts: "tok (u @ c # v) = u # ts" "concat ts = c # v" "valid_tokens ts"
    using valid_tokens_word [OF sp assms(2)] assms(3) by auto
  obtain t ts' where t: "ts = t # ts'" using ts(2) by (cases ts) auto
  have "\<not> is_word t" using ts(2) t assms(3) by (cases t) (auto simp: is_word_def)
  then have "t = [c]" "concat ts' = v @ []" "valid_tokens ts'" using ts t by auto
  then obtain ts'' where "ts' = v # ts''" "concat ts'' = []" "valid_tokens ts''"
    using valid_tokens_word [of ts' v "[]"] assms(4) by auto
  moreover have "ts'' = []" using calculation(2,3) by (cases ts'') (auto simp: is_word_def)
  ultimately show ?thesis using ts t \<open>t = [c]\<close> by simp
qed

text \<open>A reference tokenizer, which shows that the specification can be met.\<close>

fun tokenize :: "string \<Rightarrow> string list" where
  "tokenize [] = []"
| "tokenize (c # cs) =
     (if is_sep c then [c] # tokenize cs
      else (case tokenize cs of
              [] \<Rightarrow> [[c]]
            | t # ts \<Rightarrow> if is_word t then (c # t) # ts else [c] # t # ts))"

lemma is_word_Cons: "is_word (c # t) \<longleftrightarrow> \<not> is_sep c \<and> (t = [] \<or> is_word t)"
  by (auto simp: is_word_def)

lemma valid_tokens_sep: "is_sep c \<Longrightarrow> valid_tokens ([c] # ts) \<longleftrightarrow> valid_tokens ts"
  by (auto simp: is_sep_def is_word_def)

lemma valid_tokens_extend: "is_word t \<Longrightarrow> \<not> is_sep c \<Longrightarrow> valid_tokens (t # ts) \<Longrightarrow> valid_tokens ((c # t) # ts)"
  by (auto simp: is_word_Cons) (auto simp: is_word_def is_sep_def)

lemma tokenize_correct: "concat (tokenize s) = s \<and> valid_tokens (tokenize s)"
proof (induction s)
  case (Cons c cs)
  show ?case
  proof (cases "is_sep c")
    case True
    then show ?thesis using Cons.IH by (simp add: valid_tokens_sep del: valid_tokens.simps)
  next
    case False
    show ?thesis
    proof (cases "tokenize cs")
      case Nil
      with False Cons.IH show ?thesis by (simp add: is_word_def)
    next
      case (Cons t ts)
      show ?thesis
      proof (cases "is_word t")
        case True
        with False Cons Cons.IH show ?thesis
          by (auto simp del: valid_tokens.simps intro: valid_tokens_extend)
      next
        case nw: False
        have "is_word [c]" using False by (simp add: is_word_def)
        then have "valid_tokens ([c] # t # ts)"
          using nw Cons.IH Cons by (subst valid_tokens.simps) simp
        then show ?thesis using nw False Cons Cons.IH by (auto simp del: valid_tokens.simps)
      qed
    qed
  qed
qed simp

lemma tokenize_spec: "char_separator_spec tokenize"
  by (simp add: char_separator_spec_def tokenize_correct)

section \<open>Masks\<close>

lemma and_mask_eq_iff:
  fixes a b m :: "'a::len word"
  shows "a AND m = b AND m \<longleftrightarrow> (\<forall>k. bit m k \<longrightarrow> bit a k = bit b k)"
proof -
  have "a AND m = b AND m \<longleftrightarrow> (\<forall>k. bit (a AND m) k = bit (b AND m) k)"
    by (metis bit_eq_iff)
  then show ?thesis by (auto simp: bit_and_iff)
qed

lemma drop_bit_eq_iff_bits:
  fixes a b :: "'a::len word"
  shows "drop_bit j a = drop_bit j b \<longleftrightarrow> (\<forall>k. j \<le> k \<longrightarrow> bit a k = bit b k)"
proof
  assume eq: "drop_bit j a = drop_bit j b"
  show "\<forall>k. j \<le> k \<longrightarrow> bit a k = bit b k"
  proof (intro allI impI)
    fix k assume "j \<le> k"
    then have "bit a k = bit (drop_bit j a) (k - j)" "bit b k = bit (drop_bit j b) (k - j)"
      by (simp_all add: bit_drop_bit_eq)
    then show "bit a k = bit b k" using eq by simp
  qed
next
  assume "\<forall>k. j \<le> k \<longrightarrow> bit a k = bit b k"
  then show "drop_bit j a = drop_bit j b"
    by (intro bit_word_eqI) (simp add: bit_drop_bit_eq)
qed

lemma bit_slash_mask: "n \<le> 16 \<Longrightarrow> bit (slash_mask n) k \<longleftrightarrow> 16 - n \<le> k \<and> k < 16"
  by (auto simp: slash_mask_def word_masks bit_simps)

lemma bit_backslash_mask: "n \<le> 8 \<Longrightarrow> bit (backslash_mask n) k \<longleftrightarrow> 8 - n \<le> k \<and> k < 8"
  by (auto simp: backslash_mask_def word_masks byte_masks bit_simps)

lemma mav_wf_bit: "mav_wf a \<Longrightarrow> bit (address a) k \<Longrightarrow> k < 16"
  using mav_wf_bits [of a] by (metis bit_take_bit_iff)

lemma bit_component: "bit (component a) k \<longleftrightarrow> k < 8 \<and> bit (address a) k"
  by (auto simp: component_def byte_masks bit_simps)

lemma mask_suffixes_eq:
  "mask_suffixes =
     (0xFFFF, '''')
     # map (\<lambda>n. (slash_mask n, CHR ''/'' # show_nat n)) [15,14,13,12,11,10,9,8,7,6,5,4,3,2,1,0]
     @ map (\<lambda>n. (backslash_mask n, CHR 0x5C # show_nat n)) [8,7,6,5,4,3,2,1]"
  by (simp add: mask_suffixes_def slash_mask_def backslash_mask_def print_eval)

lemma mask_suffix_cases:
  assumes "map_of mask_suffixes m = Some suffix"
  obtains (exact) "m = 0xFFFF" "suffix = ''''"
  | (slash) n where "n \<le> 16" "m = slash_mask n" "suffix = CHR ''/'' # show_nat n"
  | (backslash) n where "n \<le> 8" "m = backslash_mask n" "suffix = CHR 0x5C # show_nat n"
proof -
  have "(m, suffix) \<in> set mask_suffixes" using assms by (rule map_of_SomeD)
  then consider "(m, suffix) = (0xFFFF, '''')"
    | n where "n \<in> set [15,14,13,12,11,10,9,8,7,6,5,4,3,2,1,0 :: nat]"
        "(m, suffix) = (slash_mask n, CHR ''/'' # show_nat n)"
    | n where "n \<in> set [8,7,6,5,4,3,2,1 :: nat]"
        "(m, suffix) = (backslash_mask n, CHR 0x5C # show_nat n)"
    unfolding mask_suffixes_eq set_append set_map list.set(2) image_iff Un_iff insert_iff by blast
  then show ?thesis
  proof cases
    case 1
    then show ?thesis using that(1) by simp
  next
    case (2 n)
    have "\<forall>k \<in> set [15,14,13,12,11,10,9,8,7,6,5,4,3,2,1,0 :: nat]. k \<le> 16" by simp
    then show ?thesis using 2 that(2) by blast
  next
    case (3 n)
    have "\<forall>k \<in> set [8,7,6,5,4,3,2,1 :: nat]. k \<le> 8" by simp
    then show ?thesis using 3 that(3) by blast
  qed
qed

section \<open>Parsing printed subnets\<close>

lemma show_MAVAddress_chars: "list_all (\<lambda>c. c = CHR ''.'' \<or> is_digit c) (show_MAVAddress a)"
  using show_nat_digits by (auto simp: show_MAVAddress_def list_all_iff)

lemma address_char_not_sep: "c = CHR ''.'' \<or> is_digit c \<Longrightarrow> \<not> is_sep c"
  by (auto simp: is_sep_def is_digit_def)

lemma is_word_show_MAVAddress: "is_word (show_MAVAddress a)"
proof -
  have "show_MAVAddress a \<noteq> []" by (simp add: show_MAVAddress_def)
  moreover have "list_all (\<lambda>c. \<not> is_sep c) (show_MAVAddress a)"
    using show_MAVAddress_chars by (rule list.pred_mono_strong) (rule address_char_not_sep)
  ultimately show ?thesis by (simp add: is_word_def)
qed

lemma is_word_show_nat: "is_word (show_nat n)"
proof -
  have "list_all (\<lambda>c. \<not> is_sep c) (show_nat n)"
    using show_nat_all_digits by (rule list.pred_mono_strong) (simp add: address_char_not_sep)
  then show ?thesis by (simp add: is_word_def)
qed

lemma address_refuses_sep:
  assumes "is_sep c"
  shows "MAVAddress_of_string (u @ c # v) = Inl invalid_address"
proof -
  have "\<not> list_all (\<lambda>c. c = CHR ''.'' \<or> is_digit c) (u @ c # v)"
    using assms by (auto simp: is_sep_def is_digit_def)
  then show ?thesis
    by (simp only: MAVAddress_of_string_def if_True if_cancel not_False_eq_True)
qed

lemma show_MAVAddress_parses:
  "mav_wf a \<Longrightarrow> MAVAddress_of_string (show_MAVAddress a) = Inr a"
  using of_string_two_groups [of "unat (system a)" "unat (component a)"]
    unat_system_less [of a] unat_component_less [of a]
  by (simp add: show_MAVAddress_def construct_Inr_iff)

lemma extract_show_nat:
  assumes "n < 2 ^ 31"
  shows "fst (extract_int (conv_signed 32) (istringstream (show_nat n))) = Some (int n)"
  using extract_int_digits [of "show_nat n" "[]" "conv_signed 32"] assms
  by (simp add: istringstream_def conv_signed_def)

lemma subnet_parts:
  assumes "char_separator_spec tok" "mav_wf a" "is_sep c" "is_word v"
  shows "MAVSubnet_of_string tok (show_MAVAddress a @ c # v) =
    (if c = CHR '':'' then
       (case MAVAddress_of_string v of
          Inr m \<Rightarrow> Inr (MkMAVSubnet a (address m))
        | Inl (Invalid_argument _) \<Rightarrow> Inl (invalid_subnet (show_MAVAddress a @ c # v))
        | Inl e \<Rightarrow> Inl e)
     else if c = CHR ''/'' then
       (case fst (extract_int (conv_signed 32) (istringstream v)) of
          None \<Rightarrow> Inl (Undefined_behaviour ''slashmask is uninitialised'')
        | Some n \<Rightarrow>
            if n < 0 \<or> 16 < n
            then Inl (Out_of_range (''Forward slash mask ('' @ show_int n @
                        '') is outside of allowed range (0 - 16).''))
            else Inr (MkMAVSubnet a (slash_mask (nat n))))
     else
       (case fst (extract_int (conv_signed 32) (istringstream v)) of
          None \<Rightarrow> Inl (Undefined_behaviour ''slashmask is uninitialised'')
        | Some n \<Rightarrow>
            if n < 0 \<or> 8 < n
            then Inl (Out_of_range (''Backslash mask ('' @ show_int n @
                        '') is outside of allowed range (0 - 8).''))
            else Inr (MkMAVSubnet a (backslash_mask (nat n)))))"
proof -
  have e: "MAVAddress_of_string (show_MAVAddress a @ c # v) = Inl invalid_address"
    by (rule address_refuses_sep [OF assms(3)])
  have "c = CHR '':'' \<or> c = CHR ''/'' \<or> c = CHR 0x5C" using assms(3) by (simp add: is_sep_def)
  then show ?thesis
    unfolding MAVSubnet_of_string_def e
      tokens_word_sep_word [OF assms(1) is_word_show_MAVAddress assms(3,4)] Let_def
    by (auto simp: show_MAVAddress_parses [OF assms(2)])
qed

lemma parse_slash:
  assumes "char_separator_spec tok" "mav_wf a" "n \<le> 16"
  shows "MAVSubnet_of_string tok (show_MAVAddress a @ CHR ''/'' # show_nat n) =
    Inr (MkMAVSubnet a (slash_mask n))"
  using assms(3)
  by (simp add: subnet_parts [OF assms(1,2)] is_sep_def is_word_show_nat extract_show_nat)

lemma parse_backslash:
  assumes "char_separator_spec tok" "mav_wf a" "n \<le> 8"
  shows "MAVSubnet_of_string tok (show_MAVAddress a @ CHR 0x5C # show_nat n) =
    Inr (MkMAVSubnet a (backslash_mask n))"
  using assms(3)
  by (simp add: subnet_parts [OF assms(1,2)] is_sep_def is_word_show_nat extract_show_nat)

lemma parse_full_mask:
  assumes "char_separator_spec tok" "mav_wf a" "mav_wf m"
  shows "MAVSubnet_of_string tok (show_MAVAddress a @ CHR '':'' # show_MAVAddress m) =
    Inr (MkMAVSubnet a (address m))"
  by (simp add: subnet_parts [OF assms(1,2)] is_sep_def is_word_show_MAVAddress
      show_MAVAddress_parses [OF assms(3)])

section \<open>Properties\<close>

text \<open>
  C30: In the slash form \<open>address/n\<close> (n at most 16) a subnet contains exactly the addresses whose
  leading n of 16 bits agree with those of the subnet's address.
\<close>

theorem slash_contains:
  assumes "mav_wf a" "mav_wf b" "n \<le> 16"
  shows "contains (MkMAVSubnet b (slash_mask n)) a \<longleftrightarrow>
    drop_bit (16 - n) (address a) = drop_bit (16 - n) (address b)"
  unfolding contains_def MAVSubnet.sel and_mask_eq_iff drop_bit_eq_iff_bits bit_slash_mask [OF assms(3)]
  using mav_wf_bit [OF assms(1)] mav_wf_bit [OF assms(2)] by blast

theorem slash_contains_witness:
  "mav_wf (MkMAVAddress 0x807F) \<and> contains (MkMAVSubnet (MkMAVAddress 0x8000) (slash_mask 9))
     (MkMAVAddress 0x807F)"
proof -
  have wf: "mav_wf (MkMAVAddress 0x807F)" "mav_wf (MkMAVAddress 0x8000)" by (simp_all add: mav_wf_def)
  have n: "(9 :: nat) \<le> 16" by simp
  show ?thesis
    using wf slash_contains [OF wf n] by (simp add: drop_bit_eq_div)
qed

text \<open>
  In the backslash form (n at most 8) the system ID is ignored, and the leading n of the 8 bits
  of the component ID must agree.
\<close>

theorem backslash_contains:
  assumes "n \<le> 8"
  shows "contains (MkMAVSubnet b (backslash_mask n)) a \<longleftrightarrow>
    drop_bit (8 - n) (component a) = drop_bit (8 - n) (component b)"
  unfolding contains_def MAVSubnet.sel and_mask_eq_iff drop_bit_eq_iff_bits
    bit_backslash_mask [OF assms] bit_component
  by auto

theorem backslash_contains_witness:
  "contains (MkMAVSubnet (MkMAVAddress 0x80FF) (backslash_mask 1)) (MkMAVAddress 0x0180)"
proof -
  have n: "(1 :: nat) \<le> 8" by simp
  show ?thesis using backslash_contains [OF n] by (simp add: component_def drop_bit_eq_div)
qed

text \<open>
  C31: Printing a subnet and parsing the text gives the same address and mask back, whichever of the
  four forms the printer chooses, for any tokenizer that behaves as documented.
\<close>

theorem subnet_string_roundtrip:
  assumes "char_separator_spec tok" "subnet_wf s"
  shows "\<exists>t. show_MAVSubnet s = Inr t \<and> MAVSubnet_of_string tok t = Inr s"
proof -
  obtain a m where s: "s = MkMAVSubnet a m" by (cases s)
  from assms(2) have wf: "mav_wf a" "m \<le> 0xFFFF" by (simp_all add: subnet_wf_def s)
  show ?thesis
  proof (cases "map_of mask_suffixes m")
    case None
    have "MAVAddress_of_int m = Inr (MkMAVAddress m)" "mav_wf (MkMAVAddress m)"
      using wf(2) by (simp_all add: MAVAddress_of_int_def mav_wf_def not_less [symmetric])
    then show ?thesis
      using parse_full_mask [OF assms(1) wf(1), of "MkMAVAddress m"]
      by (simp add: show_MAVSubnet_def s None)
  next
    case (Some suffix)
    have "show_MAVSubnet s = Inr (show_MAVAddress a @ suffix)"
      by (simp add: show_MAVSubnet_def s Some)
    moreover have "MAVSubnet_of_string tok (show_MAVAddress a @ suffix) = Inr s"
      using Some
      by (cases rule: mask_suffix_cases)
        (simp_all add: s MAVSubnet_of_string_def [of tok "show_MAVAddress a"]
          show_MAVAddress_parses [OF wf(1)] parse_slash [OF assms(1) wf(1)]
          parse_backslash [OF assms(1) wf(1)])
    ultimately show ?thesis by blast
  qed
qed

theorem subnet_string_roundtrip_witness:
  "subnet_wf (MkMAVSubnet (MkMAVAddress 0xC0A8) 0xFFF0) \<and>
   (\<exists>t. show_MAVSubnet (MkMAVSubnet (MkMAVAddress 0xC0A8) 0xFFF0) = Inr t
      \<and> MAVSubnet_of_string tokenize t = Inr (MkMAVSubnet (MkMAVAddress 0xC0A8) 0xFFF0))"
proof -
  have wf: "subnet_wf (MkMAVSubnet (MkMAVAddress 0xC0A8) 0xFFF0)"
    by (simp add: subnet_wf_def mav_wf_def)
  show ?thesis using wf subnet_string_roundtrip [OF tokenize_spec wf] by blast
qed

text \<open>
  A slash with no number behind it is not refused: the extraction fails and stores zero, so
  the subnet silently becomes the one that contains every address; with nothing but white space
  behind the slash the constructor reads an uninitialised variable.
\<close>

theorem slash_without_number:
  assumes "char_separator_spec tok"
  shows "MAVSubnet_of_string tok ''1.2/x'' = Inr (MkMAVSubnet (MkMAVAddress 0x0102) 0)
    \<and> contains (MkMAVSubnet (MkMAVAddress 0x0102) 0) a
    \<and> MAVSubnet_of_string tok ''1.2/ '' =
        Inl (Undefined_behaviour ''slashmask is uninitialised'')"
proof -
  have sh: "show_MAVAddress (MkMAVAddress 0x0102) = ''1.2''"
    by (simp add: show_MAVAddress_def system_def component_def print_eval)
  have wf: "mav_wf (MkMAVAddress 0x0102)" by (simp add: mav_wf_def)
  have "is_word ''x''" "is_word '' ''" "is_sep (CHR ''/'')" by (simp_all add: is_word_def is_sep_def)
  then show ?thesis
    using subnet_parts [OF assms wf, of "CHR ''/''" "''x''"]
      subnet_parts [OF assms wf, of "CHR ''/''" "'' ''"]
    by (simp add: sh stream_eval slash_mask_def contains_def)
qed

theorem slash_without_number_witness:
  "MAVSubnet_of_string tokenize ''1.2/x'' = Inr (MkMAVSubnet (MkMAVAddress 0x0102) 0)"
  using slash_without_number [OF tokenize_spec] by blast

end
