(* ===== verification/IpAddress.thy ===== *)
theory IpAddress
  imports MtPrelude CxxStreams
begin

text \<open>
  IPv4 addresses with a port (\<open>IPAddress.cpp\<close>).  The string constructor splits its text with
  \<open>boost::split\<close>, which is not part of the repository: it is the parameter \<open>split_colon\<close>, and
  \<open>split_spec\<close> is its documented behaviour for the predicate the code passes (every colon separates
  two parts, nothing is dropped).  \<open>getaddrinfo\<close> is the parameter of the lookup.
\<close>

definition split_spec :: "(string \<Rightarrow> string list) \<Rightarrow> bool" where
  "split_spec split_colon \<longleftrightarrow>
     (\<forall>s. split_colon s \<noteq> [] \<and> join_with (CHR '':'') (split_colon s) = s
        \<and> list_all (\<lambda>p. CHR '':'' \<notin> set p) (split_colon s))"

section \<open>The class\<close>

datatype IPAddress = MkIPAddress (ip_address: u64) (ip_port: u32)

definition IPAddress_construct :: "u64 \<Rightarrow> u32 \<Rightarrow> cpp_error + IPAddress" where
  "IPAddress_construct a p =
     (if 0xFFFFFFFF < a
      then Inl (Out_of_range (''Address (0x'' @ show_hex True (unat a) @
                  '') is outside of the allowed range (0x00000000 - 0xFFFFFFFF).''))
      else if 65535 < p
      then Inl (Out_of_range (''port number ('' @ show_nat (unat p) @
                  '') is outside of the allowed range (0 - 65535).''))
      else Inr (MkIPAddress a p))"

definition IPAddress_of_numbers :: "u64 \<Rightarrow> u32 \<Rightarrow> cpp_error + IPAddress" where
  "IPAddress_of_numbers a p = IPAddress_construct a p"

definition IPAddress_with_port :: "IPAddress \<Rightarrow> u32 \<Rightarrow> cpp_error + IPAddress" where
  "IPAddress_with_port other p = IPAddress_construct (ip_address other) p"

abbreviation invalid_ip :: cpp_error where
  "invalid_ip \<equiv> Invalid_argument ''Invalid IP address string.''"

text \<open>What the string constructor does with the part before the colon, once the port is read.\<close>

definition IPAddress_of_part :: "string \<Rightarrow> u32 \<Rightarrow> cpp_error + IPAddress" where
  "IPAddress_of_part s p =
     (if length s < 7 \<or> \<not> is_digit (hd s) \<or> \<not> is_digit (last s) then Inl invalid_ip
      else if \<not> list_all (\<lambda>c. c = CHR ''.'' \<or> is_digit c) s then Inl invalid_ip
      else
        (let octets = fst (extract_all (conv_unsigned 64)
                (istringstream (map (\<lambda>c. if c = CHR ''.'' then CHR '' '' else c) s)))
         in if length octets \<noteq> 4 then Inl invalid_ip
            else
              (case filter (\<lambda>i. 255 < i) octets of
                 i # _ \<Rightarrow> Inl (Out_of_range (''Address octet ('' @ show_int i @
                            '') is outside of the allowed range (0 - 255).''))
               | [] \<Rightarrow>
                   IPAddress_construct
                     (push_bit 24 (word_of_int (octets ! 0)) OR push_bit 16 (word_of_int (octets ! 1))
                      OR push_bit 8 (word_of_int (octets ! 2)) OR word_of_int (octets ! 3)) p)))"

text \<open>\<open>IPAddress(std::string)\<close>; the port keeps its initial zero when the extraction stores nothing.\<close>

definition IPAddress_of_string :: "(string \<Rightarrow> string list) \<Rightarrow> string \<Rightarrow> cpp_error + IPAddress" where
  "IPAddress_of_string split_colon s =
     (case split_colon s of
        [host, port] \<Rightarrow>
          IPAddress_of_part host
            (case fst (extract_int (conv_unsigned 32) (istringstream port)) of
               None \<Rightarrow> 0
             | Some n \<Rightarrow> word_of_int n)
      | [host] \<Rightarrow> IPAddress_of_part host 0
      | _ \<Rightarrow> Inl invalid_ip)"

text \<open>The comparison operators: the address first, then the port.\<close>

definition IPAddress_eq :: "IPAddress \<Rightarrow> IPAddress \<Rightarrow> bool" where
  "IPAddress_eq lhs rhs \<longleftrightarrow> ip_address lhs = ip_address rhs \<and> ip_port lhs = ip_port rhs"

definition IPAddress_less :: "IPAddress \<Rightarrow> IPAddress \<Rightarrow> bool" where
  "IPAddress_less lhs rhs \<longleftrightarrow> ip_address lhs < ip_address rhs
     \<or> (ip_address lhs = ip_address rhs \<and> ip_port lhs < ip_port rhs)"

definition IPAddress_less_eq :: "IPAddress \<Rightarrow> IPAddress \<Rightarrow> bool" where
  "IPAddress_less_eq lhs rhs \<longleftrightarrow> IPAddress_less lhs rhs \<or> IPAddress_eq lhs rhs"

definition IPAddress_neq :: "IPAddress \<Rightarrow> IPAddress \<Rightarrow> bool" where
  "IPAddress_neq lhs rhs \<longleftrightarrow> ip_address lhs \<noteq> ip_address rhs \<or> ip_port lhs \<noteq> ip_port rhs"

definition IPAddress_greater :: "IPAddress \<Rightarrow> IPAddress \<Rightarrow> bool" where
  "IPAddress_greater lhs rhs \<longleftrightarrow> ip_address lhs > ip_address rhs
     \<or> (ip_address lhs = ip_address rhs \<and> ip_port lhs > ip_port rhs)"

definition IPAddress_greater_eq :: "IPAddress \<Rightarrow> IPAddress \<Rightarrow> bool" where
  "IPAddress_greater_eq lhs rhs \<longleftrightarrow> IPAddress_greater lhs rhs \<or> IPAddress_eq lhs rhs"

instantiation IPAddress :: linorder
begin

definition less_IPAddress :: "IPAddress \<Rightarrow> IPAddress \<Rightarrow> bool" where
  "less_IPAddress = IPAddress_less"

definition less_eq_IPAddress :: "IPAddress \<Rightarrow> IPAddress \<Rightarrow> bool" where
  "less_eq_IPAddress = IPAddress_less_eq"

instance
  by standard
    (auto simp: less_IPAddress_def less_eq_IPAddress_def IPAddress_less_def IPAddress_less_eq_def IPAddress_eq_def
      intro: IPAddress.expand)

end

lemma IPAddress_operators:
  "IPAddress_eq a b \<longleftrightarrow> a = b" "IPAddress_neq a b \<longleftrightarrow> a \<noteq> b"
  "IPAddress_greater a b \<longleftrightarrow> b < a" "IPAddress_greater_eq a b \<longleftrightarrow> b \<le> a"
  by (auto simp: IPAddress_eq_def IPAddress_neq_def IPAddress_greater_def IPAddress_greater_eq_def
      less_IPAddress_def less_eq_IPAddress_def IPAddress_less_def IPAddress_less_eq_def intro: IPAddress.expand)

text \<open>\<open>operator<<\<close>\<close>

definition show_IPAddress :: "IPAddress \<Rightarrow> string" where
  "show_IPAddress ip =
     (let bytes = to_bytes 8 (ip_address ip) in
      concat (map (\<lambda>i. show_nat (unat (bytes ! i)) @ ''.'') [3, 2, 1])
      @ show_nat (unat (bytes ! 0))
      @ (if ip_port ip \<noteq> 0 then '':'' @ show_nat (unat (ip_port ip)) else []))"

text \<open>
  \<open>unix_dnslookup\<close> and \<open>dnslookup\<close>.  The parameter gives the addresses \<open>getaddrinfo\<close> lists for a
  name, in host byte order, or \<open>None\<close> when it fails; the code collects them in a \<open>std::set\<close> and
  returns its first element.
\<close>

definition unix_dnslookup :: "(string \<Rightarrow> u32 list option) \<Rightarrow> string \<Rightarrow> u32 \<Rightarrow> cpp_error + IPAddress" where
  "unix_dnslookup getaddrinfo url p =
     (case getaddrinfo url of
        None \<Rightarrow> Inl (DNSLookupError url)
      | Some results \<Rightarrow>
          (case map (\<lambda>a. IPAddress_construct (ucast a) p) results of
             [] \<Rightarrow> Inl (DNSLookupError url)
           | Inl e # _ \<Rightarrow> Inl e
           | Inr ip # rs \<Rightarrow>
               foldl (\<lambda>acc r. case (acc, r) of
                   (Inr x, Inr y) \<Rightarrow> Inr (min x y)
                 | (Inl e, _) \<Rightarrow> Inl e
                 | (_, Inl e) \<Rightarrow> Inl e) (Inr ip) rs))"

definition dnslookup :: "(string \<Rightarrow> u32 list option) \<Rightarrow> string \<Rightarrow> cpp_error + IPAddress" where
  "dnslookup getaddrinfo url = unix_dnslookup getaddrinfo url 0"

section \<open>The class invariant\<close>

definition ip_wf :: "IPAddress \<Rightarrow> bool" where
  "ip_wf ip \<longleftrightarrow> ip_address ip \<le> 0xFFFFFFFF \<and> ip_port ip \<le> 65535"

lemma construct_ip_iff:
  "IPAddress_construct a p = Inr ip \<longleftrightarrow> ip = MkIPAddress a p \<and> ip_wf ip"
  by (auto simp: IPAddress_construct_def ip_wf_def not_less split: if_splits)

text \<open>Four octets make the address, most significant first.\<close>

lemma bytes_join:
  assumes "(a :: u64) \<le> 0xFFFFFFFF"
  shows "push_bit 24 (ucast (to_bytes 8 a ! 3)) OR push_bit 16 (ucast (to_bytes 8 a ! 2))
    OR push_bit 8 (ucast (to_bytes 8 a ! 1)) OR ucast (to_bytes 8 a ! 0) = a"
proof -
  have "take_bit 32 a = a"
    using assms by (intro mask_fits) (simp add: word_le_nat_alt)
  then have a: "bit a n \<Longrightarrow> n < 32" for n by (metis bit_take_bit_iff)
  have m: "(0xFF :: u64) = mask 8" by (simp add: mask_eq_exp_minus_1)
  have "bit (push_bit 24 (ucast (to_bytes 8 a ! 3)) OR push_bit 16 (ucast (to_bytes 8 a ! 2))
    OR push_bit 8 (ucast (to_bytes 8 a ! 1)) OR ucast (to_bytes 8 a ! 0) :: u64) n = bit a n" for n
    using a [of n]
    by (cases "n < 8"; cases "n < 16"; cases "n < 24") (auto simp: to_bytes_def m bit_simps)
  then show ?thesis by (rule bit_eqI)
qed

lemma byte_word_of_nat: "word_of_nat (unat (b :: u8)) = (ucast b :: u64)"
  by simp

lemma ip_part_of_octets:
  assumes "length ns = 4" "list_all (\<lambda>n. n < 256) ns"
  shows "IPAddress_of_part (join_with (CHR ''.'') (map show_nat ns)) p =
    IPAddress_construct (push_bit 24 (word_of_nat (ns ! 0)) OR push_bit 16 (word_of_nat (ns ! 1))
      OR push_bit 8 (word_of_nat (ns ! 2)) OR word_of_nat (ns ! 3)) p"
proof -
  obtain k l m n where ns: "ns = [k, l, m, n]"
    using assms(1) by (auto simp: length_Suc_conv numeral_eq_Suc)
  let ?s = "join_with (CHR ''.'') (map show_nat ns)"
  have d: "map (\<lambda>c. if c = CHR ''.'' then CHR '' '' else c) (show_nat i) = show_nat i" for i
    using show_nat_digits [of i] by (intro map_idI) (auto dest: digit_not_special(1))
  have "map (\<lambda>c. if c = CHR ''.'' then CHR '' '' else c) ?s = join_with (CHR '' '') (map show_nat ns)"
    by (simp add: map_join_with ns d)
  moreover have "list_all (\<lambda>n. n < 2 ^ 64) ns"
    using assms(2) by (rule list.pred_mono_strong) simp
  ultimately have "extract_all (conv_unsigned 64)
      (istringstream (map (\<lambda>c. if c = CHR ''.'' then CHR '' '' else c) ?s)) =
      (map int ns, \<lparr>rest = [], eofbit = True, failbit = True\<rparr>)"
    using extract_all_numbers [of ns 64] ns by simp
  moreover have "filter (\<lambda>i. 255 < i) (map int ns) = []"
    using assms(2) by (auto simp: filter_empty_conv list_all_iff)
  moreover have "\<not> length ?s < 7" "hd ?s = hd (show_nat k)" "last ?s = last (show_nat n)"
    using length_show_nat_pos [of k] length_show_nat_pos [of l] length_show_nat_pos [of m]
      length_show_nat_pos [of n] by (simp_all add: ns)
  moreover have "list_all (\<lambda>c. c = CHR ''.'' \<or> is_digit c) ?s"
    using show_nat_digits by (auto simp: ns list_all_iff)
  ultimately show ?thesis
    by (simp add: IPAddress_of_part_def Let_def show_nat_hd_digit show_nat_last_digit assms(1))
qed

definition octets_of :: "IPAddress \<Rightarrow> nat list" where
  "octets_of ip = map (\<lambda>i. unat (to_bytes 8 (ip_address ip) ! i)) [3, 2, 1, 0]"

lemma show_IPAddress_eq:
  "show_IPAddress ip =
     join_with (CHR ''.'') (map show_nat (octets_of ip))
     @ (if ip_port ip \<noteq> 0 then '':'' @ show_nat (unat (ip_port ip)) else [])"
  by (simp add: show_IPAddress_def octets_of_def Let_def)

lemma ip_part_roundtrip:
  assumes "ip_wf ip"
  shows "IPAddress_of_part
      (join_with (CHR ''.'') (map show_nat (octets_of ip)))
      (ip_port ip) = Inr ip"
proof -
  let ?ns = "octets_of ip"
  have "unat (b :: u8) < 256" for b using unsigned_less [of b] by simp
  then have small: "list_all (\<lambda>n. n < 256) ?ns" by (simp add: octets_of_def list_all_iff)
  have "ip_address ip \<le> 0xFFFFFFFF" using assms by (simp add: ip_wf_def)
  from bytes_join [OF this] show ?thesis
    using ip_part_of_octets [OF _ small, of "ip_port ip"] assms
    by (simp add: construct_ip_iff octets_of_def)
qed

lemma colon_free_join:
  "CHR '':'' \<notin> set (join_with (CHR ''.'') (map show_nat ns))"
proof -
  have "CHR '':'' \<notin> set (show_nat n)" for n
    using show_nat_digits [of n] by (auto dest: digit_not_special(4))
  then show ?thesis
    by (induction ns rule: induct_list012) auto
qed

lemma split_one:
  assumes "split_spec split_colon" "CHR '':'' \<notin> set u"
  shows "split_colon u = [u]"
  using assms join_with_inject [of "CHR '':''" "split_colon u" "[u]"] by (auto simp: split_spec_def)

lemma split_two:
  assumes "split_spec split_colon" "CHR '':'' \<notin> set u" "CHR '':'' \<notin> set v"
  shows "split_colon (u @ CHR '':'' # v) = [u, v]"
  using assms join_with_inject [of "CHR '':''" "split_colon (u @ CHR '':'' # v)" "[u, v]"]
  by (auto simp: split_spec_def)

lemma extract_port:
  "fst (extract_int (conv_unsigned 32) (istringstream (show_nat (unat (p :: u32))))) = Some (uint p)"
proof -
  have "unat p < 2 ^ 32" using unsigned_less [of p] by simp
  then show ?thesis
    using extract_int_digits [of "show_nat (unat p)" "[]" "conv_unsigned 32"]
    by (simp add: istringstream_def conv_unsigned_small)
qed

text \<open>A reference splitter, which shows that the specification can be met.\<close>

fun split_at_colons :: "string \<Rightarrow> string list" where
  "split_at_colons [] = [[]]"
| "split_at_colons (c # cs) =
     (if c = CHR '':'' then [] # split_at_colons cs
      else (case split_at_colons cs of [] \<Rightarrow> [[c]] | p # ps \<Rightarrow> (c # p) # ps))"

lemma split_at_colons_spec: "split_spec split_at_colons"
proof -
  have "split_at_colons s \<noteq> [] \<and> join_with (CHR '':'') (split_at_colons s) = s
      \<and> list_all (\<lambda>p. CHR '':'' \<notin> set p) (split_at_colons s)" for s
  proof (induction s)
    case (Cons c cs)
    obtain p ps where "split_at_colons cs = p # ps" using Cons.IH by (cases "split_at_colons cs") auto
    with Cons.IH show ?case by (cases ps) auto
  qed simp
  then show ?thesis by (simp add: split_spec_def)
qed

section \<open>Properties\<close>

text \<open>
  C33: Printing an IP address, with its port when there is one, and parsing the text gives the
  address back, for any splitter that behaves as documented.
\<close>

theorem ip_string_roundtrip:
  assumes "split_spec split_colon" "ip_wf ip"
  shows "IPAddress_of_string split_colon (show_IPAddress ip) = Inr ip"
proof (cases "ip_port ip = 0")
  case True
  then show ?thesis
    using split_one [OF assms(1) colon_free_join] ip_part_roundtrip [OF assms(2)]
    by (simp add: show_IPAddress_eq IPAddress_of_string_def)
next
  case False
  have "CHR '':'' \<notin> set (show_nat (unat (ip_port ip)))"
    using colon_free_join [of "[unat (ip_port ip)]"] by simp
  from split_two [OF assms(1) colon_free_join this] show ?thesis
    using False ip_part_roundtrip [OF assms(2)]
    by (simp add: show_IPAddress_eq IPAddress_of_string_def extract_port)
qed

theorem ip_string_roundtrip_witness:
  "ip_wf (MkIPAddress 0x7F000001 14555) \<and>
   IPAddress_of_string split_at_colons (show_IPAddress (MkIPAddress 0x7F000001 14555)) =
     Inr (MkIPAddress 0x7F000001 14555)"
proof -
  have wf: "ip_wf (MkIPAddress 0x7F000001 14555)" by (simp add: ip_wf_def)
  show ?thesis using wf ip_string_roundtrip [OF split_at_colons_spec wf] by blast
qed

text \<open>
  The port behind the colon is not validated: a text that is no number gives port zero, a
  negative number wraps around modulo 2 to the 32, and only values above 65535 are refused.
\<close>

theorem ip_port_lenient:
  assumes "split_spec split_colon"
  shows "IPAddress_of_string split_colon ''127.0.0.1:http'' = Inr (MkIPAddress 0x7F000001 0)
    \<and> IPAddress_of_string split_colon ''127.0.0.1:-4294967295'' = Inr (MkIPAddress 0x7F000001 1)
    \<and> IPAddress_of_string split_colon ''127.0.0.1:80x'' = Inr (MkIPAddress 0x7F000001 80)
    \<and> \<not> is_ok (IPAddress_of_string split_colon ''127.0.0.1:65536'')"
proof -
  have two: "split_colon (''127.0.0.1'' @ CHR '':'' # v) = [''127.0.0.1'', v]"
    if "CHR '':'' \<notin> set v" for v
    by (rule split_two [OF assms]) (use that in simp_all)
  have part: "IPAddress_of_part ''127.0.0.1'' p = IPAddress_construct 0x7F000001 p" for p
    by (simp add: IPAddress_of_part_def stream_eval)
  show ?thesis
    using two [of "''http''"] two [of "''-4294967295''"] two [of "''80x''"] two [of "''65536''"]
    by (simp add: IPAddress_of_string_def part stream_eval IPAddress_construct_def)
qed

theorem ip_port_lenient_witness:
  "IPAddress_of_string split_at_colons ''127.0.0.1:http'' = Inr (MkIPAddress 0x7F000001 0)"
  using ip_port_lenient [OF split_at_colons_spec] by blast

end
