(* ===== verification/MavPacket.thy ===== *)
theory MavPacket
  imports MtPrelude MavAddress
begin

text \<open>
  MAVLink packets: the helpers of \<open>mavlink.cpp\<close>, the abstract class \<open>Packet\<close> and its two
  implementations \<open>packet_v1::Packet\<close> and \<open>packet_v2::Packet\<close>.  The MAVLink C library is generated
  code outside the repository; everything the code takes from it is a field of the record
  \<open>mavlink_lib\<close>, which the definitions take as a parameter.  What the two wire formats have in
  common, and what the byte parser relies on, is the locale \<open>packet_format\<close>.
\<close>

section \<open>The MAVLink library\<close>

text \<open>\<open>mavlink_message_info_t\<close> and \<open>mavlink_msg_entry_t\<close>, as far as the code reads them.\<close>

record mavlink_info =
  info_msgid :: u32
  info_name :: string

record mavlink_entry =
  entry_flags :: u8
  target_system_ofs :: u8
  target_component_ofs :: u8

record mavlink_lib =
  message_info_by_id :: "u32 \<Rightarrow> mavlink_info option"
  message_info_by_name :: "string \<Rightarrow> mavlink_info option"
  msg_entry :: "u32 \<Rightarrow> mavlink_entry option"
  flag_target_system :: u8
  flag_target_component :: u8
  iflag_signed :: u8

text \<open>
  What the code relies on: a message that has an info record has an entry in the message table
  (both tables are generated from the same dialect), and the info record carries its own ID.
\<close>

definition mavlink_tables_agree :: "mavlink_lib \<Rightarrow> bool" where
  "mavlink_tables_agree ml \<longleftrightarrow>
     (\<forall>i info. message_info_by_id ml i = Some info \<longrightarrow> info_msgid info = i \<and> msg_entry ml i \<noteq> None)"

text \<open>\<open>mavlink::name\<close> and \<open>mavlink::id\<close>\<close>

definition mavlink_name :: "mavlink_lib \<Rightarrow> u64 \<Rightarrow> cpp_error + string" where
  "mavlink_name ml i =
     (case message_info_by_id ml (ucast i) of
        Some info \<Rightarrow> Inr (info_name info)
      | None \<Rightarrow> Inl (Invalid_argument (''Invalid packet ID (#'' @ show_nat (unat i) @ '').'')))"

definition mavlink_id :: "mavlink_lib \<Rightarrow> string \<Rightarrow> cpp_error + u64" where
  "mavlink_id ml name =
     (case message_info_by_name ml name of
        Some info \<Rightarrow> Inr (ucast (info_msgid info))
      | None \<Rightarrow> Inl (Invalid_argument (''Invalid packet name (\"'' @ name @ ''\").'')))"

section \<open>The abstract class\<close>

datatype Version = V1 | V2

text \<open>
  \<open>connection_\<close> is a weak pointer to the connection the packet came in on; a connection is named
  by a number.
\<close>

record Packet =
  pkt_version :: Version
  pkt_data :: "u8 list"
  pkt_connection :: "nat option"

definition set_connection :: "nat \<Rightarrow> Packet \<Rightarrow> Packet" where
  "set_connection c p = p\<lparr>pkt_connection := Some c\<rparr>"

text \<open>\<open>connection()\<close> locks the weak pointer: it gives nothing once the connection is gone.\<close>

definition get_connection :: "(nat \<Rightarrow> bool) \<Rightarrow> Packet \<Rightarrow> nat option" where
  "get_connection alive p =
     (case pkt_connection p of Some c \<Rightarrow> if alive c then Some c else None | None \<Rightarrow> None)"

text \<open>\<open>operator==\<close> compares the raw data only.\<close>

definition packet_eq :: "Packet \<Rightarrow> Packet \<Rightarrow> bool" where
  "packet_eq lhs rhs \<longleftrightarrow> pkt_data lhs = pkt_data rhs"

text \<open>A read \<open>data()[offset]\<close>; past the end of the vector it has no meaning.\<close>

definition read_byte :: "u8 list \<Rightarrow> nat \<Rightarrow> cpp_error + u8" where
  "read_byte d ofs =
     (if ofs < length d then Inr (d ! ofs)
      else Inl (Undefined_behaviour ''vector index out of range''))"

abbreviation byte_hex :: "u8 \<Rightarrow> string" where
  "byte_hex b \<equiv> ''0x'' @ show_hex True (unat b)"

section \<open>Version 1\<close>

definition v1_START_BYTE :: u8 where "v1_START_BYTE = 0xFE"
definition v1_HEADER_LENGTH :: nat where "v1_HEADER_LENGTH = 6"
definition v1_CHECKSUM_LENGTH :: nat where "v1_CHECKSUM_LENGTH = 2"

record v1_header =
  v1_magic :: u8
  v1_len :: u8
  v1_seq :: u8
  v1_sysid :: u8
  v1_compid :: u8
  v1_msgid :: u8

definition v1_header_complete :: "u8 list \<Rightarrow> bool" where
  "v1_header_complete d \<longleftrightarrow> v1_HEADER_LENGTH \<le> length d \<and> v1_START_BYTE = hd d"

text \<open>\<open>header\<close> casts the data to the packed header structure, or gives the null pointer.\<close>

definition v1_header_of :: "u8 list \<Rightarrow> v1_header option" where
  "v1_header_of d =
     (if v1_header_complete d
      then Some \<lparr>v1_magic = d ! 0, v1_len = d ! 1, v1_seq = d ! 2, v1_sysid = d ! 3,
                 v1_compid = d ! 4, v1_msgid = d ! 5\<rparr>
      else None)"

definition v1_expected_length :: "v1_header \<Rightarrow> nat" where
  "v1_expected_length h = v1_HEADER_LENGTH + unat (v1_len h) + v1_CHECKSUM_LENGTH"

definition v1_packet_complete :: "u8 list \<Rightarrow> bool" where
  "v1_packet_complete d =
     (case v1_header_of d of Some h \<Rightarrow> length d = v1_expected_length h | None \<Rightarrow> False)"

text \<open>The constructor \<open>packet_v1::Packet(std::vector<uint8_t>)\<close>\<close>

definition v1_Packet :: "mavlink_lib \<Rightarrow> u8 list \<Rightarrow> cpp_error + Packet" where
  "v1_Packet ml d =
     (if d = [] then Inl (Length_error ''Packet is empty.'')
      else
        (case v1_header_of d of
           None \<Rightarrow>
             if v1_START_BYTE \<noteq> hd d
             then Inl (Invalid_argument (''Invalid packet starting byte ('' @ byte_hex (hd d) @
                         ''), v1.0 packets should start with '' @ byte_hex v1_START_BYTE @ ''.''))
             else Inl (Length_error (''Packet ('' @ show_nat (length d) @
                         '' bytes) is shorter than a v1.0 header ('' @ show_nat v1_HEADER_LENGTH @
                         '' bytes).''))
         | Some h \<Rightarrow>
             if message_info_by_id ml (ucast (v1_msgid h)) = None
             then Inl (InvalidPacketIDError (ucast (v1_msgid h)))
             else if \<not> v1_packet_complete d
             then Inl (Length_error (''Packet is '' @ show_nat (length d) @ '' bytes, should be '' @
                         show_nat (v1_expected_length h) @ '' bytes.''))
             else Inr \<lparr>pkt_version = V1, pkt_data = d, pkt_connection = None\<rparr>))"

text \<open>\<open>id\<close>, \<open>name\<close>, \<open>source\<close> and \<open>dest\<close>; the constructor has made sure that there is a header.\<close>

definition v1_id :: "Packet \<Rightarrow> u64" where
  "v1_id p = ucast (v1_msgid (the (v1_header_of (pkt_data p))))"

definition v1_name :: "mavlink_lib \<Rightarrow> Packet \<Rightarrow> cpp_error + string" where
  "v1_name ml p =
     (case message_info_by_id ml (ucast (v1_msgid (the (v1_header_of (pkt_data p))))) of
        Some info \<Rightarrow> Inr (info_name info)
      | None \<Rightarrow> Inl (InvalidPacketIDError (v1_id p)))"

definition v1_source :: "Packet \<Rightarrow> cpp_error + MAVAddress" where
  "v1_source p =
     (let h = the (v1_header_of (pkt_data p))
      in MAVAddress_construct (ucast (v1_sysid h)) (ucast (v1_compid h)))"

text \<open>
  The local variables of \<open>dest\<close>: \<open>dest_system\<close> is -1 (\<open>None\<close>) or a byte, \<open>dest_component\<close> is 0 or
  a byte.  The two reads are unchecked.
\<close>

definition v1_dest :: "mavlink_lib \<Rightarrow> Packet \<Rightarrow> cpp_error + MAVAddress option" where
  "v1_dest ml p =
     (case msg_entry ml (ucast (v1_msgid (the (v1_header_of (pkt_data p))))) of
        None \<Rightarrow> Inl (InvalidPacketIDError (v1_id p))
      | Some e \<Rightarrow>
          (case (if entry_flags e AND flag_target_system ml \<noteq> 0
                 then map_sum id Some
                   (read_byte (pkt_data p) (unat (target_system_ofs e) + v1_HEADER_LENGTH))
                 else Inr None) of
             Inl err \<Rightarrow> Inl err
           | Inr dest_system \<Rightarrow>
               (case (if entry_flags e AND flag_target_component ml \<noteq> 0
                      then read_byte (pkt_data p) (unat (target_component_ofs e) + v1_HEADER_LENGTH)
                      else Inr 0) of
                  Inl err \<Rightarrow> Inl err
                | Inr dest_component \<Rightarrow>
                    (case dest_system of
                       Some s \<Rightarrow> map_sum id Some (MAVAddress_construct (ucast s) (ucast dest_component))
                     | None \<Rightarrow> Inr None))))"

section \<open>Version 2\<close>

definition v2_START_BYTE :: u8 where "v2_START_BYTE = 0xFD"
definition v2_HEADER_LENGTH :: nat where "v2_HEADER_LENGTH = 10"
definition v2_CHECKSUM_LENGTH :: nat where "v2_CHECKSUM_LENGTH = 2"
definition v2_SIGNATURE_LENGTH :: nat where "v2_SIGNATURE_LENGTH = 13"

text \<open>\<open>msgid\<close> is a bit field of 24 bits; the machine is little endian.\<close>

record v2_header =
  v2_magic :: u8
  v2_len :: u8
  v2_incompat_flags :: u8
  v2_compat_flags :: u8
  v2_seq :: u8
  v2_sysid :: u8
  v2_compid :: u8
  v2_msgid :: u32

definition v2_header_complete :: "u8 list \<Rightarrow> bool" where
  "v2_header_complete d \<longleftrightarrow> v2_HEADER_LENGTH \<le> length d \<and> v2_START_BYTE = hd d"

definition v2_header_of :: "u8 list \<Rightarrow> v2_header option" where
  "v2_header_of d =
     (if v2_header_complete d
      then Some \<lparr>v2_magic = d ! 0, v2_len = d ! 1, v2_incompat_flags = d ! 2,
                 v2_compat_flags = d ! 3, v2_seq = d ! 4, v2_sysid = d ! 5, v2_compid = d ! 6,
                 v2_msgid = ucast (d ! 7) OR push_bit 8 (ucast (d ! 8)) OR push_bit 16 (ucast (d ! 9))\<rparr>
      else None)"

definition v2_is_signed :: "mavlink_lib \<Rightarrow> u8 list \<Rightarrow> cpp_error + bool" where
  "v2_is_signed ml d =
     (case v2_header_of d of
        None \<Rightarrow> Inl (Invalid_argument ''Header is incomplete or invalid.'')
      | Some h \<Rightarrow> Inr (v2_incompat_flags h AND iflag_signed ml \<noteq> 0))"

definition v2_expected_length :: "mavlink_lib \<Rightarrow> v2_header \<Rightarrow> nat" where
  "v2_expected_length ml h =
     v2_HEADER_LENGTH + unat (v2_len h) + v2_CHECKSUM_LENGTH
     + (if v2_incompat_flags h AND iflag_signed ml \<noteq> 0 then v2_SIGNATURE_LENGTH else 0)"

definition v2_packet_complete :: "mavlink_lib \<Rightarrow> u8 list \<Rightarrow> bool" where
  "v2_packet_complete ml d =
     (case v2_header_of d of Some h \<Rightarrow> length d = v2_expected_length ml h | None \<Rightarrow> False)"

definition v2_Packet :: "mavlink_lib \<Rightarrow> u8 list \<Rightarrow> cpp_error + Packet" where
  "v2_Packet ml d =
     (if d = [] then Inl (Length_error ''Packet is empty.'')
      else
        (case v2_header_of d of
           None \<Rightarrow>
             if v2_START_BYTE \<noteq> hd d
             then Inl (Invalid_argument (''Invalid packet starting byte ('' @ byte_hex (hd d) @
                         ''), v2.0 packets should start with '' @ byte_hex v2_START_BYTE @ ''.''))
             else Inl (Length_error (''Packet ('' @ show_nat (length d) @
                         '' bytes) is shorter than a v2.0 header ('' @ show_nat v2_HEADER_LENGTH @
                         '' bytes).''))
         | Some h \<Rightarrow>
             if message_info_by_id ml (v2_msgid h) = None
             then Inl (InvalidPacketIDError (ucast (v2_msgid h)))
             else if \<not> v2_packet_complete ml d
             then Inl (Length_error
                    ((if v2_incompat_flags h AND iflag_signed ml \<noteq> 0 then ''Signed packet'' else ''Packet'')
                     @ '' is '' @ show_nat (length d) @ '' bytes, should be '' @
                     show_nat (v2_expected_length ml h) @ '' bytes.''))
             else Inr \<lparr>pkt_version = V2, pkt_data = d, pkt_connection = None\<rparr>))"

definition v2_id :: "Packet \<Rightarrow> u64" where
  "v2_id p = ucast (v2_msgid (the (v2_header_of (pkt_data p))))"

definition v2_name :: "mavlink_lib \<Rightarrow> Packet \<Rightarrow> cpp_error + string" where
  "v2_name ml p =
     (case message_info_by_id ml (v2_msgid (the (v2_header_of (pkt_data p)))) of
        Some info \<Rightarrow> Inr (info_name info)
      | None \<Rightarrow> Inl (InvalidPacketIDError (v2_id p)))"

definition v2_source :: "Packet \<Rightarrow> cpp_error + MAVAddress" where
  "v2_source p =
     (let h = the (v2_header_of (pkt_data p))
      in MAVAddress_construct (ucast (v2_sysid h)) (ucast (v2_compid h)))"

text \<open>Version 2 strips trailing zeros of the payload, so an offset past its length reads as zero.\<close>

definition v2_payload_byte :: "Packet \<Rightarrow> v2_header \<Rightarrow> u8 \<Rightarrow> cpp_error + u8" where
  "v2_payload_byte p h ofs =
     (if ofs < v2_len h then read_byte (pkt_data p) (unat ofs + v2_HEADER_LENGTH) else Inr 0)"

definition v2_dest :: "mavlink_lib \<Rightarrow> Packet \<Rightarrow> cpp_error + MAVAddress option" where
  "v2_dest ml p =
     (let h = the (v2_header_of (pkt_data p)) in
      case msg_entry ml (v2_msgid h) of
        None \<Rightarrow> Inl (InvalidPacketIDError (v2_id p))
      | Some e \<Rightarrow>
          (case (if entry_flags e AND flag_target_system ml \<noteq> 0
                 then map_sum id Some (v2_payload_byte p h (target_system_ofs e))
                 else Inr None) of
             Inl err \<Rightarrow> Inl err
           | Inr dest_system \<Rightarrow>
               (case (if entry_flags e AND flag_target_component ml \<noteq> 0
                      then v2_payload_byte p h (target_component_ofs e)
                      else Inr 0) of
                  Inl err \<Rightarrow> Inl err
                | Inr dest_component \<Rightarrow>
                    (case dest_system of
                       Some s \<Rightarrow> map_sum id Some (MAVAddress_construct (ucast s) (ucast dest_component))
                     | None \<Rightarrow> Inr None))))"

section \<open>Virtual dispatch\<close>

definition packet_id :: "Packet \<Rightarrow> u64" where
  "packet_id p = (case pkt_version p of V1 \<Rightarrow> v1_id p | V2 \<Rightarrow> v2_id p)"

definition packet_name :: "mavlink_lib \<Rightarrow> Packet \<Rightarrow> cpp_error + string" where
  "packet_name ml p = (case pkt_version p of V1 \<Rightarrow> v1_name ml p | V2 \<Rightarrow> v2_name ml p)"

definition packet_source :: "Packet \<Rightarrow> cpp_error + MAVAddress" where
  "packet_source p = (case pkt_version p of V1 \<Rightarrow> v1_source p | V2 \<Rightarrow> v2_source p)"

definition packet_dest :: "mavlink_lib \<Rightarrow> Packet \<Rightarrow> cpp_error + MAVAddress option" where
  "packet_dest ml p = (case pkt_version p of V1 \<Rightarrow> v1_dest ml p | V2 \<Rightarrow> v2_dest ml p)"

text \<open>\<open>version()\<close>: the major version in the upper byte, the minor version in the lower one.\<close>

definition version_number :: "Version \<Rightarrow> nat" where
  "version_number v = (case v of V1 \<Rightarrow> 0x0100 | V2 \<Rightarrow> 0x0200)"

text \<open>\<open>operator<<\<close>\<close>

definition show_Packet :: "mavlink_lib \<Rightarrow> Packet \<Rightarrow> cpp_error + string" where
  "show_Packet ml p =
     (case packet_name ml p of
        Inl e \<Rightarrow> Inl e
      | Inr name \<Rightarrow>
          (case packet_source p of
             Inl e \<Rightarrow> Inl e
           | Inr src \<Rightarrow>
               (case packet_dest ml p of
                  Inl e \<Rightarrow> Inl e
                | Inr dst \<Rightarrow>
                    Inr (name @ '' (#'' @ show_nat (unat (packet_id p)) @ '')'' @
                         '' from '' @ show_MAVAddress src @
                         (case dst of None \<Rightarrow> [] | Some d \<Rightarrow> '' to '' @ show_MAVAddress d) @
                         '' (v'' @ show_nat (version_number (pkt_version p) div 256 mod 256) @ ''.'' @
                         show_nat (version_number (pkt_version p) mod 256) @ '')''))))"

text \<open>What holds of every packet a constructor has made.\<close>

definition packet_wf :: "mavlink_lib \<Rightarrow> Packet \<Rightarrow> bool" where
  "packet_wf ml p =
     (case pkt_version p of
        V1 \<Rightarrow> v1_packet_complete (pkt_data p) \<and>
              message_info_by_id ml (ucast (v1_msgid (the (v1_header_of (pkt_data p))))) \<noteq> None
      | V2 \<Rightarrow> v2_packet_complete ml (pkt_data p) \<and>
              message_info_by_id ml (v2_msgid (the (v2_header_of (pkt_data p)))) \<noteq> None)"


section \<open>What the two formats share\<close>

text \<open>
  The contract of a packet format: a header of fixed length announces the length of the frame, and
  the constructor accepts exactly the complete frames whose message ID is known.
\<close>

locale packet_format =
  fixes start :: u8
    and header_length :: nat
    and expected :: "u8 list \<Rightarrow> nat"
    and known :: "u8 list \<Rightarrow> bool"
    and ident :: "u8 list \<Rightarrow> u64"
    and complete :: "u8 list \<Rightarrow> bool"
    and build :: "u8 list \<Rightarrow> cpp_error + Packet"
    and version :: Version
  assumes header_length_bounds: "2 \<le> header_length" "header_length \<le> 10"
    and expected_stable: "header_length \<le> length d \<Longrightarrow> expected (d @ e) = expected d"
    and expected_bounds: "header_length + 2 \<le> expected d" "expected d \<le> header_length + 270"
    and known_stable: "header_length \<le> length d \<Longrightarrow> known (d @ e) = known d"
    and complete_iff: "complete d \<longleftrightarrow> header_length \<le> length d \<and> hd d = start \<and> length d = expected d"
    and build_complete: "complete d \<Longrightarrow>
      build d = (if known d then Inr \<lparr>pkt_version = version, pkt_data = d, pkt_connection = None\<rparr>
                 else Inl (InvalidPacketIDError (ident d)))"
    and build_incomplete: "\<not> complete d \<Longrightarrow> \<not> is_ok (build d)"
begin

lemma build_Inr_iff:
  "build d = Inr p \<longleftrightarrow>
     complete d \<and> known d \<and> p = \<lparr>pkt_version = version, pkt_data = d, pkt_connection = None\<rparr>"
  using build_complete [of d] build_incomplete [of d] by (cases "complete d") auto

lemma complete_length: "complete d \<Longrightarrow> length d \<le> 280"
  using expected_bounds(2) [of d] header_length_bounds by (auto simp: complete_iff)

lemma complete_nonempty: "complete d \<Longrightarrow> d \<noteq> []"
  using header_length_bounds by (auto simp: complete_iff)

text \<open>No complete frame is a proper prefix of another: a stream of frames has one reading.\<close>

lemma prefix_free: "complete d \<Longrightarrow> complete (d @ e) \<Longrightarrow> e = []"
  using expected_stable [of d e] by (auto simp: complete_iff)

lemma frames_unique:
  assumes "list_all complete ds" "list_all complete es" "concat ds = concat es"
  shows "ds = es"
  using assms
proof (induction ds arbitrary: es)
  case Nil
  then show ?case by (cases es) (auto dest: complete_nonempty)
next
  case (Cons d ds)
  then obtain e es' where es: "es = e # es'" by (cases es) (auto dest: complete_nonempty)
  have "d @ concat ds = e @ concat es'" using Cons.prems es by simp
  then obtain u where "d = e @ u \<and> u @ concat ds = concat es' \<or> d @ u = e \<and> concat ds = u @ concat es'"
    by (auto simp: append_eq_append_conv2)
  moreover have "complete d" "complete e" using Cons.prems es by simp_all
  ultimately have "d = e \<and> concat ds = concat es'" by (auto dest: prefix_free)
  then show ?case using Cons.IH [of es'] Cons.prems es by simp
qed

end

lemmas v1_defs = v1_header_of_def v1_header_complete_def v1_expected_length_def
  v1_HEADER_LENGTH_def v1_CHECKSUM_LENGTH_def

lemmas v2_defs = v2_header_of_def v2_header_complete_def v2_expected_length_def
  v2_HEADER_LENGTH_def v2_CHECKSUM_LENGTH_def v2_SIGNATURE_LENGTH_def

text \<open>The frame length, message ID and completeness of the two formats, in terms of the bytes.\<close>

definition v1_frame_length :: "u8 list \<Rightarrow> nat" where
  "v1_frame_length d = 8 + unat (d ! 1)"

definition v1_frame_id :: "u8 list \<Rightarrow> u32" where
  "v1_frame_id d = ucast (d ! 5)"

definition v2_frame_length :: "mavlink_lib \<Rightarrow> u8 list \<Rightarrow> nat" where
  "v2_frame_length ml d = 12 + unat (d ! 1) + (if d ! 2 AND iflag_signed ml \<noteq> 0 then 13 else 0)"

definition v2_frame_id :: "u8 list \<Rightarrow> u32" where
  "v2_frame_id d = ucast (d ! 7) OR push_bit 8 (ucast (d ! 8)) OR push_bit 16 (ucast (d ! 9))"

lemma v1_complete_iff:
  "v1_packet_complete d \<longleftrightarrow> 6 \<le> length d \<and> hd d = v1_START_BYTE \<and> length d = v1_frame_length d"
  by (auto simp: v1_packet_complete_def v1_defs v1_frame_length_def)

lemma v2_complete_iff:
  "v2_packet_complete ml d \<longleftrightarrow>
     10 \<le> length d \<and> hd d = v2_START_BYTE \<and> length d = v2_frame_length ml d"
  by (auto simp: v2_packet_complete_def v2_defs v2_frame_length_def)

lemma byte_bound: "unat (b :: u8) \<le> 255"
proof -
  have "unat b < 2 ^ LENGTH(8)" by (rule unsigned_less)
  then show ?thesis by simp
qed

interpretation v1f: packet_format v1_START_BYTE 6 v1_frame_length
  "\<lambda>d. message_info_by_id ml (v1_frame_id d) \<noteq> None" "\<lambda>d. ucast (d ! 5)"
  v1_packet_complete "v1_Packet ml" V1 for ml
proof unfold_locales
  fix d :: "u8 list"
  show "v1_packet_complete d \<longleftrightarrow> 6 \<le> length d \<and> hd d = v1_START_BYTE \<and> length d = v1_frame_length d"
    by (rule v1_complete_iff)
  show "\<not> is_ok (v1_Packet ml d)" if "\<not> v1_packet_complete d"
    using that by (auto simp: v1_Packet_def split: option.splits)
  show "v1_Packet ml d = (if message_info_by_id ml (v1_frame_id d) \<noteq> None
      then Inr \<lparr>pkt_version = V1, pkt_data = d, pkt_connection = None\<rparr>
      else Inl (InvalidPacketIDError (ucast (d ! 5))))" if "v1_packet_complete d"
    using that by (auto simp: v1_Packet_def v1_complete_iff v1_defs v1_frame_id_def
        v1_frame_length_def v1_packet_complete_def)
  show "v1_frame_length d \<le> 6 + 270"
    using byte_bound [of "d ! 1"] by (simp add: v1_frame_length_def)
qed (auto simp: v1_frame_length_def v1_frame_id_def nth_append)

interpretation v2f: packet_format v2_START_BYTE 10 "v2_frame_length ml"
  "\<lambda>d. message_info_by_id ml (v2_frame_id d) \<noteq> None" "\<lambda>d. ucast (v2_frame_id d)"
  "v2_packet_complete ml" "v2_Packet ml" V2 for ml
proof unfold_locales
  fix d e :: "u8 list"
  show "v2_packet_complete ml d \<longleftrightarrow>
      10 \<le> length d \<and> hd d = v2_START_BYTE \<and> length d = v2_frame_length ml d"
    by (rule v2_complete_iff)
  show "v2_frame_length ml d \<le> 10 + 270"
    using byte_bound [of "d ! 1"] by (simp add: v2_frame_length_def)
  show "v2_frame_length ml (d @ e) = v2_frame_length ml d" if "10 \<le> length d"
    using that by (simp add: v2_frame_length_def nth_append)
  show "\<not> is_ok (v2_Packet ml d)" if "\<not> v2_packet_complete ml d"
    using that by (auto simp: v2_Packet_def split: option.splits)
  show "v2_Packet ml d = (if message_info_by_id ml (v2_frame_id d) \<noteq> None
      then Inr \<lparr>pkt_version = V2, pkt_data = d, pkt_connection = None\<rparr>
      else Inl (InvalidPacketIDError (ucast (v2_frame_id d))))" if "v2_packet_complete ml d"
    using that by (auto simp: v2_Packet_def v2_complete_iff v2_defs v2_frame_id_def
        v2_frame_length_def v2_packet_complete_def)
qed (auto simp: v2_frame_length_def v2_frame_id_def nth_append)


section \<open>Lemmas on constructed packets\<close>

text \<open>The address made of two bytes of a packet: no exception can come from it.\<close>

definition mav_of_bytes :: "u8 \<Rightarrow> u8 \<Rightarrow> MAVAddress" where
  "mav_of_bytes s c = MkMAVAddress (of_nat (256 * unat s + unat c))"

lemma unat_ucast_byte [simp]: "unat (ucast (b :: u8) :: u32) = unat b"
  using byte_bound [of b] by (simp add: unsigned_ucast_eq take_bit_nat_eq_self)

lemma ucast_byte_le: "(ucast (b :: u8) :: u32) \<le> 255"
  using byte_bound [of b] by (simp add: word_le_nat_alt)

lemma construct_bytes [simp]:
  "MAVAddress_construct (ucast (s :: u8)) (ucast (c :: u8)) = Inr (mav_of_bytes s c)"
proof -
  obtain a where a: "MAVAddress_construct (ucast s) (ucast c) = Inr a"
    "system a = ucast s" "component a = ucast c" "mav_wf a"
    using construct_ok [OF ucast_byte_le ucast_byte_le] .
  have "unat (address a) = 256 * unat s + unat c" using address_value [OF a(4)] a(2,3) by simp
  then have "address a = of_nat (256 * unat s + unat c)" by (metis of_nat_unat ucast_id)
  then show ?thesis using a(1) by (cases a) (simp add: mav_of_bytes_def)
qed

lemma construct_byte_zero [simp]: "MAVAddress_construct (ucast (s :: u8)) 0 = Inr (mav_of_bytes s 0)"
  using construct_bytes [of s 0] by simp

lemma mav_of_bytes_fields:
  "mav_wf (mav_of_bytes s c)" "system (mav_of_bytes s c) = ucast s"
  "component (mav_of_bytes s c) = ucast c"
  using construct_bytes [of s c] by (simp_all only: construct_Inr_iff)

lemma v2_frame_id_le24:
  "v2_frame_id d = of_nat (unat (d ! 7) + 256 * unat (d ! 8) + 65536 * unat (d ! 9))"
proof -
  have d: "bit b n \<Longrightarrow> n < 8" for b :: u8 and n
    using bit_imp_le_length [of b n] by simp
  let ?a = "ucast (d ! 7) :: u32" and ?b = "push_bit 8 (ucast (d ! 8)) :: u32"
    and ?c = "push_bit 16 (ucast (d ! 9)) :: u32"
  have ab: "?a + ?b = ?a OR ?b"
    by (rule disjunctive_add) (auto simp: bit_simps dest: d)
  have "(?a OR ?b) + ?c = (?a OR ?b) OR ?c"
    by (rule disjunctive_add) (auto simp: bit_simps dest: d)
  then have "v2_frame_id d = ?a + ?b + ?c"
    unfolding v2_frame_id_def ab by (simp add: or.assoc)
  then show ?thesis
    by (simp add: push_bit_eq_mult)
qed

text \<open>The header fields of a constructed packet are the bytes at their offsets.\<close>

lemma v1_header_frame:
  "v1_packet_complete d \<Longrightarrow> v1_header_of d =
     Some \<lparr>v1_magic = d ! 0, v1_len = d ! 1, v1_seq = d ! 2, v1_sysid = d ! 3,
           v1_compid = d ! 4, v1_msgid = d ! 5\<rparr>"
  by (auto simp: v1_packet_complete_def v1_defs split: option.splits if_splits)

lemma v2_header_frame:
  "v2_packet_complete ml d \<Longrightarrow> v2_header_of d =
     Some \<lparr>v2_magic = d ! 0, v2_len = d ! 1, v2_incompat_flags = d ! 2, v2_compat_flags = d ! 3,
           v2_seq = d ! 4, v2_sysid = d ! 5, v2_compid = d ! 6, v2_msgid = v2_frame_id d\<rparr>"
  by (auto simp: v2_packet_complete_def v2_defs v2_frame_id_def split: option.splits if_splits)

lemma packet_wf_V1:
  "pkt_version p = V1 \<Longrightarrow> packet_wf ml p \<longleftrightarrow>
     v1_packet_complete (pkt_data p) \<and> message_info_by_id ml (v1_frame_id (pkt_data p)) \<noteq> None"
  by (auto simp: packet_wf_def v1_frame_id_def v1_header_frame)

lemma packet_wf_V2:
  "pkt_version p = V2 \<Longrightarrow> packet_wf ml p \<longleftrightarrow>
     v2_packet_complete ml (pkt_data p) \<and> message_info_by_id ml (v2_frame_id (pkt_data p)) \<noteq> None"
  by (auto simp: packet_wf_def v2_header_frame)

lemma v1_Packet_wf: "v1_Packet ml d = Inr p \<Longrightarrow> packet_wf ml p \<and> pkt_version p = V1"
  by (auto simp: v1f.build_Inr_iff packet_wf_V1)

lemma v2_Packet_wf: "v2_Packet ml d = Inr p \<Longrightarrow> packet_wf ml p \<and> pkt_version p = V2"
  by (auto simp: v2f.build_Inr_iff packet_wf_V2)

lemma packet_wf_connection [simp]: "packet_wf ml (set_connection c p) = packet_wf ml p"
  by (simp add: packet_wf_def set_connection_def split: Version.split)

text \<open>Queries that do not depend on the connection the packet is tagged with.\<close>

lemma set_connection_queries [simp]:
  "pkt_version (set_connection c p) = pkt_version p"
  "pkt_data (set_connection c p) = pkt_data p"
  "packet_id (set_connection c p) = packet_id p"
  "packet_name ml (set_connection c p) = packet_name ml p"
  "packet_source (set_connection c p) = packet_source p"
  "packet_dest ml (set_connection c p) = packet_dest ml p"
  by (simp_all add: set_connection_def packet_id_def packet_name_def packet_source_def
      packet_dest_def v1_id_def v2_id_def v1_name_def v2_name_def v1_source_def v2_source_def
      v1_dest_def v2_dest_def v2_payload_byte_def
      cong: if_cong option.case_cong sum.case_cong split: Version.split)

text \<open>Where the source address is in a frame.\<close>

definition source_offset :: "Version \<Rightarrow> nat" where
  "source_offset v = (case v of V1 \<Rightarrow> 3 | V2 \<Rightarrow> 5)"

lemma source_wf:
  assumes "packet_wf ml p"
  shows "packet_source p = Inr (mav_of_bytes (pkt_data p ! source_offset (pkt_version p))
                                            (pkt_data p ! Suc (source_offset (pkt_version p))))"
  using assms
  by (cases "pkt_version p")
    (auto simp: packet_source_def v1_source_def v2_source_def packet_wf_V1 packet_wf_V2
      v1_header_frame v2_header_frame source_offset_def Let_def)

lemma name_wf:
  assumes "packet_wf ml p"
  shows "is_ok (packet_name ml p)"
  using assms
  by (cases "pkt_version p")
    (auto simp: packet_name_def v1_name_def v2_name_def packet_wf_V1 packet_wf_V2
      v1_header_frame v2_header_frame v1_frame_id_def)


section \<open>Properties\<close>

text \<open>C29: the constructors accept exactly the well-framed packets of the dialect, described byte by
  byte: a version 1 packet starts with 0xFE, is 8 bytes longer than its length field, and carries a
  known message ID in byte 5; a version 2 packet starts with 0xFD, is 12 bytes longer than its
  length field (25 when the signature flag is set), and carries a known little-endian 24-bit message
  ID in bytes 7 to 9.  An accepted packet keeps its bytes and has no connection yet.\<close>

theorem constructors_accept_iff:
  "(v1_Packet ml d = Inr p \<longleftrightarrow>
      6 \<le> length d \<and> hd d = 0xFE \<and> length d = 8 + unat (d ! 1) \<and>
      message_info_by_id ml (ucast (d ! 5)) \<noteq> None \<and>
      p = \<lparr>pkt_version = V1, pkt_data = d, pkt_connection = None\<rparr>)
   \<and> (v2_Packet ml d = Inr p \<longleftrightarrow>
      10 \<le> length d \<and> hd d = 0xFD \<and>
      length d = (if d ! 2 AND iflag_signed ml \<noteq> 0 then 25 else 12) + unat (d ! 1) \<and>
      message_info_by_id ml
        (of_nat (unat (d ! 7) + 256 * unat (d ! 8) + 65536 * unat (d ! 9))) \<noteq> None \<and>
      p = \<lparr>pkt_version = V2, pkt_data = d, pkt_connection = None\<rparr>)"
proof (rule conjI)
  show "v1_Packet ml d = Inr p \<longleftrightarrow>
      6 \<le> length d \<and> hd d = 0xFE \<and> length d = 8 + unat (d ! 1) \<and>
      message_info_by_id ml (ucast (d ! 5)) \<noteq> None \<and>
      p = \<lparr>pkt_version = V1, pkt_data = d, pkt_connection = None\<rparr>"
    unfolding v1f.build_Inr_iff v1_complete_iff v1_frame_length_def v1_frame_id_def v1_START_BYTE_def
    by (simp only: conj_assoc)
next
  have "v2_frame_length ml d = (if d ! 2 AND iflag_signed ml \<noteq> 0 then 25 else 12) + unat (d ! 1)"
    by (simp add: v2_frame_length_def)
  then show "v2_Packet ml d = Inr p \<longleftrightarrow>
      10 \<le> length d \<and> hd d = 0xFD \<and>
      length d = (if d ! 2 AND iflag_signed ml \<noteq> 0 then 25 else 12) + unat (d ! 1) \<and>
      message_info_by_id ml
        (of_nat (unat (d ! 7) + 256 * unat (d ! 8) + 65536 * unat (d ! 9))) \<noteq> None \<and>
      p = \<lparr>pkt_version = V2, pkt_data = d, pkt_connection = None\<rparr>"
    unfolding v2f.build_Inr_iff v2_complete_iff v2_frame_id_le24 v2_START_BYTE_def
    by (simp only: conj_assoc)
qed

text \<open>
  The destination as the MAVLink specification has it: the target fields of the payload, where a
  byte that trailing-zero truncation has removed reads as zero.
\<close>

definition payload_byte :: "nat \<Rightarrow> u8 list \<Rightarrow> u8 \<Rightarrow> u8" where
  "payload_byte hdr d ofs =
     (let payload = take (unat (d ! 1)) (drop hdr d)
      in if unat ofs < length payload then payload ! unat ofs else 0)"

definition target_of :: "mavlink_lib \<Rightarrow> mavlink_entry \<Rightarrow> (u8 \<Rightarrow> u8) \<Rightarrow> MAVAddress option" where
  "target_of ml e byte =
     (if entry_flags e AND flag_target_system ml \<noteq> 0
      then Some (mav_of_bytes (byte (target_system_ofs e))
                   (if entry_flags e AND flag_target_component ml \<noteq> 0
                    then byte (target_component_ofs e) else 0))
      else None)"

lemma v2_payload_byte_spec:
  assumes "v2_packet_complete ml (pkt_data p)"
  shows "v2_payload_byte p (the (v2_header_of (pkt_data p))) ofs = Inr (payload_byte 10 (pkt_data p) ofs)"
  using assms
  by (auto simp: v2_payload_byte_def v2_header_frame v2_complete_iff v2_frame_length_def payload_byte_def
      read_byte_def word_less_nat_alt v2_HEADER_LENGTH_def Let_def add.commute)

lemma v2_dest_spec:
  assumes "packet_wf ml p" "pkt_version p = V2"
    "msg_entry ml (v2_frame_id (pkt_data p)) = Some e"
  shows "v2_dest ml p = Inr (target_of ml e (payload_byte 10 (pkt_data p)))"
proof -
  have c: "v2_packet_complete ml (pkt_data p)" using assms by (simp add: packet_wf_V2)
  obtain h where h: "v2_header_of (pkt_data p) = Some h" "v2_msgid h = v2_frame_id (pkt_data p)"
    using v2_header_frame [OF c] by simp
  have "v2_payload_byte p h ofs = Inr (payload_byte 10 (pkt_data p) ofs)" for ofs
    using v2_payload_byte_spec [OF c] h by simp
  then show ?thesis
    using assms(3) h construct_bytes [where c = 0] by (auto simp: v2_dest_def Let_def target_of_def)
qed

text \<open>C26: the destination of a version 2 packet is the target address of its payload, with bytes
  that trailing-zero truncation removed read as zero; no read is out of bounds and nothing is
  thrown, whatever the payload length.\<close>

theorem v2_dest_payload:
  assumes "v2_Packet ml d = Inr p" "mavlink_tables_agree ml"
  shows "\<exists>e. msg_entry ml (of_nat (unat (d ! 7) + 256 * unat (d ! 8) + 65536 * unat (d ! 9))) = Some e
           \<and> packet_dest ml p = Inr (target_of ml e (payload_byte 10 d))"
proof -
  from assms(1) have p: "packet_wf ml p" "pkt_version p = V2" "pkt_data p = d"
    using v2_Packet_wf by (auto simp: v2f.build_Inr_iff)
  then obtain e where "msg_entry ml (v2_frame_id d) = Some e"
    using assms(2) by (fastforce simp: packet_wf_V2 mavlink_tables_agree_def)
  then show ?thesis
    using v2_dest_spec [of ml p e] p by (auto simp: v2_frame_id_le24 packet_dest_def)
qed

lemma v1_read_in_payload:
  assumes "v1_packet_complete d" "unat ofs < unat (d ! 1)"
  shows "read_byte d (unat ofs + v1_HEADER_LENGTH) = Inr (payload_byte 6 d ofs)"
  using assms
  by (auto simp: v1_complete_iff v1_frame_length_def read_byte_def payload_byte_def
      v1_HEADER_LENGTH_def Let_def add.commute)

text \<open>C27: the destination of a version 1 packet is the target address of its payload, provided the
  payload is long enough to hold the target fields the message declares.\<close>

theorem v1_dest_payload:
  assumes "v1_Packet ml d = Inr p" "msg_entry ml (ucast (d ! 5)) = Some e"
    and "entry_flags e AND flag_target_system ml \<noteq> 0 \<Longrightarrow> target_system_ofs e < d ! 1"
    and "entry_flags e AND flag_target_component ml \<noteq> 0 \<Longrightarrow> target_component_ofs e < d ! 1"
  shows "packet_dest ml p = Inr (target_of ml e (payload_byte 6 d))"
proof -
  have p: "pkt_version p = V1" "pkt_data p = d" "v1_packet_complete d"
    using assms(1) by (auto simp: v1f.build_Inr_iff)
  then show ?thesis
    using assms(2-4)
    by (simp add: packet_dest_def v1_dest_def v1_header_frame target_of_def v1_read_in_payload
        word_less_nat_alt)
qed

text \<open>
  The unchecked reads of \<open>dest\<close> in version 1: a packet is too short when one of the target fields its
  message declares lies past the end of the whole packet.
\<close>

definition v1_too_short :: "mavlink_lib \<Rightarrow> Packet \<Rightarrow> bool" where
  "v1_too_short ml p \<longleftrightarrow>
     pkt_version p = V1 \<and>
     (case msg_entry ml (v1_frame_id (pkt_data p)) of
        None \<Rightarrow> False
      | Some e \<Rightarrow>
          (entry_flags e AND flag_target_system ml \<noteq> 0 \<and> length (pkt_data p) \<le> 6 + unat (target_system_ofs e)) \<or>
          (entry_flags e AND flag_target_component ml \<noteq> 0 \<and> length (pkt_data p) \<le> 6 + unat (target_component_ofs e)))"

lemma v1_too_short_connection [simp]: "v1_too_short ml (set_connection c p) = v1_too_short ml p"
  by (simp add: v1_too_short_def split: option.split)

lemma v1_dest_raw:
  assumes "packet_wf ml p" "pkt_version p = V1" "msg_entry ml (v1_frame_id (pkt_data p)) = Some e"
  shows "packet_dest ml p =
    (if v1_too_short ml p then Inl (Undefined_behaviour ''vector index out of range'')
     else Inr (target_of ml e (\<lambda>ofs. pkt_data p ! (6 + unat ofs))))"
proof -
  have "v1_packet_complete (pkt_data p)" using assms(1,2) by (simp add: packet_wf_V1)
  then show ?thesis
    using assms(2,3)
    by (auto simp: packet_dest_def v1_dest_def v1_header_frame v1_frame_id_def v1_too_short_def read_byte_def
        target_of_def v1_HEADER_LENGTH_def add.commute)
qed

text \<open>Being too short is the only way a query of an accepted packet fails.\<close>

lemma dest_or_short:
  assumes "packet_wf ml p" "mavlink_tables_agree ml"
  shows "is_ok (packet_dest ml p) \<longleftrightarrow> \<not> v1_too_short ml p"
proof (cases "pkt_version p")
  case V1
  then obtain e where e: "msg_entry ml (v1_frame_id (pkt_data p)) = Some e"
    using assms by (fastforce simp: packet_wf_V1 mavlink_tables_agree_def)
  show ?thesis using v1_dest_raw [OF assms(1) V1 e] by (simp add: is_ok_iff)
next
  case V2
  then obtain e where "msg_entry ml (v2_frame_id (pkt_data p)) = Some e"
    using assms by (fastforce simp: packet_wf_V2 mavlink_tables_agree_def)
  then show ?thesis
    using v2_dest_spec [OF assms(1) V2] V2 by (simp add: packet_dest_def v1_too_short_def is_ok_iff)
qed



section \<open>A small dialect for concrete instances\<close>

text \<open>
  The entries that MAVLink's common dialect has for \<open>HEARTBEAT\<close> (0), which is not addressed, and
  \<open>PING\<close> (4), whose target fields are bytes 12 and 13 of its payload.
\<close>

definition common_infos :: "(u32 \<times> string \<times> mavlink_entry) list" where
  "common_infos =
     [(0, ''HEARTBEAT'', \<lparr>entry_flags = 0, target_system_ofs = 0, target_component_ofs = 0\<rparr>),
      (4, ''PING'', \<lparr>entry_flags = 3, target_system_ofs = 12, target_component_ofs = 13\<rparr>)]"

definition common_mavlink :: mavlink_lib where
  "common_mavlink =
     \<lparr>message_info_by_id = (\<lambda>i. map_option (\<lambda>(n, e). \<lparr>info_msgid = i, info_name = n\<rparr>) (map_of common_infos i)),
      message_info_by_name = (\<lambda>s. map_option (\<lambda>(i, n, e). \<lparr>info_msgid = i, info_name = n\<rparr>)
                                    (find (\<lambda>(i, n, e). n = s) common_infos)),
      msg_entry = (\<lambda>i. map_option snd (map_of common_infos i)),
      flag_target_system = 1, flag_target_component = 2, iflag_signed = 1\<rparr>"

lemma common_tables_agree: "mavlink_tables_agree common_mavlink"
  by (auto simp: mavlink_tables_agree_def common_mavlink_def common_infos_def split: if_splits)

lemmas dialect_eval = common_mavlink_def common_infos_def

text \<open>A heartbeat, a truncated version 2 ping and a short version 1 ping.\<close>

definition sample_heartbeat :: "u8 list" where
  "sample_heartbeat = [0xFE, 0, 7, 1, 2, 0, 0xAA, 0xBB]"

definition sample_ping_v2 :: "u8 list" where
  "sample_ping_v2 = [0xFD, 13, 0, 0, 7, 1, 2, 4, 0, 0] @ replicate 12 0 @ [9, 0xAA, 0xBB]"

definition sample_ping_v1 :: "u8 list" where
  "sample_ping_v1 = [0xFE, 14, 7, 1, 2, 4] @ replicate 12 0 @ [9, 8, 0xAA, 0xBB]"

definition sample_short_ping :: "u8 list" where
  "sample_short_ping = [0xFE, 2, 7, 1, 2, 4, 0, 0, 0xAA, 0xBB]"

lemma sample_packets:
  "v1_Packet common_mavlink sample_heartbeat =
     Inr \<lparr>pkt_version = V1, pkt_data = sample_heartbeat, pkt_connection = None\<rparr>"
  "v1_Packet common_mavlink sample_ping_v1 =
     Inr \<lparr>pkt_version = V1, pkt_data = sample_ping_v1, pkt_connection = None\<rparr>"
  "v1_Packet common_mavlink sample_short_ping =
     Inr \<lparr>pkt_version = V1, pkt_data = sample_short_ping, pkt_connection = None\<rparr>"
  "v2_Packet common_mavlink sample_ping_v2 =
     Inr \<lparr>pkt_version = V2, pkt_data = sample_ping_v2, pkt_connection = None\<rparr>"
  by (simp_all add: v1f.build_Inr_iff v2f.build_Inr_iff v1_complete_iff v2_complete_iff
      v1_frame_length_def v2_frame_length_def v1_frame_id_def v2_frame_id_le24
      v1_START_BYTE_def v2_START_BYTE_def sample_heartbeat_def sample_ping_v2_def
      sample_ping_v1_def sample_short_ping_def dialect_eval nth_append nth_Cons')

theorem v2_dest_payload_witness:
  "\<exists>e. msg_entry common_mavlink 4 = Some e \<and>
       packet_dest common_mavlink \<lparr>pkt_version = V2, pkt_data = sample_ping_v2, pkt_connection = None\<rparr> =
         Inr (target_of common_mavlink e (payload_byte 10 sample_ping_v2))"
  using v2_dest_payload [OF sample_packets(4) common_tables_agree]
  by (simp add: sample_ping_v2_def)

theorem v1_dest_payload_witness:
  "packet_dest common_mavlink \<lparr>pkt_version = V1, pkt_data = sample_ping_v1, pkt_connection = None\<rparr> =
     Inr (Some (mav_of_bytes 9 8))"
  using v1_dest_payload [OF sample_packets(2),
      of "\<lparr>entry_flags = 3, target_system_ofs = 12, target_component_ofs = 13\<rparr>"]
  by (simp add: sample_ping_v1_def dialect_eval target_of_def payload_byte_def nth_append)


end
