(* ===== verification/ByteParser.thy ===== *)
theory ByteParser
  imports MavPacket
begin

text \<open>
  \<open>PacketParser\<close>: the state machine that cuts packets out of the bytes of a link.  The private
  methods are one definition each; \<open>parse_bytes\<close> is the loop the interfaces run over a received
  block.  The parser refines a machine that keeps only the bytes of the frame in progress, and on a
  whole stream it computes the segmentation \<open>scan\<close>.
\<close>

section \<open>The parser\<close>

datatype parser_state = WAITING_FOR_START_BYTE | WAITING_FOR_HEADER | WAITING_FOR_PACKET

record PacketParser =
  pp_buffer :: "u8 list"
  pp_state :: parser_state
  pp_version :: Version
  pp_bytes_remaining :: u64

definition parser_clear :: "PacketParser \<Rightarrow> PacketParser" where
  "parser_clear p = p\<lparr>pp_buffer := [], pp_state := WAITING_FOR_START_BYTE, pp_version := V2,
                      pp_bytes_remaining := 0\<rparr>"

definition parser_initial :: PacketParser where
  "parser_initial = \<lparr>pp_buffer = [], pp_state = WAITING_FOR_START_BYTE, pp_version = V2,
                     pp_bytes_remaining = 0\<rparr>"

definition bytes_parsed :: "PacketParser \<Rightarrow> nat" where
  "bytes_parsed p = length (pp_buffer p)"

definition waiting_for_start_byte :: "u8 \<Rightarrow> PacketParser \<Rightarrow> PacketParser" where
  "waiting_for_start_byte b p =
     (if b = v1_START_BYTE
      then p\<lparr>pp_buffer := pp_buffer p @ [b], pp_state := WAITING_FOR_HEADER, pp_version := V1\<rparr>
      else if b = v2_START_BYTE
      then p\<lparr>pp_buffer := pp_buffer p @ [b], pp_state := WAITING_FOR_HEADER, pp_version := V2\<rparr>
      else p)"

text \<open>\<open>is_signed\<close> is called only once the header is complete, but it can throw, so the step can.\<close>

definition waiting_for_header :: "mavlink_lib \<Rightarrow> u8 \<Rightarrow> PacketParser \<Rightarrow> cpp_error + PacketParser" where
  "waiting_for_header ml b p0 =
     (let p = p0\<lparr>pp_buffer := pp_buffer p0 @ [b]\<rparr> in
      case pp_version p of
        V1 \<Rightarrow>
          if v1_header_complete (pp_buffer p)
          then Inr (p\<lparr>pp_bytes_remaining :=
                        ucast (v1_len (the (v1_header_of (pp_buffer p)))) + of_nat v1_CHECKSUM_LENGTH,
                      pp_state := WAITING_FOR_PACKET\<rparr>)
          else Inr p
      | V2 \<Rightarrow>
          if v2_header_complete (pp_buffer p)
          then (let n = ucast (v2_len (the (v2_header_of (pp_buffer p)))) + of_nat v2_CHECKSUM_LENGTH in
                case v2_is_signed ml (pp_buffer p) of
                  Inl e \<Rightarrow> Inl e
                | Inr with_sig \<Rightarrow>
                    Inr (p\<lparr>pp_bytes_remaining := (if with_sig then n + of_nat v2_SIGNATURE_LENGTH else n),
                           pp_state := WAITING_FOR_PACKET\<rparr>))
          else Inr p)"

text \<open>
  A completed packet is built from the buffer.  Only \<open>InvalidPacketIDError\<close> is caught: its packet ID
  goes to the error stream (the second component), and the packet is dropped.
\<close>

definition waiting_for_packet ::
  "mavlink_lib \<Rightarrow> u8 \<Rightarrow> PacketParser \<Rightarrow> cpp_error + (Packet option \<times> u64 list \<times> PacketParser)" where
  "waiting_for_packet ml b p0 =
     (let p = p0\<lparr>pp_buffer := pp_buffer p0 @ [b], pp_bytes_remaining := pp_bytes_remaining p0 - 1\<rparr> in
      if pp_bytes_remaining p = 0
      then (case (case pp_version p of V1 \<Rightarrow> v1_Packet ml (pp_buffer p)
                                    | V2 \<Rightarrow> v2_Packet ml (pp_buffer p)) of
              Inr packet \<Rightarrow> Inr (Some packet, [], parser_clear p)
            | Inl (InvalidPacketIDError i) \<Rightarrow> Inr (None, [i], parser_clear p)
            | Inl e \<Rightarrow> Inl e)
      else Inr (None, [], p))"

definition parse_byte ::
  "mavlink_lib \<Rightarrow> u8 \<Rightarrow> PacketParser \<Rightarrow> cpp_error + (Packet option \<times> u64 list \<times> PacketParser)" where
  "parse_byte ml b p =
     (case pp_state p of
        WAITING_FOR_START_BYTE \<Rightarrow> Inr (None, [], waiting_for_start_byte b p)
      | WAITING_FOR_HEADER \<Rightarrow>
          (case waiting_for_header ml b p of Inl e \<Rightarrow> Inl e | Inr p' \<Rightarrow> Inr (None, [], p'))
      | WAITING_FOR_PACKET \<Rightarrow> waiting_for_packet ml b p)"

text \<open>A block of bytes, one after the other; the packets and reported IDs come out in order.\<close>

fun parse_bytes ::
  "mavlink_lib \<Rightarrow> u8 list \<Rightarrow> PacketParser \<Rightarrow> cpp_error + (Packet list \<times> u64 list \<times> PacketParser)" where
  "parse_bytes ml [] p = Inr ([], [], p)"
| "parse_bytes ml (b # bs) p =
     (case parse_byte ml b p of
        Inl e \<Rightarrow> Inl e
      | Inr (packet, ids, p') \<Rightarrow>
          (case parse_bytes ml bs p' of
             Inl e \<Rightarrow> Inl e
           | Inr (packets, ids', p'') \<Rightarrow>
               Inr ((case packet of None \<Rightarrow> [] | Some k \<Rightarrow> [k]) @ packets, ids @ ids', p'')))"

section \<open>Both formats at once\<close>

definition frame_start :: "Version \<Rightarrow> u8" where
  "frame_start v = (case v of V1 \<Rightarrow> v1_START_BYTE | V2 \<Rightarrow> v2_START_BYTE)"

definition frame_header :: "Version \<Rightarrow> nat" where
  "frame_header v = (case v of V1 \<Rightarrow> 6 | V2 \<Rightarrow> 10)"

definition frame_length :: "mavlink_lib \<Rightarrow> Version \<Rightarrow> u8 list \<Rightarrow> nat" where
  "frame_length ml v d = (case v of V1 \<Rightarrow> v1_frame_length d | V2 \<Rightarrow> v2_frame_length ml d)"

definition frame_id :: "Version \<Rightarrow> u8 list \<Rightarrow> u32" where
  "frame_id v d = (case v of V1 \<Rightarrow> v1_frame_id d | V2 \<Rightarrow> v2_frame_id d)"

definition frame_known :: "mavlink_lib \<Rightarrow> Version \<Rightarrow> u8 list \<Rightarrow> bool" where
  "frame_known ml v d \<longleftrightarrow> message_info_by_id ml (frame_id v d) \<noteq> None"

definition frame_complete :: "mavlink_lib \<Rightarrow> Version \<Rightarrow> u8 list \<Rightarrow> bool" where
  "frame_complete ml v d = (case v of V1 \<Rightarrow> v1_packet_complete d | V2 \<Rightarrow> v2_packet_complete ml d)"

definition frame_build :: "mavlink_lib \<Rightarrow> Version \<Rightarrow> u8 list \<Rightarrow> cpp_error + Packet" where
  "frame_build ml v d = (case v of V1 \<Rightarrow> v1_Packet ml d | V2 \<Rightarrow> v2_Packet ml d)"

lemmas frame_defs = frame_start_def frame_header_def frame_length_def frame_id_def frame_known_def
  frame_complete_def frame_build_def

lemma ucast_frame_id_v1: "ucast (v1_frame_id d) = (ucast (d ! 5) :: u64)"
  unfolding v1_frame_id_def by (rule bit_eqI) (auto simp: bit_simps dest: bit_imp_le_length)

interpretation frm: packet_format "frame_start v" "frame_header v" "frame_length ml v"
  "frame_known ml v" "\<lambda>d. ucast (frame_id v d)" "frame_complete ml v" "frame_build ml v" v
  for ml v
proof (cases v)
  case V1
  show "packet_format (frame_start v) (frame_header v) (frame_length ml v)
    (frame_known ml v) (\<lambda>d. ucast (frame_id v d)) (frame_complete ml v) (frame_build ml v) v"
    using v1f.packet_format_axioms [of ml]
    unfolding V1 frame_defs Version.case ucast_frame_id_v1 .
next
  case V2
  show "packet_format (frame_start v) (frame_header v) (frame_length ml v)
    (frame_known ml v) (\<lambda>d. ucast (frame_id v d)) (frame_complete ml v) (frame_build ml v) v"
    using v2f.packet_format_axioms [of ml]
    unfolding V2 frame_defs Version.case .
qed


section \<open>The invariant\<close>

definition parser_inv :: "mavlink_lib \<Rightarrow> PacketParser \<Rightarrow> bool" where
  "parser_inv ml p =
     (let v = pp_version p; d = pp_buffer p in
      case pp_state p of
        WAITING_FOR_START_BYTE \<Rightarrow> p = parser_initial
      | WAITING_FOR_HEADER \<Rightarrow>
          d \<noteq> [] \<and> hd d = frame_start v \<and> length d < frame_header v \<and> pp_bytes_remaining p = 0
      | WAITING_FOR_PACKET \<Rightarrow>
          frame_header v \<le> length d \<and> hd d = frame_start v \<and> length d < frame_length ml v d \<and>
          unat (pp_bytes_remaining p) = frame_length ml v d - length d)"

lemma parser_inv_initial: "parser_inv ml parser_initial"
  by (simp add: parser_inv_def parser_initial_def)

lemma parser_clear_initial [simp]: "parser_clear p = parser_initial"
  by (simp add: parser_clear_def parser_initial_def)

lemma initial_fields [simp]:
  "pp_buffer parser_initial = []" "pp_state parser_initial = WAITING_FOR_START_BYTE"
  "pp_version parser_initial = V2" "pp_bytes_remaining parser_initial = 0"
  by (simp_all add: parser_initial_def)

section \<open>The abstract parser\<close>

text \<open>
  The specification keeps the bytes of the frame in progress and nothing else: a byte outside a
  frame is skipped unless it starts one, and a frame ends when it is complete.
\<close>

definition start_version :: "u8 \<Rightarrow> Version option" where
  "start_version b =
     (if b = frame_start V1 then Some V1 else if b = frame_start V2 then Some V2 else None)"

definition spec_step ::
  "mavlink_lib \<Rightarrow> u8 \<Rightarrow> u8 list \<Rightarrow> u8 list \<times> (Version \<times> u8 list) option" where
  "spec_step ml b d =
     (case start_version (hd (d @ [b])) of
        None \<Rightarrow> ([], None)
      | Some v \<Rightarrow>
          if frame_complete ml v (d @ [b]) then ([], Some (v, d @ [b])) else (d @ [b], None))"

definition frame_packets :: "mavlink_lib \<Rightarrow> (Version \<times> u8 list) option \<Rightarrow> Packet option" where
  "frame_packets ml f =
     (case f of
        Some (v, d) \<Rightarrow>
          if frame_known ml v d
          then Some \<lparr>pkt_version = v, pkt_data = d, pkt_connection = None\<rparr> else None
      | None \<Rightarrow> None)"

definition frame_errors :: "mavlink_lib \<Rightarrow> (Version \<times> u8 list) option \<Rightarrow> u64 list" where
  "frame_errors ml f =
     (case f of
        Some (v, d) \<Rightarrow> if frame_known ml v d then [] else [ucast (frame_id v d)]
      | None \<Rightarrow> [])"

lemma start_version_start [simp]: "start_version (frame_start v) = Some v"
  by (cases v) (simp_all add: start_version_def frame_start_def v1_START_BYTE_def v2_START_BYTE_def)

lemma start_version_Some: "start_version b = Some v \<Longrightarrow> b = frame_start v"
  by (auto simp: start_version_def split: if_splits)

lemma frame_header_ge2: "2 \<le> frame_header v" "0 < frame_header v"
  by (cases v; simp add: frame_header_def)+

lemma spec_step_in_frame:
  "d \<noteq> [] \<Longrightarrow> hd d = frame_start v \<Longrightarrow>
   spec_step ml b d =
     (if frame_complete ml v (d @ [b]) then ([], Some (v, d @ [b])) else (d @ [b], None))"
  by (simp add: spec_step_def)

lemma frame_length_snoc:
  "frame_header v \<le> length d \<Longrightarrow> frame_length ml v (d @ [b]) = frame_length ml v d"
  by (rule frm.expected_stable)

lemma frame_complete_snoc:
  assumes "frame_header v \<le> length d" "hd d = frame_start v" "d \<noteq> []"
  shows "frame_complete ml v (d @ [b]) \<longleftrightarrow> Suc (length d) = frame_length ml v d"
  using assms by (auto simp: frm.complete_iff frame_length_snoc)

lemma header_not_complete:
  assumes "length d \<le> frame_header v"
  shows "\<not> frame_complete ml v d"
  using assms frm.expected_bounds(1) [of v ml d] by (auto simp: frm.complete_iff)

section \<open>One step of the parser\<close>

lemma step_start:
  assumes "pp_state p = WAITING_FOR_START_BYTE" "parser_inv ml p"
  shows "\<exists>p'. parse_byte ml b p = Inr (None, [], p') \<and> parser_inv ml p' \<and>
              spec_step ml b (pp_buffer p) = (pp_buffer p', None)"
proof -
  have p: "p = parser_initial" using assms by (simp add: parser_inv_def)
  have "\<not> frame_complete ml v [b]" for v
    by (rule header_not_complete) (use frame_header_ge2 [of v] in simp)
  then show ?thesis
    unfolding p
    by (auto simp: parse_byte_def waiting_for_start_byte_def parser_inv_def spec_step_def
        start_version_def frame_start_def frame_header_def Let_def split: option.splits)
qed

lemma byte_plus_small:
  assumes "k < 1000"
  shows "unat (ucast (b :: u8) + of_nat k :: u64) = unat b + k"
proof -
  have "unat (ucast b :: u64) = unat b"
    using byte_bound [of b] by (simp add: unsigned_ucast_eq take_bit_nat_eq_self)
  moreover have "unat (of_nat k :: u64) = k"
    using assms by (simp add: unsigned_of_nat take_bit_nat_eq_self)
  ultimately show ?thesis
    using byte_bound [of b] assms by (simp add: unat_word_ariths)
qed

lemma byte_plus_numeral:
  "unat (ucast (b :: u8) + 2 :: u64) = unat b + 2" "unat (2 + ucast (b :: u8) :: u64) = unat b + 2"
  "unat (ucast (b :: u8) + 15 :: u64) = unat b + 15" "unat (15 + ucast (b :: u8) :: u64) = unat b + 15"
  using byte_plus_small [of 2 b] byte_plus_small [of 15 b] by (simp_all add: add.commute)

lemma waiting_for_header_eq:
  assumes "pp_buffer p @ [b] = d" "hd d = frame_start (pp_version p)" "pp_bytes_remaining p = 0"
    "length d \<le> frame_header (pp_version p)" "pp_state p = WAITING_FOR_HEADER"
  shows "\<exists>p'. waiting_for_header ml b p = Inr p' \<and> pp_buffer p' = d \<and> pp_version p' = pp_version p \<and>
    (if length d = frame_header (pp_version p)
     then pp_state p' = WAITING_FOR_PACKET \<and>
          unat (pp_bytes_remaining p') = frame_length ml (pp_version p) d - length d
     else pp_state p' = WAITING_FOR_HEADER \<and> pp_bytes_remaining p' = 0)"
proof (cases "pp_version p")
  case V1
  then show ?thesis
    using assms
    by (auto simp: waiting_for_header_def Let_def v1_defs frame_header_def frame_start_def
        frame_length_def v1_frame_length_def byte_plus_numeral)
next
  case V2
  then show ?thesis
    using assms
    by (auto simp: waiting_for_header_def Let_def v2_defs v2_is_signed_def frame_header_def
        frame_start_def frame_length_def v2_frame_length_def byte_plus_numeral)
qed


lemma step_header:
  assumes "pp_state p = WAITING_FOR_HEADER" "parser_inv ml p"
  shows "\<exists>p'. parse_byte ml b p = Inr (None, [], p') \<and> parser_inv ml p' \<and>
              spec_step ml b (pp_buffer p) = (pp_buffer p', None)"
proof -
  let ?v = "pp_version p" and ?d = "pp_buffer p @ [b]"
  have d: "pp_buffer p \<noteq> []" "hd (pp_buffer p) = frame_start ?v" "length ?d \<le> frame_header ?v"
    and r: "pp_bytes_remaining p = 0"
    using assms by (simp_all add: parser_inv_def Let_def)
  from waiting_for_header_eq [of p b ?d ml] d r assms(1)
  obtain p' where p': "waiting_for_header ml b p = Inr p'" "pp_buffer p' = ?d" "pp_version p' = ?v"
      "if length ?d = frame_header ?v
       then pp_state p' = WAITING_FOR_PACKET \<and>
            unat (pp_bytes_remaining p') = frame_length ml ?v ?d - length ?d
       else pp_state p' = WAITING_FOR_HEADER \<and> pp_bytes_remaining p' = 0"
    by auto
  have "parser_inv ml p'"
    using p' d frm.expected_bounds(1) [of ?v ml ?d]
    by (auto simp: parser_inv_def Let_def split: if_splits)
  then show ?thesis
    using p' assms(1) d header_not_complete [OF d(3), of ml]
    by (auto simp: parse_byte_def spec_step_in_frame)
qed

lemma waiting_for_packet_build:
  "waiting_for_packet ml b p =
     (if pp_bytes_remaining p - 1 = 0
      then (case frame_build ml (pp_version p) (pp_buffer p @ [b]) of
              Inr packet \<Rightarrow> Inr (Some packet, [], parser_initial)
            | Inl (InvalidPacketIDError i) \<Rightarrow> Inr (None, [i], parser_initial)
            | Inl e \<Rightarrow> Inl e)
      else Inr (None, [], p\<lparr>pp_buffer := pp_buffer p @ [b], pp_bytes_remaining := pp_bytes_remaining p - 1\<rparr>))"
  by (cases "pp_version p")
    (simp_all add: waiting_for_packet_def frame_build_def Let_def
      cong: sum.case_cong cpp_error.case_cong)

lemma step_packet:
  assumes "pp_state p = WAITING_FOR_PACKET" "parser_inv ml p"
  shows "\<exists>p'. parse_byte ml b p =
                Inr (frame_packets ml (snd (spec_step ml b (pp_buffer p))),
                     frame_errors ml (snd (spec_step ml b (pp_buffer p))), p') \<and>
              parser_inv ml p' \<and> fst (spec_step ml b (pp_buffer p)) = pp_buffer p'"
proof -
  let ?v = "pp_version p" and ?d = "pp_buffer p @ [b]" and ?r = "pp_bytes_remaining p"
  have d: "frame_header ?v \<le> length (pp_buffer p)" "hd (pp_buffer p) = frame_start ?v"
      "length (pp_buffer p) < frame_length ml ?v (pp_buffer p)"
      "unat ?r = frame_length ml ?v (pp_buffer p) - length (pp_buffer p)"
    using assms by (simp_all add: parser_inv_def Let_def)
  have ne: "pp_buffer p \<noteq> []" using d(1) frame_header_ge2 [of ?v] by auto
  have pred: "unat (?r - 1) = unat ?r - 1" using d(3,4) by (intro unat_minus_one) auto
  have last: "?r - 1 = 0 \<longleftrightarrow> frame_complete ml ?v ?d"
    using d ne pred by (simp add: frame_complete_snoc unat_eq_0 [symmetric]) linarith
  show ?thesis
  proof (cases "frame_complete ml ?v ?d")
    case True
    then show ?thesis
      using assms(1) last d ne parser_inv_initial [of ml] frm.build_complete [OF True]
      by (auto simp: parse_byte_def waiting_for_packet_build spec_step_in_frame
          frame_packets_def frame_errors_def)
  next
    case False
    then show ?thesis
      using assms(1) last d ne pred
      by (auto simp: parse_byte_def waiting_for_packet_build spec_step_in_frame Let_def
          frame_packets_def frame_errors_def parser_inv_def frame_length_snoc frame_complete_snoc)
  qed
qed

text \<open>The three states together: the parser refines the abstract machine.\<close>

lemma parse_byte_refines:
  assumes "parser_inv ml p"
  shows "\<exists>p'. parse_byte ml b p =
                Inr (frame_packets ml (snd (spec_step ml b (pp_buffer p))),
                     frame_errors ml (snd (spec_step ml b (pp_buffer p))), p') \<and>
              parser_inv ml p' \<and> fst (spec_step ml b (pp_buffer p)) = pp_buffer p'"
proof (cases "pp_state p")
  case WAITING_FOR_START_BYTE
  from step_start [OF this assms, of b] show ?thesis by (auto simp: frame_packets_def frame_errors_def)
next
  case WAITING_FOR_HEADER
  from step_header [OF this assms, of b] show ?thesis by (auto simp: frame_packets_def frame_errors_def)
next
  case WAITING_FOR_PACKET
  from step_packet [OF this assms] show ?thesis .
qed

lemma parser_inv_bound:
  assumes "parser_inv ml p"
  shows "bytes_parsed p < 280"
  using assms frm.expected_bounds(2) [of ml "pp_version p" "pp_buffer p"]
  by (cases "pp_state p"; cases "pp_version p")
    (auto simp: parser_inv_def bytes_parsed_def frame_header_def Let_def)


section \<open>Whole streams\<close>

text \<open>
  The reference segmentation of a stream: skip to the next start byte, take the frame its header
  announces, continue behind it.  What is left at the end is a frame still incomplete.
\<close>

function scan ::
  "mavlink_lib \<Rightarrow> u8 list \<Rightarrow> (Version \<times> u8 list) list \<times> u8 list" where
  "scan ml [] = ([], [])"
| "scan ml (b # bs) =
     (case start_version b of
        None \<Rightarrow> scan ml bs
      | Some v \<Rightarrow>
          (let n = frame_length ml v (b # bs) in
           if length (b # bs) < frame_header v \<or> length (b # bs) < n then ([], b # bs)
           else (let r = scan ml (drop n (b # bs))
                 in ((v, take n (b # bs)) # fst r, snd r))))"
  by pat_completeness auto

lemma frame_length_pos: "0 < frame_length ml v d"
  using frm.expected_bounds(1) [of v ml d] by simp

termination scan
  by (relation "measure (\<lambda>(ml, bs). length bs)") (auto simp: frame_length_pos)

declare scan.simps(2) [simp del]

text \<open>A stream of steps of the abstract parser.\<close>

fun spec_run ::
  "mavlink_lib \<Rightarrow> u8 list \<Rightarrow> u8 list \<Rightarrow> (Version \<times> u8 list) list \<times> u8 list" where
  "spec_run ml [] d = ([], d)"
| "spec_run ml (b # bs) d =
     (let r = spec_run ml bs (fst (spec_step ml b d))
      in (case snd (spec_step ml b d) of None \<Rightarrow> fst r | Some f \<Rightarrow> f # fst r, snd r))"

definition pending :: "mavlink_lib \<Rightarrow> u8 list \<Rightarrow> bool" where
  "pending ml d \<longleftrightarrow> d = [] \<or>
     (\<exists>v. hd d = frame_start v \<and> (length d < frame_header v \<or> length d < frame_length ml v d))"

lemma scan_pending: "pending ml d \<Longrightarrow> scan ml d = ([], d)"
  by (cases d) (auto simp: pending_def scan.simps Let_def)

lemma pending_single: "start_version b = Some v \<Longrightarrow> pending ml [b]"
  using frame_header_ge2 [of v] by (auto simp: pending_def dest!: start_version_Some)

lemma pending_snoc:
  assumes "hd d = frame_start v" "d \<noteq> []" "length d < frame_header v \<or> length d < frame_length ml v d"
    "\<not> frame_complete ml v (d @ [b])"
  shows "pending ml (d @ [b])"
proof (cases "frame_header v \<le> length d")
  case True
  then have "Suc (length d) \<noteq> frame_length ml v d"
    using assms by (simp add: frame_complete_snoc)
  then show ?thesis
    using assms True by (auto simp: pending_def frame_length_snoc intro!: exI [of _ v])
next
  case False
  then show ?thesis
    using assms frm.expected_bounds(1) [of v ml "d @ [b]"]
    by (auto simp: pending_def intro!: exI [of _ v])
qed

lemma scan_complete:
  assumes "frame_complete ml v d"
  shows "scan ml (d @ bs) = ((v, d) # fst (scan ml bs), snd (scan ml bs))"
proof -
  have d: "frame_header v \<le> length d" "hd d = frame_start v" "frame_length ml v d = length d"
    using assms by (simp_all add: frm.complete_iff)
  then have "frame_length ml v (d @ bs) = length d" by (simp add: frm.expected_stable)
  moreover obtain b ds where "d = b # ds" using d(1) frame_header_ge2 [of v] by (cases d) auto
  ultimately show ?thesis using d by (simp add: scan.simps Let_def)
qed

lemma spec_run_scan: "pending ml d \<Longrightarrow> spec_run ml bs d = scan ml (d @ bs)"
proof (induction bs arbitrary: d)
  case Nil
  then show ?case by (simp add: scan_pending)
next
  case (Cons b bs)
  show ?case
  proof (cases "d = []")
    case True
    have nil: "pending ml []" by (simp add: pending_def)
    have nc: "\<not> frame_complete ml v [b]" for v
      by (rule header_not_complete) (use frame_header_ge2 [of v] in simp)
    show ?thesis
    proof (cases "start_version b")
      case None
      then show ?thesis using True Cons.IH [OF nil] by (simp add: spec_step_def scan.simps)
    next
      case (Some v)
      then show ?thesis
        using True nc Cons.IH [OF pending_single [OF Some]] by (simp add: spec_step_def)
    qed
  next
    case False
    then obtain v where v: "hd d = frame_start v"
        "length d < frame_header v \<or> length d < frame_length ml v d"
      using Cons.prems by (auto simp: pending_def)
    have nil: "pending ml []" by (simp add: pending_def)
    show ?thesis
    proof (cases "frame_complete ml v (d @ [b])")
      case True
      then show ?thesis
        using False v Cons.IH [OF nil] scan_complete [OF True, of bs]
        by (simp add: spec_step_in_frame Let_def)
    next
      case no: False
      show ?thesis
        using Cons.IH [OF pending_snoc [OF v(1) False v(2) no]] False v no
        by (simp add: spec_step_in_frame)
    qed
  qed
qed

definition packets_of :: "mavlink_lib \<Rightarrow> (Version \<times> u8 list) list \<Rightarrow> Packet list" where
  "packets_of ml fs =
     [\<lparr>pkt_version = v, pkt_data = d, pkt_connection = None\<rparr>. (v, d) \<leftarrow> fs, frame_known ml v d]"

definition errors_of :: "mavlink_lib \<Rightarrow> (Version \<times> u8 list) list \<Rightarrow> u64 list" where
  "errors_of ml fs = [ucast (frame_id v d). (v, d) \<leftarrow> fs, \<not> frame_known ml v d]"

lemma packets_of_Cons:
  "packets_of ml (f # fs) =
     (case frame_packets ml (Some f) of None \<Rightarrow> [] | Some k \<Rightarrow> [k]) @ packets_of ml fs"
  "errors_of ml (f # fs) = frame_errors ml (Some f) @ errors_of ml fs"
  by (auto simp: packets_of_def errors_of_def frame_packets_def frame_errors_def split: prod.splits)

lemma parse_bytes_refines:
  assumes "parser_inv ml p"
  shows "\<exists>p'. parse_bytes ml bs p =
      Inr (packets_of ml (fst (spec_run ml bs (pp_buffer p))),
           errors_of ml (fst (spec_run ml bs (pp_buffer p))), p') \<and>
    parser_inv ml p' \<and> pp_buffer p' = snd (spec_run ml bs (pp_buffer p))"
  using assms
proof (induction bs arbitrary: p)
  case Nil
  then show ?case by (simp add: packets_of_def errors_of_def)
next
  case (Cons b bs)
  obtain p1 where p1: "parse_byte ml b p =
        Inr (frame_packets ml (snd (spec_step ml b (pp_buffer p))),
             frame_errors ml (snd (spec_step ml b (pp_buffer p))), p1)"
      "parser_inv ml p1" "fst (spec_step ml b (pp_buffer p)) = pp_buffer p1"
    using parse_byte_refines [OF Cons.prems] by blast
  from Cons.IH [OF p1(2)] p1(1,3) show ?case
    by (cases "snd (spec_step ml b (pp_buffer p))")
      (auto simp: Let_def packets_of_Cons frame_packets_def frame_errors_def)
qed

lemma parse_bytes_append:
  "parse_bytes ml (xs @ ys) p =
     (case parse_bytes ml xs p of
        Inl e \<Rightarrow> Inl e
      | Inr (ks, ids, p') \<Rightarrow>
          (case parse_bytes ml ys p' of
             Inl e \<Rightarrow> Inl e
           | Inr (ks', ids', p'') \<Rightarrow> Inr (ks @ ks', ids @ ids', p'')))"
  by (induction xs arbitrary: p) (auto split: sum.splits prod.splits)


lemma packets_of_wf:
  assumes "\<forall>(v, d) \<in> set fs. frame_complete ml v d" "k \<in> set (packets_of ml fs)"
  shows "packet_wf ml k"
proof -
  obtain v d where k: "(v, d) \<in> set fs" "frame_known ml v d"
      "k = \<lparr>pkt_version = v, pkt_data = d, pkt_connection = None\<rparr>"
    using assms(2) by (auto simp: packets_of_def split: if_splits)
  then show ?thesis
    using assms(1) by (cases v) (auto simp: packet_wf_V1 packet_wf_V2 frame_defs)
qed

lemma spec_run_complete: "\<forall>(v, d) \<in> set (fst (spec_run ml bs d)). frame_complete ml v d"
  by (induction bs arbitrary: d)
    (auto simp: Let_def spec_step_def split: option.splits if_splits)

definition is_garbage :: "u8 list \<Rightarrow> bool" where
  "is_garbage g \<longleftrightarrow> list_all (\<lambda>b. start_version b = None) g"

lemma scan_garbage: "is_garbage g \<Longrightarrow> scan ml (g @ bs) = scan ml bs"
  by (induction g) (auto simp: is_garbage_def scan.simps)

lemma packet_wf_frame:
  "packet_wf ml k \<Longrightarrow> frame_complete ml (pkt_version k) (pkt_data k)"
  "packet_wf ml k \<Longrightarrow> frame_known ml (pkt_version k) (pkt_data k)"
  by (cases "pkt_version k"; auto simp: packet_wf_V1 packet_wf_V2 frame_defs)+

lemma scan_segments:
  assumes "\<forall>(g, k) \<in> set segs. is_garbage g \<and> packet_wf ml k" "is_garbage g'"
  shows "scan ml (concat (map (\<lambda>(g, k). g @ pkt_data k) segs) @ g') =
    (map (\<lambda>(g, k). (pkt_version k, pkt_data k)) segs, [])"
  using assms
proof (induction segs)
  case Nil
  then show ?case using scan_garbage [of g' ml "[]"] by simp
next
  case (Cons s segs)
  obtain g k where s: "s = (g, k)" by (cases s)
  show ?case
    using Cons s scan_garbage [of g ml]
      scan_complete [OF packet_wf_frame(1) [of ml k]] by simp
qed

section \<open>Properties\<close>

text \<open>C7: on any stream of bytes the parser never fails, and it computes the reference
  segmentation: it returns the packets of the frames with a known message ID, in order, reports the
  message IDs of the other frames, and is left holding the bytes of the frame in progress.\<close>

theorem parser_segments_stream:
  "\<exists>p. parse_bytes ml bs parser_initial =
         Inr (packets_of ml (fst (scan ml bs)), errors_of ml (fst (scan ml bs)), p)
       \<and> pp_buffer p = snd (scan ml bs)"
  using parse_bytes_refines [OF parser_inv_initial, of ml bs]
    spec_run_scan [of ml "[]" bs] by (auto simp: pending_def)

text \<open>C23: in every state the parser can be in, feeding more bytes raises no exception, keeps the
  invariant, and never lets the buffer reach the 280 bytes reserved for it.  Every packet it returns is
  well-formed and gives its name and its source; its destination can be read unless it is a version 1
  packet that ends before a target field of its message.\<close>

theorem parser_safe:
  assumes "parser_inv ml p" "mavlink_tables_agree ml"
  shows "\<exists>ks ids p'. parse_bytes ml bs p = Inr (ks, ids, p') \<and> parser_inv ml p' \<and>
           bytes_parsed p' < 280 \<and>
           (\<forall>k \<in> set ks. packet_wf ml k \<and> is_ok (packet_source k) \<and> is_ok (packet_name ml k) \<and>
              is_ok (packet_dest ml k) = (\<not> v1_too_short ml k))"
proof -
  obtain p' where p': "parse_bytes ml bs p =
      Inr (packets_of ml (fst (spec_run ml bs (pp_buffer p))),
           errors_of ml (fst (spec_run ml bs (pp_buffer p))), p')" "parser_inv ml p'"
    using parse_bytes_refines [OF assms(1)] by blast
  have "packet_wf ml k \<and> is_ok (packet_source k) \<and> is_ok (packet_name ml k) \<and>
      is_ok (packet_dest ml k) = (\<not> v1_too_short ml k)"
    if "k \<in> set (packets_of ml (fst (spec_run ml bs (pp_buffer p))))" for k
    using packets_of_wf [OF spec_run_complete that] assms(2) by (simp add: source_wf name_wf dest_or_short)
  then show ?thesis using p' parser_inv_bound by blast
qed

text \<open>C22: packets survive the wire: if well-formed packets of either version are sent one after the
  other, with any bytes that are not start bytes in between, the parser returns exactly these
  packets and is then back in its initial state.\<close>

theorem parser_roundtrip:
  assumes "\<forall>(g, k) \<in> set segs. is_garbage g \<and> packet_wf ml k \<and> pkt_connection k = None"
    and "is_garbage g'"
  shows "parse_bytes ml (concat (map (\<lambda>(g, k). g @ pkt_data k) segs) @ g') parser_initial =
    Inr (map snd segs, [], parser_initial)"
proof -
  let ?bs = "concat (map (\<lambda>(g, k). g @ pkt_data k) segs) @ g'"
    and ?fs = "map (\<lambda>(g, k). (pkt_version k, pkt_data k)) segs"
  have run: "spec_run ml ?bs [] = (?fs, [])"
    using spec_run_scan [of ml "[]" ?bs] scan_segments [OF _ assms(2)] assms(1)
    by (fastforce simp: pending_def)
  obtain p' where p': "parse_bytes ml ?bs parser_initial =
      Inr (packets_of ml ?fs, errors_of ml ?fs, p')" "parser_inv ml p'" "pp_buffer p' = []"
    using parse_bytes_refines [OF parser_inv_initial, of ml ?bs] run by auto
  have "p' = parser_initial"
    using p'(2,3) frame_header_ge2 [of "pp_version p'"] by (auto simp: parser_inv_def Let_def split: parser_state.splits)
  moreover have "packets_of ml ?fs = map snd segs" "errors_of ml ?fs = []"
    using assms(1) by (induction segs) (auto simp: packets_of_def errors_of_def packet_wf_frame)
  ultimately show ?thesis using p'(1) by simp
qed

lemma sample_packets_wf:
  "packet_wf common_mavlink \<lparr>pkt_version = V1, pkt_data = sample_heartbeat, pkt_connection = None\<rparr>"
  "packet_wf common_mavlink \<lparr>pkt_version = V2, pkt_data = sample_ping_v2, pkt_connection = None\<rparr>"
  using v1_Packet_wf [OF sample_packets(1)] v2_Packet_wf [OF sample_packets(4)] by simp_all

theorem parser_safe_witness:
  "\<exists>ks ids p'. parse_bytes common_mavlink sample_heartbeat parser_initial = Inr (ks, ids, p') \<and>
     parser_inv common_mavlink p' \<and> bytes_parsed p' < 280 \<and>
     (\<forall>k \<in> set ks. packet_wf common_mavlink k \<and> is_ok (packet_source k) \<and>
                   is_ok (packet_name common_mavlink k) \<and>
                   is_ok (packet_dest common_mavlink k) = (\<not> v1_too_short common_mavlink k))"
  by (rule parser_safe [OF parser_inv_initial common_tables_agree])

theorem parser_roundtrip_witness:
  "parse_bytes common_mavlink ([1, 2] @ sample_heartbeat @ [3] @ sample_ping_v2) parser_initial =
     Inr ([\<lparr>pkt_version = V1, pkt_data = sample_heartbeat, pkt_connection = None\<rparr>,
           \<lparr>pkt_version = V2, pkt_data = sample_ping_v2, pkt_connection = None\<rparr>], [], parser_initial)"
  using parser_roundtrip [of
      "[([1, 2], \<lparr>pkt_version = V1, pkt_data = sample_heartbeat, pkt_connection = None\<rparr>),
        ([3], \<lparr>pkt_version = V2, pkt_data = sample_ping_v2, pkt_connection = None\<rparr>)]"
      common_mavlink "[]"]
  by (simp add: sample_packets_wf is_garbage_def start_version_def frame_start_def
      v1_START_BYTE_def v2_START_BYTE_def)

end
