(* ===== verification/PacketQueueing.thy ===== *)
theory PacketQueueing
  imports MavPacket "HOL-Library.Multiset"
begin

text \<open>
  \<open>QueuedPacket\<close> and \<open>PacketQueue\<close>: the priority queue of a connection.  Tickets are 64-bit
  counters compared with wrap-around.  The promise of the queue, highest priority first and first
  come first served within a priority, is the locale \<open>stable_queue\<close>; it is interpreted on the
  model's \<open>push\<close> and \<open>pop\<close>.
\<close>

section \<open>Queued packets\<close>

record QueuedPacket =
  qp_packet :: Packet
  qp_priority :: int
  qp_ticket :: u64

text \<open>A shared pointer is an option; the constructor rejects the null pointer.\<close>

definition QueuedPacket_construct :: "Packet option \<Rightarrow> int \<Rightarrow> u64 \<Rightarrow> cpp_error + QueuedPacket" where
  "QueuedPacket_construct packet priority ticket =
     (case packet of
        None \<Rightarrow> Inl (Invalid_argument ''Given packet pointer is null.'')
      | Some p \<Rightarrow> Inr \<lparr>qp_packet = p, qp_priority = priority, qp_ticket = ticket\<rparr>)"

text \<open>\<open>std::numeric_limits<unsigned long long>::max() / 2\<close>\<close>

definition half_max :: u64 where
  "half_max = 0xFFFFFFFFFFFFFFFF div 2"

definition qp_eq :: "QueuedPacket \<Rightarrow> QueuedPacket \<Rightarrow> bool" where
  "qp_eq lhs rhs \<longleftrightarrow> qp_priority lhs = qp_priority rhs \<and> qp_ticket lhs = qp_ticket rhs"

definition qp_less :: "QueuedPacket \<Rightarrow> QueuedPacket \<Rightarrow> bool" where
  "qp_less lhs rhs \<longleftrightarrow>
     qp_priority lhs < qp_priority rhs \<or>
     (qp_priority lhs = qp_priority rhs \<and> qp_ticket rhs - qp_ticket lhs > half_max)"

definition qp_greater :: "QueuedPacket \<Rightarrow> QueuedPacket \<Rightarrow> bool" where
  "qp_greater lhs rhs \<longleftrightarrow>
     qp_priority lhs > qp_priority rhs \<or>
     (qp_priority lhs = qp_priority rhs \<and> qp_ticket lhs - qp_ticket rhs > half_max)"

definition qp_less_eq :: "QueuedPacket \<Rightarrow> QueuedPacket \<Rightarrow> bool" where
  "qp_less_eq lhs rhs \<longleftrightarrow> qp_eq lhs rhs \<or> qp_less lhs rhs"

definition qp_greater_eq :: "QueuedPacket \<Rightarrow> QueuedPacket \<Rightarrow> bool" where
  "qp_greater_eq lhs rhs \<longleftrightarrow> qp_eq lhs rhs \<or> qp_greater lhs rhs"

definition show_QueuedPacket :: "mavlink_lib \<Rightarrow> QueuedPacket \<Rightarrow> cpp_error + string" where
  "show_QueuedPacket ml q =
     (case show_Packet ml (qp_packet q) of
        Inl e \<Rightarrow> Inl e
      | Inr s \<Rightarrow> Inr (s @ '' with priority '' @ show_int (qp_priority q)))"

section \<open>The queue\<close>

text \<open>
  \<open>std::priority_queue\<close> gives access to an element that no other element exceeds.  The elements are
  kept here in the order they were pushed, and \<open>pq_top\<close> keeps the best element seen while it walks
  over them.
\<close>

fun pq_best :: "QueuedPacket \<Rightarrow> QueuedPacket list \<Rightarrow> QueuedPacket" where
  "pq_best best [] = best"
| "pq_best best (x # xs) = pq_best (if qp_less best x then x else best) xs"

definition pq_top :: "QueuedPacket list \<Rightarrow> QueuedPacket" where
  "pq_top q = pq_best (hd q) (tl q)"

definition pq_pop :: "QueuedPacket list \<Rightarrow> QueuedPacket list" where
  "pq_pop q = remove1 (pq_top q) q"

text \<open>\<open>pq_callback\<close> tells whether a callback was given to the constructor.\<close>

record PacketQueue =
  pq_callback :: bool
  pq_ticket :: u64
  pq_running :: bool
  pq_queue :: "QueuedPacket list"

definition PacketQueue_construct :: "bool \<Rightarrow> PacketQueue" where
  "PacketQueue_construct callback =
     \<lparr>pq_callback = callback, pq_ticket = 0, pq_running = True, pq_queue = []\<rparr>"

definition pq_get_packet :: "PacketQueue \<Rightarrow> Packet option \<times> PacketQueue" where
  "pq_get_packet q =
     (if pq_running q \<and> pq_queue q \<noteq> []
      then (Some (qp_packet (pq_top (pq_queue q))), q\<lparr>pq_queue := pq_pop (pq_queue q)\<rparr>)
      else (None, q))"

definition pq_close :: "PacketQueue \<Rightarrow> PacketQueue" where
  "pq_close q = q\<lparr>pq_running := False\<rparr>"

definition pq_is_empty :: "PacketQueue \<Rightarrow> bool" where
  "pq_is_empty q \<longleftrightarrow> pq_queue q = []"

text \<open>
  \<open>push\<close> gives the queue and the number of calls of the callback.  \<open>ticket_++\<close> wraps.
\<close>

definition pq_push :: "Packet option \<Rightarrow> int \<Rightarrow> PacketQueue \<Rightarrow> cpp_error + (PacketQueue \<times> nat)" where
  "pq_push packet priority q =
     (if packet = None then Inl (Invalid_argument ''Given packet pointer is null.'')
      else
        (case QueuedPacket_construct packet priority (pq_ticket q) of
           Inl e \<Rightarrow> Inl e
         | Inr x \<Rightarrow>
             Inr (q\<lparr>pq_queue := pq_queue q @ [x], pq_ticket := pq_ticket q + 1\<rparr>,
                  if pq_callback q then 1 else 0)))"

text \<open>The predicate the blocking pops wait for.\<close>

definition pq_ready :: "PacketQueue \<Rightarrow> bool" where
  "pq_ready q \<longleftrightarrow> \<not> pq_running q \<or> pq_queue q \<noteq> []"

text \<open>
  What happens between the locks is a step: a push, a close, the end of a blocking \<open>pop()\<close>, which
  happens only in a state where the wait is over, and the end of a \<open>pop(timeout)\<close>, which may happen
  in any state because the timeout can expire.
\<close>

datatype queue_event = Push Packet int | Close | Pop "Packet option" | Pop_timeout "Packet option"

inductive queue_step :: "PacketQueue \<Rightarrow> queue_event \<Rightarrow> PacketQueue \<Rightarrow> bool" where
  step_push: "pq_push (Some p) k q = Inr (q', n) \<Longrightarrow> queue_step q (Push p k) q'"
| step_close: "queue_step q Close (pq_close q)"
| step_pop: "pq_ready q \<Longrightarrow> pq_get_packet q = (r, q') \<Longrightarrow> queue_step q (Pop r) q'"
| step_pop_timeout: "pq_get_packet q = (r, q') \<Longrightarrow> queue_step q (Pop_timeout r) q'"

inductive_cases queue_step_cases:
  "queue_step q (Push p k) q'" "queue_step q Close q'" "queue_step q (Pop r) q'"
  "queue_step q (Pop_timeout r) q'"

text \<open>A history in which every state that something happens in satisfies \<open>P\<close>.\<close>

inductive queue_run :: "(PacketQueue \<Rightarrow> bool) \<Rightarrow> PacketQueue \<Rightarrow> queue_event list \<Rightarrow> PacketQueue \<Rightarrow> bool"
  for P where
  run_nil: "queue_run P q [] q"
| run_cons: "P q \<Longrightarrow> queue_step q e q1 \<Longrightarrow> queue_run P q1 es q2 \<Longrightarrow> queue_run P q (e # es) q2"

section \<open>The promise of the queue\<close>

text \<open>
  The entries wait in the order they will be served: an entry overtakes exactly the entries of a
  lower priority.
\<close>

definition serve_insert :: "('p \<times> int) \<Rightarrow> ('p \<times> int) list \<Rightarrow> ('p \<times> int) list" where
  "serve_insert x xs = takeWhile (\<lambda>y. snd x \<le> snd y) xs @ x # dropWhile (\<lambda>y. snd x \<le> snd y) xs"

abbreviation by_priority :: "('p \<times> int) list \<Rightarrow> bool" where
  "by_priority xs \<equiv> sorted_wrt (\<lambda>a b. snd b \<le> snd a) xs"

lemma serve_insert_simps [simp]:
  "serve_insert x [] = [x]"
  "serve_insert x (y # ys) = (if snd x \<le> snd y then y # serve_insert x ys else x # y # ys)"
  by (simp_all add: serve_insert_def)

lemma serve_insert_set [simp]: "set (serve_insert x xs) = insert x (set xs)"
  by (induction xs) auto

lemma serve_insert_nonempty [simp]: "serve_insert x xs \<noteq> []"
  by (cases xs) simp_all

lemma serve_insert_sorted: "by_priority xs \<Longrightarrow> by_priority (serve_insert x xs)"
  by (induction xs) auto

lemma serve_insert_fifo:
  assumes "by_priority xs"
  shows "filter (\<lambda>y. snd y = k) (serve_insert x xs) =
    filter (\<lambda>y. snd y = k) xs @ (if snd x = k then [x] else [])"
  using assms
proof (induction xs)
  case (Cons y ys)
  have "filter (\<lambda>z. snd z = k) (y # ys) = []" if "snd x = k" "snd y < snd x"
    using Cons.prems that by (auto simp: filter_empty_conv)
  then show ?case using Cons by auto
qed simp

locale stable_queue =
  fixes enq :: "'p \<times> int \<Rightarrow> 'q \<Rightarrow> 'q"
    and deq :: "'q \<Rightarrow> ('p \<times> 'q) option"
    and waiting :: "'q \<Rightarrow> ('p \<times> int) list"
    and ok :: "'q \<Rightarrow> bool"
    and room :: "'q \<Rightarrow> bool"
  assumes ok_enq: "ok q \<Longrightarrow> room q \<Longrightarrow> ok (enq x q)"
    and waiting_enq: "ok q \<Longrightarrow> room q \<Longrightarrow> waiting (enq x q) = serve_insert x (waiting q)"
    and deq_None: "ok q \<Longrightarrow> deq q = None \<longleftrightarrow> waiting q = []"
    and deq_Some: "ok q \<Longrightarrow> deq q = Some (p, q') \<Longrightarrow> ok q' \<and> (\<exists>k. waiting q = (p, k) # waiting q')"
    and waiting_sorted: "ok q \<Longrightarrow> by_priority (waiting q)"
begin

lemma next_is_best:
  assumes "ok q" "deq q = Some (p, q')"
  obtains k where "waiting q = (p, k) # waiting q'" "\<forall>x \<in> set (waiting q'). snd x \<le> k"
  using deq_Some [OF assms] waiting_sorted [OF assms(1)] by auto

fun drain :: "nat \<Rightarrow> 'q \<Rightarrow> 'p list" where
  "drain 0 q = []"
| "drain (Suc n) q = (case deq q of None \<Rightarrow> [] | Some (p, q') \<Rightarrow> p # drain n q')"

lemma drain_waiting: "ok q \<Longrightarrow> length (waiting q) \<le> n \<Longrightarrow> drain n q = map fst (waiting q)"
proof (induction n arbitrary: q)
  case (Suc n)
  show ?case
  proof (cases "deq q")
    case None
    then show ?thesis using Suc.prems deq_None [of q] by simp
  next
    case (Some a)
    obtain p q' where a: "a = (p, q')" by (cases a)
    then show ?thesis using deq_Some [OF Suc.prems(1)] Some Suc by fastforce
  qed
qed simp

lemma enq_fifo:
  "ok q \<Longrightarrow> room q \<Longrightarrow>
   filter (\<lambda>y. snd y = k) (waiting (enq x q)) =
     filter (\<lambda>y. snd y = k) (waiting q) @ (if snd x = k then [x] else [])"
  by (simp add: waiting_enq serve_insert_fifo waiting_sorted)

lemma enq_nonempty: "ok q \<Longrightarrow> room q \<Longrightarrow> deq (enq x q) \<noteq> None"
  by (simp add: deq_None ok_enq waiting_enq serve_insert_nonempty)

end


section \<open>Tickets\<close>

text \<open>The age of a queued packet: how many tickets have been drawn since its own.\<close>

definition age :: "u64 \<Rightarrow> QueuedPacket \<Rightarrow> nat" where
  "age base x = unat (base - qp_ticket x)"

text \<open>
  Within a window of \<open>2 ^ 63\<close> tickets the wrapping comparison is the order of arrival.  The list of
  the model is in the order of arrival, the oldest packet first.
\<close>

definition window :: "u64 \<Rightarrow> QueuedPacket list \<Rightarrow> bool" where
  "window base xs \<longleftrightarrow>
     sorted_wrt (\<lambda>a b. age base b < age base a) xs \<and>
     list_all (\<lambda>a. 0 < age base a \<and> age base a \<le> 2 ^ 63) xs"

lemma half_max_unat: "unat half_max = 2 ^ 63 - 1"
  by (simp add: half_max_def unat_div)

lemma wrap_less:
  fixes x y :: u64
  assumes "0 < unat x" "unat x \<le> 2 ^ 63" "0 < unat y" "unat y \<le> 2 ^ 63"
  shows "half_max < x - y \<longleftrightarrow> unat x < unat y"
proof -
  have "unat (x - y) = (if unat y \<le> unat x then unat x - unat y else unat x + 2 ^ 64 - unat y)"
    by (simp add: unat_sub_if')
  then show ?thesis
    using assms by (auto simp: word_less_nat_alt half_max_unat)
qed

lemma ticket_order:
  assumes "0 < age base a" "age base a \<le> 2 ^ 63" "0 < age base b" "age base b \<le> 2 ^ 63"
  shows "qp_ticket b - qp_ticket a > half_max \<longleftrightarrow> age base a < age base b"
  using wrap_less [of "base - qp_ticket a" "base - qp_ticket b"] assms
  by (simp add: age_def)

lemma qp_less_window:
  assumes "0 < age base a" "age base a \<le> 2 ^ 63" "0 < age base b" "age base b \<le> 2 ^ 63"
  shows "qp_less a b \<longleftrightarrow> qp_priority a < qp_priority b \<or>
    (qp_priority a = qp_priority b \<and> age base a < age base b)"
  by (simp add: qp_less_def ticket_order [OF assms])

lemma window_Nil [simp]: "window base []"
  by (simp add: window_def)

lemma window_Cons:
  "window base (x # xs) \<longleftrightarrow>
     0 < age base x \<and> age base x \<le> 2 ^ 63 \<and> (\<forall>y \<in> set xs. age base y < age base x) \<and> window base xs"
  by (auto simp: window_def)

lemma window_middle: "window base (as @ t # bs) \<Longrightarrow> window base (as @ bs)"
  by (auto simp: window_def sorted_wrt_append)

section \<open>The top of the queue\<close>

text \<open>The oldest packet among those of the highest priority.\<close>

definition first_best :: "QueuedPacket list \<Rightarrow> QueuedPacket \<Rightarrow> QueuedPacket list \<Rightarrow> bool" where
  "first_best as t bs \<longleftrightarrow>
     (\<forall>a \<in> set as. qp_priority a < qp_priority t) \<and> (\<forall>b \<in> set bs. qp_priority b \<le> qp_priority t)"

lemma pq_best_first:
  assumes "window base (best # xs)"
  obtains as t bs where "pq_best best xs = t" "best # xs = as @ t # bs" "first_best as t bs"
  using assms
proof (induction xs arbitrary: best thesis)
  case Nil
  show ?case by (rule Nil(1) [of best "[]" "[]"]) (simp_all add: first_best_def)
next
  case (Cons x xs)
  have less: "qp_less best x \<longleftrightarrow> qp_priority best < qp_priority x"
    using Cons.prems(2) qp_less_window [of base best x] by (auto simp: window_Cons)
  show ?case
  proof (cases "qp_less best x")
    case True
    obtain as t bs where s: "pq_best x xs = t" "x # xs = as @ t # bs" "first_best as t bs"
      using Cons.IH [of x] Cons.prems(2) by (auto simp: window_Cons)
    have "qp_priority x \<le> qp_priority t"
      using s(2,3) by (cases as) (auto simp: first_best_def)
    then have "first_best (best # as) t bs" using s(3) True less by (simp add: first_best_def)
    moreover have "best # x # xs = (best # as) @ t # bs" using s(2) by simp
    moreover have "pq_best best (x # xs) = t" using s(1) True by simp
    ultimately show ?thesis by (intro Cons.prems(1))
  next
    case False
    obtain as t bs where s: "pq_best best xs = t" "best # xs = as @ t # bs" "first_best as t bs"
      using Cons.IH [of best] Cons.prems(2) by (auto simp: window_Cons)
    then have top: "pq_best best (x # xs) = t" using False by simp
    show ?thesis
    proof (cases as)
      case Nil
      then have "first_best [] t (x # bs)" "best # x # xs = [] @ t # x # bs"
        using s False less by (auto simp: first_best_def)
      then show ?thesis using top Cons.prems(1) by blast
    next
      case (Cons a as')
      then have "first_best (best # x # as') t bs" "best # x # xs = (best # x # as') @ t # bs"
        using s False less by (auto simp: first_best_def)
      then show ?thesis using top Cons.prems(1) by blast
    qed
  qed
qed

lemma pq_top_first:
  assumes "window base q" "q \<noteq> []"
  obtains as t bs where "pq_top q = t" "q = as @ t # bs" "first_best as t bs" "pq_pop q = as @ bs"
proof -
  obtain x xs where q: "q = x # xs" using assms(2) by (cases q) auto
  with assms(1) obtain as t bs where s: "pq_best x xs = t" "x # xs = as @ t # bs" "first_best as t bs"
    using pq_best_first [of base x xs] by blast
  have top: "pq_top q = t" using s(1) q by (simp add: pq_top_def)
  have "t \<notin> set as" using s(3) by (auto simp: first_best_def)
  then have "pq_pop q = as @ bs" using s(2) q top by (simp add: pq_pop_def remove1_append)
  then show thesis using s q top that by blast
qed

section \<open>The order of service\<close>

definition entry :: "QueuedPacket \<Rightarrow> Packet \<times> int" where
  "entry x = (qp_packet x, qp_priority x)"

definition waiting_list :: "QueuedPacket list \<Rightarrow> (Packet \<times> int) list" where
  "waiting_list q = fold serve_insert (map entry q) []"

lemma fold_insert_after:
  "\<forall>b \<in> set bs. snd b \<le> snd t \<Longrightarrow> fold serve_insert bs (t # xs) = t # fold serve_insert bs xs"
  by (induction bs arbitrary: xs) simp_all

lemma serve_insert_first: "\<forall>y \<in> set xs. snd y < snd x \<Longrightarrow> serve_insert x xs = x # xs"
  by (cases xs) auto

lemma fold_insert_set [simp]: "set (fold serve_insert xs ys) = set xs \<union> set ys"
  by (induction xs arbitrary: ys) auto

lemma fold_insert_sorted: "by_priority ys \<Longrightarrow> by_priority (fold serve_insert xs ys)"
  by (induction xs arbitrary: ys) (auto simp: serve_insert_sorted)

lemma waiting_list_first:
  assumes "first_best as t bs"
  shows "waiting_list (as @ t # bs) = entry t # waiting_list (as @ bs)"
proof -
  have "serve_insert (entry t) (fold serve_insert (map entry as) []) =
      entry t # fold serve_insert (map entry as) []"
    using assms by (intro serve_insert_first) (auto simp: first_best_def entry_def)
  moreover have "\<forall>b \<in> set (map entry bs). snd b \<le> snd (entry t)"
    using assms by (auto simp: first_best_def entry_def)
  ultimately show ?thesis by (simp add: waiting_list_def fold_insert_after)
qed

lemma waiting_list_snoc: "waiting_list (q @ [x]) = serve_insert (entry x) (waiting_list q)"
  by (simp add: waiting_list_def)

lemma waiting_list_Nil: "waiting_list [] = []"
  by (simp add: waiting_list_def)

lemma waiting_list_empty: "waiting_list q = [] \<longleftrightarrow> q = []"
proof -
  have "set (waiting_list q) = entry ` set q" by (simp add: waiting_list_def)
  then show ?thesis by (metis image_is_empty set_empty)
qed

section \<open>The contract holds\<close>

definition queue_waiting :: "PacketQueue \<Rightarrow> (Packet \<times> int) list" where
  "queue_waiting q = waiting_list (pq_queue q)"

definition queue_ok :: "PacketQueue \<Rightarrow> bool" where
  "queue_ok q \<longleftrightarrow> pq_running q \<and> window (pq_ticket q) (pq_queue q)"

text \<open>No packet may see \<open>2 ^ 63\<close> younger ones arrive while it waits.\<close>

definition queue_room :: "PacketQueue \<Rightarrow> bool" where
  "queue_room q \<longleftrightarrow> list_all (\<lambda>x. age (pq_ticket q) x < 2 ^ 63) (pq_queue q)"

definition queue_enq :: "Packet \<times> int \<Rightarrow> PacketQueue \<Rightarrow> PacketQueue" where
  "queue_enq x q = (case pq_push (Some (fst x)) (snd x) q of Inr (q', n) \<Rightarrow> q' | Inl e \<Rightarrow> q)"

definition queue_deq :: "PacketQueue \<Rightarrow> (Packet \<times> PacketQueue) option" where
  "queue_deq q = (case pq_get_packet q of (Some p, q') \<Rightarrow> Some (p, q') | (None, q') \<Rightarrow> None)"

lemma queue_enq_eq:
  "queue_enq x q = q\<lparr>pq_queue := pq_queue q @ [\<lparr>qp_packet = fst x, qp_priority = snd x, qp_ticket = pq_ticket q\<rparr>],
                     pq_ticket := pq_ticket q + 1\<rparr>"
  by (simp add: queue_enq_def pq_push_def QueuedPacket_construct_def)

lemma age_Suc:
  assumes "age base x < 2 ^ 63"
  shows "age (base + 1) x = Suc (age base x)"
proof -
  have "base + 1 - qp_ticket x = (base - qp_ticket x) + 1" by simp
  moreover have "unat ((base - qp_ticket x) + 1) = Suc (unat (base - qp_ticket x))"
    using assms by (simp add: age_def unat_word_ariths del: diff_add_cancel add_diff_eq)
  ultimately show ?thesis by (simp only: age_def)
qed

lemma window_push:
  assumes "window base q" "list_all (\<lambda>x. age base x < 2 ^ 63) q" "qp_ticket x = base"
  shows "window (base + 1) (q @ [x])"
proof -
  have new: "age (base + 1) x = 1" using assms(3) by (simp add: age_def)
  have old: "y \<in> set q \<Longrightarrow> age (base + 1) y = Suc (age base y)" for y
    using assms(2) age_Suc [of base y] by (auto simp: list_all_iff)
  show ?thesis
    using assms(1,2) unfolding window_def
    by (auto simp: sorted_wrt_append new old list_all_iff
        elim!: sorted_wrt_mono_rel [rotated])
qed

interpretation pq: stable_queue queue_enq queue_deq queue_waiting queue_ok queue_room
proof unfold_locales
  fix q x
  assume ok: "queue_ok q" and room: "queue_room q"
  then show "queue_ok (queue_enq x q)"
    using window_push by (auto simp: queue_ok_def queue_room_def queue_enq_eq)
  show "queue_waiting (queue_enq x q) = serve_insert x (queue_waiting q)"
    by (simp add: queue_waiting_def queue_enq_eq waiting_list_snoc entry_def)
next
  fix q
  assume ok: "queue_ok q"
  show "queue_deq q = None \<longleftrightarrow> queue_waiting q = []"
    using ok by (auto simp: queue_deq_def pq_get_packet_def queue_ok_def queue_waiting_def
        waiting_list_empty)
  show "by_priority (queue_waiting q)"
    by (simp add: queue_waiting_def waiting_list_def fold_insert_sorted)
next
  fix q p q'
  assume ok: "queue_ok q" and deq: "queue_deq q = Some (p, q')"
  then have q: "pq_queue q \<noteq> []" "p = qp_packet (pq_top (pq_queue q))"
      "q' = q\<lparr>pq_queue := pq_pop (pq_queue q)\<rparr>"
    by (auto simp: queue_deq_def pq_get_packet_def split: if_splits)
  obtain as t bs where s: "pq_top (pq_queue q) = t" "pq_queue q = as @ t # bs"
      "first_best as t bs" "pq_pop (pq_queue q) = as @ bs"
    by (rule pq_top_first [of "pq_ticket q" "pq_queue q"]) (use q(1) ok in \<open>simp_all add: queue_ok_def\<close>)
  then have "queue_waiting q = (p, qp_priority t) # queue_waiting q'"
    using waiting_list_first [OF s(3)] q by (simp add: queue_waiting_def entry_def)
  moreover have "queue_ok q'"
    using ok s window_middle [of "pq_ticket q" as t bs] q(3) by (simp add: queue_ok_def)
  ultimately show "queue_ok q' \<and> (\<exists>k. queue_waiting q = (p, k) # queue_waiting q')" by blast
qed


section \<open>Histories\<close>

text \<open>
  The specification of a queue is a flag (open or closed) and the list of the waiting packets in the
  order of service; \<open>ref_event\<close> is \<open>None\<close> when a pop returns something else than it should.
\<close>

definition ref_result :: "bool \<times> (Packet \<times> int) list \<Rightarrow> Packet option \<Rightarrow> (bool \<times> (Packet \<times> int) list) option" where
  "ref_result s r =
     (case s of
        (True, (p, k) # xs) \<Rightarrow> if r = Some p then Some (True, xs) else None
      | _ \<Rightarrow> if r = None then Some s else None)"

fun ref_event :: "bool \<times> (Packet \<times> int) list \<Rightarrow> queue_event \<Rightarrow> (bool \<times> (Packet \<times> int) list) option" where
  "ref_event (running, xs) (Push p k) = Some (running, serve_insert (p, k) xs)"
| "ref_event (running, xs) Close = Some (False, xs)"
| "ref_event (running, xs) (Pop r) = (if running \<and> xs = [] then None else ref_result (running, xs) r)"
| "ref_event (running, xs) (Pop_timeout r) = ref_result (running, xs) r"

fun ref_run :: "bool \<times> (Packet \<times> int) list \<Rightarrow> queue_event list \<Rightarrow> (bool \<times> (Packet \<times> int) list) option" where
  "ref_run s [] = Some s"
| "ref_run s (e # es) = (case ref_event s e of None \<Rightarrow> None | Some s' \<Rightarrow> ref_run s' es)"

definition queue_window :: "PacketQueue \<Rightarrow> bool" where
  "queue_window q \<longleftrightarrow> window (pq_ticket q) (pq_queue q)"

abbreviation queue_spec :: "PacketQueue \<Rightarrow> bool \<times> (Packet \<times> int) list" where
  "queue_spec q \<equiv> (pq_running q, queue_waiting q)"

lemma get_packet_refines:
  assumes "queue_window q" "pq_get_packet q = (r, q')"
  shows "queue_window q' \<and> ref_result (queue_spec q) r = Some (queue_spec q')"
proof (cases "pq_running q \<and> pq_queue q \<noteq> []")
  case True
  then have ok: "queue_ok q" using assms(1) by (simp add: queue_ok_def queue_window_def)
  have deq: "queue_deq q = Some (the r, q')" "r \<noteq> None" "pq_running q'"
    using True assms(2) by (auto simp: queue_deq_def pq_get_packet_def)
  then show ?thesis
    using pq.deq_Some [OF ok deq(1)] True
    by (auto simp: ref_result_def queue_ok_def queue_window_def)
next
  case False
  then have "r = None" "q' = q" using assms(2) by (auto simp: pq_get_packet_def split: if_splits)
  then show ?thesis
    using False assms(1)
    by (cases "pq_running q")
      (auto simp: ref_result_def queue_waiting_def waiting_list_empty waiting_list_Nil split: list.splits)
qed

lemma push_refines:
  assumes "queue_window q" "queue_room q" "pq_push (Some p) k q = Inr (q', n)"
  shows "queue_window q' \<and> queue_spec q' = (pq_running q, serve_insert (p, k) (queue_waiting q))"
proof -
  have "q' = queue_enq (p, k) q" using assms(3) by (simp add: queue_enq_def)
  then show ?thesis
    using assms(1,2) window_push
    by (auto simp: queue_enq_eq queue_window_def queue_room_def queue_waiting_def waiting_list_snoc entry_def)
qed

lemma queue_step_refines:
  assumes "queue_step q e q'" "queue_window q" "queue_room q"
  shows "queue_window q' \<and> ref_event (queue_spec q) e = Some (queue_spec q')"
  using assms(1)
proof cases
  case (step_push p k n)
  then show ?thesis using push_refines [OF assms(2,3)] by auto
next
  case step_close
  then show ?thesis using assms(2) by (simp add: pq_close_def queue_window_def queue_waiting_def)
next
  case (step_pop r)
  then show ?thesis
    using get_packet_refines [OF assms(2)]
    by (auto simp: pq_ready_def queue_waiting_def waiting_list_empty)
next
  case (step_pop_timeout r)
  then show ?thesis using get_packet_refines [OF assms(2)] by auto
qed

lemma queue_window_initial: "queue_window (PacketQueue_construct c)"
  by (simp add: queue_window_def PacketQueue_construct_def)

text \<open>Pushing a whole list, and popping until nothing comes.\<close>

fun push_all :: "(Packet \<times> int) list \<Rightarrow> PacketQueue \<Rightarrow> PacketQueue" where
  "push_all [] q = q"
| "push_all (x # xs) q = push_all xs (queue_enq x q)"

fun pop_all :: "nat \<Rightarrow> PacketQueue \<Rightarrow> Packet list" where
  "pop_all 0 q = []"
| "pop_all (Suc n) q =
     (case pq_get_packet q of (Some p, q') \<Rightarrow> p # pop_all n q' | (None, q') \<Rightarrow> [])"

lemma pop_all_drain: "pop_all n q = pq.drain n q"
  by (induction n arbitrary: q) (auto simp: queue_deq_def split: prod.splits option.splits)

lemma push_all_ok:
  assumes "queue_ok q" "\<forall>x \<in> set (pq_queue q). age (pq_ticket q) x + length xs \<le> 2 ^ 63"
    "length xs \<le> 2 ^ 63"
  shows "queue_ok (push_all xs q) \<and> queue_waiting (push_all xs q) = fold serve_insert xs (queue_waiting q)"
  using assms
proof (induction xs arbitrary: q)
  case (Cons x xs)
  have room: "queue_room q" using Cons.prems(2) by (fastforce simp: queue_room_def list_all_iff)
  have old: "age (pq_ticket q + 1) y = Suc (age (pq_ticket q) y)" if "y \<in> set (pq_queue q)" for y
    using room that age_Suc by (auto simp: queue_room_def list_all_iff)
  have "age (pq_ticket q + 1) \<lparr>qp_packet = fst x, qp_priority = snd x, qp_ticket = pq_ticket q\<rparr> = 1"
    by (simp add: age_def)
  then have "\<forall>y \<in> set (pq_queue (queue_enq x q)). age (pq_ticket (queue_enq x q)) y + length xs \<le> 2 ^ 63"
    using Cons.prems old by (auto simp: queue_enq_eq)
  then show ?case
    using Cons.IH [of "queue_enq x q"] Cons.prems pq.ok_enq [OF Cons.prems(1) room]
      pq.waiting_enq [OF Cons.prems(1) room] by simp
qed simp

lemma serve_insert_filter:
  "by_priority ys \<Longrightarrow> by_priority (fold serve_insert xs ys) \<and>
     filter (\<lambda>y. snd y = k) (fold serve_insert xs ys) =
     filter (\<lambda>y. snd y = k) ys @ filter (\<lambda>y. snd y = k) xs"
  by (induction xs arbitrary: ys) (auto simp: serve_insert_sorted serve_insert_fifo)

lemma serve_insert_mset: "mset (serve_insert x xs) = add_mset x (mset xs)"
  by (induction xs) auto

lemma fold_insert_mset: "mset (fold serve_insert xs ys) = mset xs + mset ys"
  by (induction xs arbitrary: ys) (auto simp: serve_insert_mset)

lemma fold_insert_sort: "fold serve_insert xs [] = sort_key (\<lambda>x. - snd x) xs"
proof (rule properties_for_sort_key [symmetric])
  show "mset (fold serve_insert xs []) = mset xs" by (simp add: fold_insert_mset)
  show "filter (\<lambda>x. - snd k = - snd x) (fold serve_insert xs []) = filter (\<lambda>x. - snd k = - snd x) xs" for k
    using serve_insert_filter [of "[]" xs "snd k"] by (simp add: eq_commute [of "snd k"])
  show "sorted (map (\<lambda>x. - snd x) (fold serve_insert xs []))"
    using fold_insert_sorted [of "[]" xs] by (simp add: sorted_map)
qed


section \<open>Properties\<close>

text \<open>C8: over any history of pushes, pops, timed pops and a close, however long and however often
  the ticket counter wraps around, the queue behaves like the list of the waiting packets in order
  of service: a pop returns the oldest packet of the highest priority, a blocking pop returns
  nothing only once the queue is closed, and a closed queue keeps its packets but hands out none.
  The history must not let \<open>2 ^ 63\<close> packets overtake one waiting packet.\<close>

theorem queue_refines:
  assumes "queue_run queue_room q es q'" "queue_window q"
  shows "ref_run (queue_spec q) es = Some (queue_spec q')"
  using assms
proof (induction rule: queue_run.induct)
  case (run_cons q e q1 es q2)
  then show ?case using queue_step_refines [of q e q1] by simp
qed simp

text \<open>Packets pushed to a fresh queue come out sorted by descending priority, and packets of the
  same priority in the order they were pushed (a stable sort).\<close>

theorem queue_drains_sorted:
  assumes "length xs < 2 ^ 63"
  shows "pop_all (length xs) (push_all xs (PacketQueue_construct c)) =
           map fst (sort_key (\<lambda>x. - snd x) xs)"
proof -
  let ?q = "PacketQueue_construct c"
  have "queue_ok ?q" "queue_waiting ?q = []"
    by (simp_all add: queue_ok_def PacketQueue_construct_def queue_waiting_def waiting_list_def)
  with push_all_ok [of ?q xs] assms
  have q: "queue_ok (push_all xs ?q)" "queue_waiting (push_all xs ?q) = fold serve_insert xs []"
    by (simp_all add: PacketQueue_construct_def)
  have "length (queue_waiting (push_all xs ?q)) \<le> length xs"
    using q(2) by (simp add: fold_insert_sort)
  then show ?thesis
    using pq.drain_waiting [OF q(1)] q(2) by (simp add: pop_all_drain fold_insert_sort)
qed

text \<open>The comparison operators.  \<open>>\<close> is always the converse of \<open><\<close>, and \<open>>=\<close> of \<open><=\<close>.  Among packets
  whose ages lie in a window of \<open>2 ^ 63\<close> tickets, wrapped around or not, \<open><\<close> orders by priority and
  then puts the younger packet below the older one, so exactly one of \<open><\<close>, \<open>==\<close>, \<open>>\<close> holds.\<close>

theorem queued_packet_order:
  assumes "list_all (\<lambda>x. 0 < age base x \<and> age base x \<le> 2 ^ 63) [a, b]"
  shows "(qp_less a b \<longleftrightarrow> qp_priority a < qp_priority b \<or>
            (qp_priority a = qp_priority b \<and> age base a < age base b))
     \<and> (qp_greater a b \<longleftrightarrow> qp_less b a) \<and> (qp_greater_eq a b \<longleftrightarrow> qp_less_eq b a)
     \<and> (qp_eq a b \<longleftrightarrow> \<not> qp_less a b \<and> \<not> qp_greater a b) \<and> \<not> (qp_less a b \<and> qp_greater a b)"
proof -
  have w: "qp_less a b \<longleftrightarrow> qp_priority a < qp_priority b \<or>
        (qp_priority a = qp_priority b \<and> age base a < age base b)"
      "qp_less b a \<longleftrightarrow> qp_priority b < qp_priority a \<or>
        (qp_priority b = qp_priority a \<and> age base b < age base a)"
    using assms by (simp_all add: qp_less_window)
  have g: "qp_greater a b \<longleftrightarrow> qp_less b a" by (auto simp: qp_greater_def qp_less_def)
  have "qp_ticket a = qp_ticket b \<longleftrightarrow> age base a = age base b"
    by (simp add: age_def word_unat_eq_iff [symmetric])
  then have e: "qp_eq a b \<longleftrightarrow> qp_priority a = qp_priority b \<and> age base a = age base b"
    by (simp add: qp_eq_def)
  have ge: "qp_greater_eq a b \<longleftrightarrow> qp_less_eq b a"
    by (auto simp: qp_greater_eq_def qp_less_eq_def g qp_eq_def)
  show ?thesis unfolding g ge e w by auto
qed

definition queue_sample :: "int \<Rightarrow> Packet" where
  "queue_sample n = \<lparr>pkt_version = V1, pkt_data = [word_of_int n], pkt_connection = None\<rparr>"

text \<open>A history on a queue whose ticket counter is about to wrap around.\<close>

definition old_queue :: PacketQueue where
  "old_queue = \<lparr>pq_callback = False, pq_ticket = 0xFFFFFFFFFFFFFFFF, pq_running = True, pq_queue = []\<rparr>"

theorem queue_refines_witness:
  "\<exists>q'. queue_run queue_room old_queue
     [Push (queue_sample 1) 0, Push (queue_sample 2) 0, Pop (Some (queue_sample 1))] q' \<and>
   ref_run (queue_spec old_queue)
     [Push (queue_sample 1) 0, Push (queue_sample 2) 0, Pop (Some (queue_sample 1))] =
   Some (queue_spec q')"
proof -
  define q1 where "q1 = queue_enq (queue_sample 1, 0) old_queue"
  define q2 where "q2 = queue_enq (queue_sample 2, 0) q1"
  define q3 where "q3 = snd (pq_get_packet q2)"
  have push: "queue_step q (Push p k) (queue_enq (p, k) q)" for p k q
    by (rule step_push [where n = "if pq_callback q then 1 else 0"])
      (simp add: queue_enq_def pq_push_def QueuedPacket_construct_def)
  have pop: "pq_ready q2" "pq_get_packet q2 = (Some (queue_sample 1), q3)"
    by (simp_all add: q3_def q2_def q1_def queue_enq_eq old_queue_def pq_ready_def pq_get_packet_def
        pq_top_def qp_less_def half_max_def)
  have room: "queue_room old_queue" "queue_room q1" "queue_room q2"
    by (simp_all add: q2_def q1_def queue_room_def queue_enq_eq old_queue_def age_def)
  have run: "queue_run queue_room old_queue
      [Push (queue_sample 1) 0, Push (queue_sample 2) 0, Pop (Some (queue_sample 1))] q3"
    using push [of old_queue "queue_sample 1" 0] push [of q1 "queue_sample 2" 0] pop room
    unfolding q1_def [symmetric] q2_def [symmetric]
    by (intro run_cons room step_pop) (assumption | rule run_nil)+
  moreover have "queue_window old_queue" by (simp add: queue_window_def old_queue_def)
  ultimately show ?thesis using queue_refines [OF run] by blast
qed

theorem queue_drains_sorted_witness:
  "pop_all 3 (push_all [(queue_sample 1, 0), (queue_sample 2, 5), (queue_sample 3, 5)]
     (PacketQueue_construct True)) = [queue_sample 2, queue_sample 3, queue_sample 1]"
  using queue_drains_sorted [of "[(queue_sample 1, 0), (queue_sample 2, 5), (queue_sample 3, 5)]" True]
  by (simp add: numeral_3_eq_3 del: pop_all.simps push_all.simps)

theorem queued_packet_order_witness:
  "qp_less \<lparr>qp_packet = queue_sample 1, qp_priority = 0, qp_ticket = 0\<rparr>
           \<lparr>qp_packet = queue_sample 2, qp_priority = 0, qp_ticket = 0xFFFFFFFFFFFFFFFF\<rparr>"
  using queued_packet_order [of 1
      "\<lparr>qp_packet = queue_sample 1, qp_priority = 0, qp_ticket = 0\<rparr>"
      "\<lparr>qp_packet = queue_sample 2, qp_priority = 0, qp_ticket = 0xFFFFFFFFFFFFFFFF\<rparr>"]
  by (simp add: age_def)

end
