(* ===== verification/CxxMap.thy ===== *)
theory CxxMap
  imports MtPrelude
begin

text \<open>
  \<open>std::map\<close> as an association list with strictly increasing keys, so that a loop over the
  map visits the entries in the order the C++ iterator does.  The interface the components rely on
  is the locale \<open>ordered_map\<close>; its facts are proved once there and reach the components through
  the interpretation \<open>cmap\<close>.
\<close>

section \<open>The interface\<close>

locale ordered_map =
  fixes empty :: 'm
    and put :: "'k::linorder \<Rightarrow> 'v \<Rightarrow> 'm \<Rightarrow> 'm"
    and erase :: "'k \<Rightarrow> 'm \<Rightarrow> 'm"
    and find :: "'m \<Rightarrow> 'k \<rightharpoonup> 'v"
    and keys :: "'m \<Rightarrow> 'k list"
    and wf :: "'m \<Rightarrow> bool"
  assumes find_empty: "find empty = Map.empty"
    and find_put: "wf m \<Longrightarrow> find (put k v m) = (find m)(k \<mapsto> v)"
    and find_erase: "wf m \<Longrightarrow> find (erase k m) = (find m)(k := None)"
    and set_keys: "wf m \<Longrightarrow> set (keys m) = dom (find m)"
    and sorted_keys: "wf m \<Longrightarrow> sorted_wrt (<) (keys m)"
    and wf_empty: "wf empty"
    and wf_put: "wf m \<Longrightarrow> wf (put k v m)"
    and wf_erase: "wf m \<Longrightarrow> wf (erase k m)"
begin

lemma keys_determined: "wf m \<Longrightarrow> keys m = sorted_list_of_set (dom (find m))"
  using sorted_keys [of m] set_keys [of m]
  by (metis sorted_list_of_set.idem_if_sorted_distinct strict_sorted_iff)

lemma distinct_keys: "wf m \<Longrightarrow> distinct (keys m)"
  using sorted_keys strict_sorted_iff by blast

lemma keys_put_present: "wf m \<Longrightarrow> find m k = Some w \<Longrightarrow> keys (put k v m) = keys m"
  by (simp add: keys_determined wf_put find_put insert_absorb domI)

lemma keys_put_set: "wf m \<Longrightarrow> set (keys (put k v m)) = insert k (set (keys m))"
  by (simp add: set_keys wf_put find_put)

lemma keys_erase_set: "wf m \<Longrightarrow> set (keys (erase k m)) = set (keys m) - {k}"
  by (simp add: set_keys wf_erase find_erase)

lemma find_put_other: "wf m \<Longrightarrow> j \<noteq> k \<Longrightarrow> find (put k v m) j = find m j"
  by (simp add: find_put)

end

section \<open>The implementation\<close>

text \<open>\<open>insert_or_assign\<close> (and \<open>operator[]\<close> followed by an assignment), \<open>erase\<close> and \<open>find\<close>.\<close>

fun map_put :: "'k::linorder \<Rightarrow> 'v \<Rightarrow> ('k \<times> 'v) list \<Rightarrow> ('k \<times> 'v) list" where
  "map_put k v [] = [(k, v)]"
| "map_put k v ((j, w) # m) =
     (if k < j then (k, v) # (j, w) # m
      else if k = j then (k, v) # m
      else (j, w) # map_put k v m)"

fun map_erase :: "'k::linorder \<Rightarrow> ('k \<times> 'v) list \<Rightarrow> ('k \<times> 'v) list" where
  "map_erase k [] = []"
| "map_erase k ((j, w) # m) = (if k = j then m else (j, w) # map_erase k m)"

definition map_wf :: "('k::linorder \<times> 'v) list \<Rightarrow> bool" where
  "map_wf m \<longleftrightarrow> sorted_wrt (<) (map fst m)"

lemma map_wf_simps [simp]:
  "map_wf []"
  "map_wf ((k, v) # m) \<longleftrightarrow> (\<forall>j \<in> fst ` set m. k < j) \<and> map_wf m"
  by (auto simp: map_wf_def)

lemma fst_set_map_put: "fst ` set (map_put k v m) = insert k (fst ` set m)"
  by (induction k v m rule: map_put.induct) (simp_all add: insert_commute)

lemma fst_set_map_erase: "fst ` set (map_erase k m) \<subseteq> fst ` set m"
  by (induction k m rule: map_erase.induct) (simp_all add: subset_insertI subset_insertI2)

lemma map_wf_put: "map_wf m \<Longrightarrow> map_wf (map_put k v m)"
  by (induction m) (fastforce simp: fst_set_map_put)+

lemma map_wf_erase: "map_wf m \<Longrightarrow> map_wf (map_erase k m)"
  by (induction m) (use fst_set_map_erase in fastforce)+

lemma map_of_put: "map_wf m \<Longrightarrow> map_of (map_put k v m) = (map_of m)(k \<mapsto> v)"
  by (induction m) auto

lemma map_of_None_below: "\<forall>j \<in> fst ` set m. (k :: 'k::linorder) < j \<Longrightarrow> map_of m k = None"
  by (force simp: map_of_eq_None_iff)

lemma map_of_erase: "map_wf m \<Longrightarrow> map_of (map_erase k m) = (map_of m)(k := None)"
  by (induction m) (auto simp: map_of_None_below fun_upd_twist intro!: ext)

interpretation cmap: ordered_map "[]" map_put map_erase map_of "map fst" map_wf
  by unfold_locales
    (auto simp: map_of_put map_of_erase map_wf_put map_wf_erase dom_map_of_conv_image_fst
      map_wf_def [symmetric] intro: map_wf_def [THEN iffD1])

end
