(* ===== verification/AddrPool.thy ===== *)
theory AddrPool
  imports MavAddress CxxMap
begin

text \<open>
  \<open>AddressPool\<close>: the addresses heard on a connection, each with the time it was last heard.  A
  reading of the clock is an argument of the operation that takes it.  Expired entries are removed
  only when an operation comes across them; over any history with a clock that does not run
  backwards this cannot be told from a pool that forgets on time.
\<close>

section \<open>The pool\<close>

text \<open>\<open>std::map<MAVAddress, time_point>\<close>; times and the timeout are numbers of clock ticks.\<close>

record AddressPool =
  ap_addresses :: "(MAVAddress \<times> int) list"
  ap_timeout :: int

definition AddressPool_construct :: "int \<Rightarrow> AddressPool" where
  "AddressPool_construct timeout = \<lparr>ap_addresses = [], ap_timeout = timeout\<rparr>"

definition pool_add :: "int \<Rightarrow> MAVAddress \<Rightarrow> AddressPool \<Rightarrow> AddressPool" where
  "pool_add now a p = p\<lparr>ap_addresses := map_put a now (ap_addresses p)\<rparr>"

text \<open>The loop of \<open>addresses\<close>: the addresses returned and the map that is left.\<close>

fun expire_loop :: "int \<Rightarrow> int \<Rightarrow> (MAVAddress \<times> int) list \<Rightarrow> MAVAddress list \<times> (MAVAddress \<times> int) list" where
  "expire_loop current_time timeout [] = ([], [])"
| "expire_loop current_time timeout ((a, t) # m) =
     (let r = expire_loop current_time timeout m
      in if current_time - t > timeout then r else (a # fst r, (a, t) # snd r))"

definition pool_addresses :: "int \<Rightarrow> AddressPool \<Rightarrow> MAVAddress list \<times> AddressPool" where
  "pool_addresses now p =
     (let r = expire_loop now (ap_timeout p) (ap_addresses p)
      in (fst r, p\<lparr>ap_addresses := snd r\<rparr>))"

definition pool_contains :: "int \<Rightarrow> MAVAddress \<Rightarrow> AddressPool \<Rightarrow> bool \<times> AddressPool" where
  "pool_contains now a p =
     (case map_of (ap_addresses p) a of
        None \<Rightarrow> (False, p)
      | Some t \<Rightarrow>
          if now - t > ap_timeout p
          then (False, p\<lparr>ap_addresses := map_erase a (ap_addresses p)\<rparr>)
          else (True, p))"

section \<open>The pool as a set of live addresses\<close>

definition pool_wf :: "AddressPool \<Rightarrow> bool" where
  "pool_wf p \<longleftrightarrow> map_wf (ap_addresses p)"

definition live :: "int \<Rightarrow> AddressPool \<Rightarrow> MAVAddress set" where
  "live now p = {a. \<exists>t. map_of (ap_addresses p) a = Some t \<and> now - t \<le> ap_timeout p}"

text \<open>\<open>expire_loop\<close> keeps the entries that have not expired, in order.\<close>

lemma expire_loop_filter:
  "expire_loop now timeout m =
     (map fst (filter (\<lambda>(a, t). now - t \<le> timeout) m), filter (\<lambda>(a, t). now - t \<le> timeout) m)"
  by (induction now timeout m rule: expire_loop.induct) (simp_all add: Let_def not_less)

lemma map_wf_filter: "map_wf m \<Longrightarrow> map_wf (filter P m)"
  by (auto simp: map_wf_def sorted_wrt_map intro: sorted_wrt_filter)

lemma map_of_filter:
  "map_wf m \<Longrightarrow> map_of (filter (\<lambda>(a, t). P t) m) a =
     (case map_of m a of Some t \<Rightarrow> if P t then Some t else None | None \<Rightarrow> None)"
proof (induction m)
  case (Cons x m)
  then show ?case by (cases x) (auto simp: map_of_None_below)
qed simp

lemma pool_addresses_list:
  assumes "pool_wf p"
  shows "fst (pool_addresses now p) = sorted_list_of_set (live now p)"
proof -
  let ?m = "filter (\<lambda>(a, t). now - t \<le> ap_timeout p) (ap_addresses p)"
  have wf: "map_wf ?m" using assms by (simp add: map_wf_filter pool_wf_def)
  have "dom (map_of ?m) = live now p"
    using assms by (auto simp: live_def dom_def map_of_filter pool_wf_def split: option.splits if_splits)
  then show ?thesis
    using cmap.keys_determined [OF wf] by (simp add: pool_addresses_def expire_loop_filter)
qed

lemma finite_live: "finite (live now p)"
proof -
  have "live now p \<subseteq> dom (map_of (ap_addresses p))" by (auto simp: live_def)
  then show ?thesis using finite_dom_map_of finite_subset by blast
qed

lemma pool_contains_live: "fst (pool_contains now a p) \<longleftrightarrow> a \<in> live now p"
  by (auto simp: pool_contains_def live_def split: option.splits)

text \<open>Every operation keeps the invariant and the timeout.\<close>

lemma pool_ops_wf:
  assumes "pool_wf p"
  shows "pool_wf (pool_add now a p)" "pool_wf (snd (pool_addresses now p))"
    "pool_wf (snd (pool_contains now a p))"
  using assms
  by (auto simp: pool_wf_def pool_add_def pool_addresses_def pool_contains_def expire_loop_filter
      cmap.wf_put cmap.wf_erase map_wf_filter split: option.splits)

lemma pool_ops_timeout [simp]:
  "ap_timeout (pool_add now a p) = ap_timeout p"
  "ap_timeout (snd (pool_addresses now p)) = ap_timeout p"
  "ap_timeout (snd (pool_contains now b p)) = ap_timeout p"
  by (auto simp: pool_add_def pool_addresses_def pool_contains_def Let_def split: option.splits)

text \<open>What a purge removes would not have been live later either.\<close>

lemma live_after_purge:
  assumes "pool_wf p" "now \<le> later"
  shows "live later (snd (pool_addresses now p)) = live later p"
    "live later (snd (pool_contains now a p)) = live later p"
proof -
  show "live later (snd (pool_addresses now p)) = live later p"
    using assms
    by (auto simp: live_def pool_addresses_def expire_loop_filter map_of_filter pool_wf_def
        split: option.splits)
  show "live later (snd (pool_contains now a p)) = live later p"
    using assms
    by (auto simp: live_def pool_contains_def cmap.find_erase pool_wf_def
        split: option.splits if_splits)
qed

lemma live_add:
  assumes "pool_wf p" "now \<le> later"
  shows "live later (pool_add now a p) =
    (if later - now \<le> ap_timeout p then insert a (live later p) else live later p - {a})"
  using assms by (auto simp: live_def pool_add_def cmap.find_put pool_wf_def split: if_splits)

section \<open>Histories\<close>

datatype pool_op = Add MAVAddress | Contains MAVAddress | Addresses

datatype pool_out = Added | Answer bool | Listing "MAVAddress list"

definition pool_step :: "int \<Rightarrow> pool_op \<Rightarrow> AddressPool \<Rightarrow> pool_out \<times> AddressPool" where
  "pool_step now op p =
     (case op of
        Add a \<Rightarrow> (Added, pool_add now a p)
      | Contains a \<Rightarrow> map_prod Answer id (pool_contains now a p)
      | Addresses \<Rightarrow> map_prod Listing id (pool_addresses now p))"

fun pool_run :: "(int \<times> pool_op) list \<Rightarrow> AddressPool \<Rightarrow> pool_out list" where
  "pool_run [] p = []"
| "pool_run ((now, op) # h) p = (let r = pool_step now op p in fst r # pool_run h (snd r))"

text \<open>
  The specification remembers when each address was last heard, and forgets nothing: an address is
  in the pool when it was last heard no longer than the timeout ago.
\<close>

definition heard :: "int \<Rightarrow> int \<Rightarrow> (MAVAddress \<rightharpoonup> int) \<Rightarrow> MAVAddress set" where
  "heard timeout now seen = {a. \<exists>t. seen a = Some t \<and> now - t \<le> timeout}"

fun spec_pool :: "int \<Rightarrow> (int \<times> pool_op) list \<Rightarrow> (MAVAddress \<rightharpoonup> int) \<Rightarrow> pool_out list" where
  "spec_pool timeout [] seen = []"
| "spec_pool timeout ((now, Add a) # h) seen = Added # spec_pool timeout h (seen(a \<mapsto> now))"
| "spec_pool timeout ((now, Contains a) # h) seen =
     Answer (a \<in> heard timeout now seen) # spec_pool timeout h seen"
| "spec_pool timeout ((now, Addresses) # h) seen =
     Listing (sorted_list_of_set (heard timeout now seen)) # spec_pool timeout h seen"

definition pool_agrees :: "int \<Rightarrow> AddressPool \<Rightarrow> (MAVAddress \<rightharpoonup> int) \<Rightarrow> bool" where
  "pool_agrees now p seen \<longleftrightarrow>
     pool_wf p \<and> (\<forall>later \<ge> now. live later p = heard (ap_timeout p) later seen)"

lemma pool_run_spec:
  "pool_agrees start p seen \<Longrightarrow> sorted (start # map fst h) \<Longrightarrow>
   pool_run h p = spec_pool (ap_timeout p) h seen"
proof (induction h arbitrary: start p seen)
  case (Cons e h)
  obtain now op where e: "e = (now, op)" by (cases e)
  have now: "start \<le> now" "sorted (now # map fst h)" using Cons.prems(2) e by auto
  have wf: "pool_wf p" and l: "later \<ge> start \<Longrightarrow> live later p = heard (ap_timeout p) later seen" for later
    using Cons.prems(1) by (auto simp: pool_agrees_def)
  show ?case
  proof (cases op)
    case (Add a)
    have "heard (ap_timeout p) later (seen(a \<mapsto> now)) =
        (if later - now \<le> ap_timeout p then insert a (heard (ap_timeout p) later seen)
         else heard (ap_timeout p) later seen - {a})" for later
      by (auto simp: heard_def)
    then have "pool_agrees now (pool_add now a p) (seen(a \<mapsto> now))"
      using wf l now(1) by (simp add: pool_agrees_def pool_ops_wf live_add)
    from Cons.IH [OF this now(2)] show ?thesis by (simp add: e Add pool_step_def fun_upd_def)
  next
    case (Contains a)
    have "pool_agrees now (snd (pool_contains now a p)) seen"
      using wf l now(1) by (simp add: pool_agrees_def pool_ops_wf live_after_purge)
    from Cons.IH [OF this now(2)] show ?thesis
      using l [OF now(1)] by (simp add: e Contains pool_step_def pool_contains_live)
  next
    case Addresses
    have "pool_agrees now (snd (pool_addresses now p)) seen"
      using wf l now(1) by (simp add: pool_agrees_def pool_ops_wf live_after_purge)
    from Cons.IH [OF this now(2)] show ?thesis
      using l [OF now(1)] wf by (simp add: e Addresses pool_step_def pool_addresses_list)
  qed
qed simp

section \<open>Properties\<close>

text \<open>C24: over any history of operations whose clock readings do not decrease, an address is reported
  (by \<open>contains\<close>, and by \<open>addresses\<close>, which lists them in increasing order) exactly when it was
  last added no longer than the timeout ago: lazy removal is never observable.\<close>

theorem pool_history:
  assumes "sorted (map fst h)"
  shows "pool_run h (AddressPool_construct timeout) = spec_pool timeout h Map.empty"
proof (cases h)
  case (Cons e h')
  have "pool_agrees (fst e) (AddressPool_construct timeout) Map.empty"
    by (simp add: pool_agrees_def AddressPool_construct_def pool_wf_def live_def heard_def)
  from pool_run_spec [OF this, of h] show ?thesis
    using assms Cons by (simp add: AddressPool_construct_def)
qed simp

theorem pool_history_witness:
  "pool_run [(0, Add (MkMAVAddress 5)), (3, Add (MkMAVAddress 2)), (10, Addresses),
             (12, Contains (MkMAVAddress 5))] (AddressPool_construct 10) =
   [Added, Added, Listing [MkMAVAddress 2, MkMAVAddress 5], Answer False]"
proof -
  let ?seen = "Map.empty(MkMAVAddress 5 \<mapsto> 0, MkMAVAddress 2 \<mapsto> 3) :: MAVAddress \<rightharpoonup> int"
  have "heard 10 10 ?seen = {MkMAVAddress 2, MkMAVAddress 5}" "MkMAVAddress 5 \<notin> heard 10 12 ?seen"
    by (auto simp: heard_def split: if_splits)
  then show ?thesis
    using pool_history [of "[(0, Add (MkMAVAddress 5)), (3, Add (MkMAVAddress 2)), (10, Addresses),
             (12, Contains (MkMAVAddress 5))]" 10]
    by (simp add: less_MAVAddress_def less_eq_MAVAddress_def MAVAddress_less_def MAVAddress_less_eq_def)
qed

end
