(* ===== verification/FilterRules.thy ===== *)
theory FilterRules
  imports MavPacket MavSubnet
begin

text \<open>
  The firewall: \<open>Action\<close>, \<open>If\<close>, the rules \<open>Accept\<close>, \<open>Reject\<close>, \<open>Call\<close> and \<open>GoTo\<close>, \<open>Chain\<close> with its
  \<open>RecursionGuard\<close>, and \<open>Filter\<close>.  Chains are shared and refer to each other, so they live in a
  list and a chain pointer is an index into it.  The thread sets of the recursion guards are an
  explicit state, and the evaluation of a chain takes a bound on the nesting of chains; the
  number of chains is always enough, because the guard stops a chain from being entered twice.
\<close>

section \<open>Action\<close>

datatype action_option = ACCEPT | REJECT | CONTINUE | DEFAULT

record Action =
  act_option :: action_option
  act_priority :: "int option"

definition action_set_priority :: "int \<Rightarrow> Action \<Rightarrow> Action" where
  "action_set_priority priority a =
     (if act_option a = ACCEPT
      then (if act_priority a = None then a\<lparr>act_priority := Some priority\<rparr> else a)
      else a)"

definition action_priority :: "Action \<Rightarrow> int" where
  "action_priority a = (case act_priority a of Some p \<Rightarrow> p | None \<Rightarrow> 0)"

definition make_accept :: "int option \<Rightarrow> Action" where
  "make_accept priority = \<lparr>act_option = ACCEPT, act_priority = priority\<rparr>"

definition make_reject :: Action where
  "make_reject = \<lparr>act_option = REJECT, act_priority = None\<rparr>"

definition make_continue :: Action where
  "make_continue = \<lparr>act_option = CONTINUE, act_priority = None\<rparr>"

definition make_default :: Action where
  "make_default = \<lparr>act_option = DEFAULT, act_priority = None\<rparr>"

text \<open>The comparison operators go through \<open>priority()\<close>, so no priority equals priority 0.\<close>

definition action_eq :: "Action \<Rightarrow> Action \<Rightarrow> bool" where
  "action_eq lhs rhs \<longleftrightarrow> act_option lhs = act_option rhs \<and> action_priority lhs = action_priority rhs"

definition show_Action :: "Action \<Rightarrow> string" where
  "show_Action a =
     (case act_option a of
        ACCEPT \<Rightarrow> ''accept'' @
          (if action_priority a \<noteq> 0 then '' with priority '' @ show_int (action_priority a) else [])
      | REJECT \<Rightarrow> ''reject''
      | CONTINUE \<Rightarrow> ''continue''
      | DEFAULT \<Rightarrow> ''default'')"

section \<open>If\<close>

record If =
  if_id :: "u64 option"
  if_source :: "MAVSubnet option"
  if_dest :: "MAVSubnet option"

text \<open>\<open>type(unsigned long)\<close> looks the ID up and throws when it is unknown.\<close>

definition If_type :: "mavlink_lib \<Rightarrow> u64 \<Rightarrow> If \<Rightarrow> cpp_error + If" where
  "If_type ml i c =
     (case mavlink_name ml i of Inl e \<Rightarrow> Inl e | Inr _ \<Rightarrow> Inr (c\<lparr>if_id := Some i\<rparr>))"

definition If_construct ::
  "mavlink_lib \<Rightarrow> u64 option \<Rightarrow> MAVSubnet option \<Rightarrow> MAVSubnet option \<Rightarrow> cpp_error + If" where
  "If_construct ml i source dest =
     (let c = \<lparr>if_id = None, if_source = source, if_dest = dest\<rparr>
      in case i of None \<Rightarrow> Inr c | Some n \<Rightarrow> If_type ml n c)"

definition If_type_name :: "mavlink_lib \<Rightarrow> string \<Rightarrow> If \<Rightarrow> cpp_error + If" where
  "If_type_name ml name c =
     (case mavlink_id ml name of Inl e \<Rightarrow> Inl e | Inr i \<Rightarrow> Inr (c\<lparr>if_id := Some i\<rparr>))"

definition If_from :: "MAVSubnet \<Rightarrow> If \<Rightarrow> If" where
  "If_from subnet c = c\<lparr>if_source := Some subnet\<rparr>"

definition If_from_string :: "(string \<Rightarrow> string list) \<Rightarrow> string \<Rightarrow> If \<Rightarrow> cpp_error + If" where
  "If_from_string tok s c =
     (case MAVSubnet_of_string tok s of Inl e \<Rightarrow> Inl e | Inr n \<Rightarrow> Inr (If_from n c))"

definition If_to :: "MAVSubnet \<Rightarrow> If \<Rightarrow> If" where
  "If_to subnet c = c\<lparr>if_dest := Some subnet\<rparr>"

definition If_to_string :: "(string \<Rightarrow> string list) \<Rightarrow> string \<Rightarrow> If \<Rightarrow> cpp_error + If" where
  "If_to_string tok s c =
     (case MAVSubnet_of_string tok s of Inl e \<Rightarrow> Inl e | Inr n \<Rightarrow> Inr (If_to n c))"

text \<open>\<open>check\<close>; the source address of the packet is only asked for when it is needed.\<close>

definition If_check :: "If \<Rightarrow> Packet \<Rightarrow> MAVAddress \<Rightarrow> cpp_error + bool" where
  "If_check c packet addr =
     (let r1 = (case if_id c of Some i \<Rightarrow> packet_id packet = i | None \<Rightarrow> True);
          r3 = (case if_dest c of Some s \<Rightarrow> contains s addr | None \<Rightarrow> True)
      in case if_source c of
           None \<Rightarrow> Inr (r1 \<and> r3)
         | Some s \<Rightarrow>
             (case packet_source packet of
                Inl e \<Rightarrow> Inl e
              | Inr src \<Rightarrow> Inr (r1 \<and> contains s src \<and> r3)))"

definition If_eq :: "If \<Rightarrow> If \<Rightarrow> bool" where
  "If_eq lhs rhs \<longleftrightarrow>
     if_id lhs = if_id rhs \<and> if_source lhs = if_source rhs \<and> if_dest lhs = if_dest rhs"

definition show_opt_subnet :: "string \<Rightarrow> MAVSubnet option \<Rightarrow> cpp_error + string" where
  "show_opt_subnet word s =
     (case s of
        None \<Rightarrow> Inr []
      | Some n \<Rightarrow> (case show_MAVSubnet n of Inl e \<Rightarrow> Inl e | Inr t \<Rightarrow> Inr (word @ t)))"

definition show_If :: "mavlink_lib \<Rightarrow> If \<Rightarrow> cpp_error + string" where
  "show_If ml c =
     (if if_id c = None \<and> if_source c = None \<and> if_dest c = None then Inr ''if any''
      else
        (case (case if_id c of None \<Rightarrow> Inr [] | Some i \<Rightarrow> map_sum id ((@) '' '') (mavlink_name ml i)) of
           Inl e \<Rightarrow> Inl e
         | Inr a \<Rightarrow>
             (case show_opt_subnet '' from '' (if_source c) of
                Inl e \<Rightarrow> Inl e
              | Inr b \<Rightarrow>
                  (case show_opt_subnet '' to '' (if_dest c) of
                     Inl e \<Rightarrow> Inl e
                   | Inr d \<Rightarrow> Inr (''if'' @ a @ b @ d)))))"

section \<open>Rules and chains\<close>

type_synonym chain_ref = nat
type_synonym thread_id = nat

text \<open>The subclasses of \<open>Rule\<close>; \<open>condition_\<close> is the field of the base class.\<close>

datatype Rule =
    Accept "int option" (rule_condition: "If option")
  | Reject (rule_condition: "If option")
  | Call chain_ref "int option" (rule_condition: "If option")
  | GoTo chain_ref "int option" (rule_condition: "If option")

text \<open>The constructors of \<open>Call\<close> and \<open>GoTo\<close> reject the null pointer.\<close>

definition Call_construct :: "chain_ref option \<Rightarrow> int option \<Rightarrow> If option \<Rightarrow> cpp_error + Rule" where
  "Call_construct chain priority condition =
     (case chain of
        None \<Rightarrow> Inl (Invalid_argument ''Given chain pointer is null.'')
      | Some c \<Rightarrow> Inr (Call c priority condition))"

definition GoTo_construct :: "chain_ref option \<Rightarrow> int option \<Rightarrow> If option \<Rightarrow> cpp_error + Rule" where
  "GoTo_construct chain priority condition =
     (case chain of
        None \<Rightarrow> Inl (Invalid_argument ''Given chain pointer is null.'')
      | Some c \<Rightarrow> Inr (GoTo c priority condition))"

text \<open>\<open>clone\<close> of each rule, with the constructor each branch calls, and the virtual dispatch.\<close>

definition Accept_clone :: "int option \<Rightarrow> If option \<Rightarrow> cpp_error + Rule" where
  "Accept_clone priority condition =
     (case priority of
        Some p \<Rightarrow> Inr (Accept (Some p) condition)
      | None \<Rightarrow> Inr (Accept None condition))"

definition Reject_clone :: "If option \<Rightarrow> cpp_error + Rule" where
  "Reject_clone condition = Inr (Reject condition)"

definition Call_clone :: "chain_ref \<Rightarrow> int option \<Rightarrow> If option \<Rightarrow> cpp_error + Rule" where
  "Call_clone chain priority condition =
     (case priority of
        Some p \<Rightarrow> Call_construct (Some chain) (Some p) condition
      | None \<Rightarrow> Call_construct (Some chain) None condition)"

definition GoTo_clone :: "chain_ref \<Rightarrow> int option \<Rightarrow> If option \<Rightarrow> cpp_error + Rule" where
  "GoTo_clone chain priority condition =
     (case priority of
        Some p \<Rightarrow> GoTo_construct (Some chain) (Some p) condition
      | None \<Rightarrow> GoTo_construct (Some chain) None condition)"

definition rule_clone :: "Rule \<Rightarrow> cpp_error + Rule" where
  "rule_clone r =
     (case r of
        Accept p c \<Rightarrow> Accept_clone p c
      | Reject c \<Rightarrow> Reject_clone c
      | Call ch p c \<Rightarrow> Call_clone ch p c
      | GoTo ch p c \<Rightarrow> GoTo_clone ch p c)"

lemmas clone_defs = rule_clone_def Accept_clone_def Reject_clone_def Call_clone_def GoTo_clone_def
  Call_construct_def GoTo_construct_def

text \<open>
  \<open>operator==\<close> of each rule: the types must agree, then the fields are compared.  Chain pointers are
  compared as pointers, not as chains.
\<close>

definition opt_If_eq :: "If option \<Rightarrow> If option \<Rightarrow> bool" where
  "opt_If_eq lhs rhs =
     (case (lhs, rhs) of (None, None) \<Rightarrow> True | (Some a, Some b) \<Rightarrow> If_eq a b | _ \<Rightarrow> False)"

definition Accept_eq :: "int option \<Rightarrow> If option \<Rightarrow> Rule \<Rightarrow> bool" where
  "Accept_eq priority condition other =
     (case other of Accept p c \<Rightarrow> priority = p \<and> opt_If_eq condition c | _ \<Rightarrow> False)"

definition Reject_eq :: "If option \<Rightarrow> Rule \<Rightarrow> bool" where
  "Reject_eq condition other = (case other of Reject c \<Rightarrow> opt_If_eq condition c | _ \<Rightarrow> False)"

definition Call_eq :: "chain_ref \<Rightarrow> int option \<Rightarrow> If option \<Rightarrow> Rule \<Rightarrow> bool" where
  "Call_eq chain priority condition other =
     (case other of
        Call ch p c \<Rightarrow> chain = ch \<and> priority = p \<and> opt_If_eq condition c
      | _ \<Rightarrow> False)"

definition GoTo_eq :: "chain_ref \<Rightarrow> int option \<Rightarrow> If option \<Rightarrow> Rule \<Rightarrow> bool" where
  "GoTo_eq chain priority condition other =
     (case other of
        GoTo ch p c \<Rightarrow> chain = ch \<and> priority = p \<and> opt_If_eq condition c
      | _ \<Rightarrow> False)"

definition rule_eq :: "Rule \<Rightarrow> Rule \<Rightarrow> bool" where
  "rule_eq lhs rhs =
     (case lhs of
        Accept p c \<Rightarrow> Accept_eq p c rhs
      | Reject c \<Rightarrow> Reject_eq c rhs
      | Call ch p c \<Rightarrow> Call_eq ch p c rhs
      | GoTo ch p c \<Rightarrow> GoTo_eq ch p c rhs)"

lemmas rule_eq_defs = rule_eq_def Accept_eq_def Reject_eq_def Call_eq_def GoTo_eq_def opt_If_eq_def

record Chain =
  chain_name :: string
  chain_rules :: "Rule list"

definition Chain_construct :: "string \<Rightarrow> Rule list \<Rightarrow> cpp_error + Chain" where
  "Chain_construct name rules =
     (if list_ex (\<lambda>c. c \<in> set [CHR 0x09, CHR 0x0A, CHR '' '']) name
      then Inl (Invalid_argument ''Chain names cannot contain whitespace.'')
      else Inr \<lparr>chain_name = name, chain_rules = rules\<rparr>)"

definition chain_append :: "Rule \<Rightarrow> Chain \<Rightarrow> Chain" where
  "chain_append rule c = c\<lparr>chain_rules := chain_rules c @ [rule]\<rparr>"

text \<open>The copy constructor and the assignment clone rule by rule.\<close>

fun clone_rules :: "Rule list \<Rightarrow> cpp_error + Rule list" where
  "clone_rules [] = Inr []"
| "clone_rules (r # rs) =
     (case rule_clone r of
        Inl e \<Rightarrow> Inl e
      | Inr r' \<Rightarrow> (case clone_rules rs of Inl e \<Rightarrow> Inl e | Inr rs' \<Rightarrow> Inr (r' # rs')))"

definition chain_copy :: "Chain \<Rightarrow> cpp_error + Chain" where
  "chain_copy other =
     (case clone_rules (chain_rules other) of
        Inl e \<Rightarrow> Inl e
      | Inr rs \<Rightarrow> Inr \<lparr>chain_name = chain_name other, chain_rules = rs\<rparr>)"

definition chain_eq :: "Chain \<Rightarrow> Chain \<Rightarrow> bool" where
  "chain_eq lhs rhs \<longleftrightarrow>
     chain_name lhs = chain_name rhs \<and>
     length (chain_rules lhs) = length (chain_rules rhs) \<and>
     list_all (\<lambda>i. rule_eq (chain_rules lhs ! i) (chain_rules rhs ! i)) [0..<length (chain_rules lhs)]"

section \<open>Evaluation\<close>

text \<open>
  \<open>RecursionData\<close>: for every chain the threads that are evaluating it.  The constructor of the guard
  throws when the thread is already in the set; the destructor removes it.
\<close>

type_synonym guards = "chain_ref \<Rightarrow> thread_id set"

definition guard_enter :: "thread_id \<Rightarrow> chain_ref \<Rightarrow> guards \<Rightarrow> cpp_error + guards" where
  "guard_enter t r g =
     (if t \<in> g r then Inl (RecursionError ''Recursion detected.'')
      else Inr (g(r := insert t (g r))))"

definition guard_exit :: "thread_id \<Rightarrow> chain_ref \<Rightarrow> guards \<Rightarrow> guards" where
  "guard_exit t r g = g(r := g r - {t})"

text \<open>
  Copying and moving never take the threads along: the new object has none, and an object that is
  assigned to loses its own, so that it can be entered again.
\<close>

definition RecursionData_copy :: "chain_ref \<Rightarrow> guards \<Rightarrow> guards" where
  "RecursionData_copy new g = g(new := {})"

definition RecursionData_assign :: "chain_ref \<Rightarrow> guards \<Rightarrow> guards" where
  "RecursionData_assign r g = g(r := {})"

lemma recursion_data_forgets:
  "guard_enter t new (RecursionData_copy new g) = Inr (g(new := {t}))"
  "guard_enter t r (RecursionData_assign r g) = Inr (g(r := {t}))"
  by (simp_all add: guard_enter_def RecursionData_copy_def RecursionData_assign_def)

text \<open>The result of an evaluation: nothing when the nesting bound is used up.\<close>

type_synonym eval = "((cpp_error + Action) \<times> guards) option"

text \<open>\<open>!condition_ || condition_->check(packet, address)\<close>\<close>

definition condition_holds :: "If option \<Rightarrow> Packet \<Rightarrow> MAVAddress \<Rightarrow> cpp_error + bool" where
  "condition_holds condition packet addr =
     (case condition of None \<Rightarrow> Inr True | Some c \<Rightarrow> If_check c packet addr)"

text \<open>The four \<open>action\<close> methods; \<open>call\<close> is the \<open>action\<close> method of the chain pointed to.\<close>

definition Accept_action ::
  "int option \<Rightarrow> If option \<Rightarrow> Packet \<Rightarrow> MAVAddress \<Rightarrow> cpp_error + Action" where
  "Accept_action priority condition packet addr =
     (case condition_holds condition packet addr of
        Inl e \<Rightarrow> Inl e
      | Inr b \<Rightarrow> Inr (if b then make_accept priority else make_continue))"

definition Reject_action :: "If option \<Rightarrow> Packet \<Rightarrow> MAVAddress \<Rightarrow> cpp_error + Action" where
  "Reject_action condition packet addr =
     (case condition_holds condition packet addr of
        Inl e \<Rightarrow> Inl e
      | Inr b \<Rightarrow> Inr (if b then make_reject else make_continue))"

definition apply_priority :: "int option \<Rightarrow> Action \<Rightarrow> Action" where
  "apply_priority p a = (case p of Some k \<Rightarrow> action_set_priority k a | None \<Rightarrow> a)"

definition Call_action ::
  "(chain_ref \<Rightarrow> guards \<Rightarrow> eval) \<Rightarrow> chain_ref \<Rightarrow> int option \<Rightarrow> If option \<Rightarrow>
   Packet \<Rightarrow> MAVAddress \<Rightarrow> guards \<Rightarrow> eval" where
  "Call_action call chain priority condition packet addr g =
     (case condition_holds condition packet addr of
        Inl e \<Rightarrow> Some (Inl e, g)
      | Inr b \<Rightarrow>
          if b then
            (case call chain g of
               None \<Rightarrow> None
             | Some (Inl e, g') \<Rightarrow> Some (Inl e, g')
             | Some (Inr result, g') \<Rightarrow> Some (Inr (apply_priority priority result), g'))
          else Some (Inr make_continue, g))"

text \<open>\<open>GoTo\<close> rewrites continue into default: control does not come back.\<close>

definition GoTo_action ::
  "(chain_ref \<Rightarrow> guards \<Rightarrow> eval) \<Rightarrow> chain_ref \<Rightarrow> int option \<Rightarrow> If option \<Rightarrow>
   Packet \<Rightarrow> MAVAddress \<Rightarrow> guards \<Rightarrow> eval" where
  "GoTo_action call chain priority condition packet addr g =
     (case condition_holds condition packet addr of
        Inl e \<Rightarrow> Some (Inl e, g)
      | Inr b \<Rightarrow>
          if b then
            (case call chain g of
               None \<Rightarrow> None
             | Some (Inl e, g') \<Rightarrow> Some (Inl e, g')
             | Some (Inr a, g') \<Rightarrow>
                 (let result = apply_priority priority a in
                  Some (Inr (if act_option result = CONTINUE then make_default else result), g')))
          else Some (Inr make_continue, g))"

definition rule_action ::
  "(chain_ref \<Rightarrow> guards \<Rightarrow> eval) \<Rightarrow> Packet \<Rightarrow> MAVAddress \<Rightarrow> Rule \<Rightarrow> guards \<Rightarrow> eval" where
  "rule_action call packet addr r g =
     (case r of
        Accept p c \<Rightarrow> Some (Accept_action p c packet addr, g)
      | Reject c \<Rightarrow> Some (Reject_action c packet addr, g)
      | Call ch p c \<Rightarrow> Call_action call ch p c packet addr g
      | GoTo ch p c \<Rightarrow> GoTo_action call ch p c packet addr g)"

lemmas action_defs = rule_action_def Accept_action_def Reject_action_def Call_action_def GoTo_action_def

text \<open>The loop of \<open>Chain::action\<close>.\<close>

fun rules_action ::
  "(chain_ref \<Rightarrow> guards \<Rightarrow> eval) \<Rightarrow> Packet \<Rightarrow> MAVAddress \<Rightarrow> Rule list \<Rightarrow> guards \<Rightarrow> eval" where
  "rules_action call packet addr [] g = Some (Inr make_continue, g)"
| "rules_action call packet addr (r # rs) g =
     (case rule_action call packet addr r g of
        None \<Rightarrow> None
      | Some (Inl e, g') \<Rightarrow> Some (Inl e, g')
      | Some (Inr a, g') \<Rightarrow>
          if act_option a \<noteq> CONTINUE then Some (Inr a, g')
          else rules_action call packet addr rs g')"

definition chain_at :: "Chain list \<Rightarrow> chain_ref \<Rightarrow> Chain option" where
  "chain_at chs r = (if r < length chs then Some (chs ! r) else None)"

primrec chain_action ::
  "Chain list \<Rightarrow> thread_id \<Rightarrow> nat \<Rightarrow> Packet \<Rightarrow> MAVAddress \<Rightarrow> chain_ref \<Rightarrow> guards \<Rightarrow> eval" where
  "chain_action chs t 0 packet addr r g = None"
| "chain_action chs t (Suc n) packet addr r g =
     (case chain_at chs r of
        None \<Rightarrow> Some (Inl (Undefined_behaviour ''dangling chain''), g)
      | Some ch \<Rightarrow>
          (case guard_enter t r g of
             Inl e \<Rightarrow> Some (Inl e, g)
           | Inr g1 \<Rightarrow>
               (case rules_action (chain_action chs t n packet addr) packet addr (chain_rules ch) g1 of
                  None \<Rightarrow> None
                | Some (res, g2) \<Rightarrow> Some (res, guard_exit t r g2))))"

section \<open>Filter\<close>

text \<open>The default chain is the chain \<open>default_chain\<close> of the list; no rule refers to it.\<close>

record Filter =
  filter_chains :: "Chain list"
  default_chain :: chain_ref
  accept_by_default :: bool

definition nesting :: "Filter \<Rightarrow> nat" where
  "nesting f = Suc (length (filter_chains f))"

definition will_accept ::
  "Filter \<Rightarrow> thread_id \<Rightarrow> Packet \<Rightarrow> MAVAddress \<Rightarrow> guards \<Rightarrow> ((cpp_error + (bool \<times> int)) \<times> guards) option" where
  "will_accept f t packet addr g =
     (case chain_action (filter_chains f) t (nesting f) packet addr (default_chain f) g of
        None \<Rightarrow> None
      | Some (Inl e, g') \<Rightarrow> Some (Inl e, g')
      | Some (Inr a, g') \<Rightarrow>
          Some (Inr (case act_option a of
                  ACCEPT \<Rightarrow> (True, action_priority a)
                | REJECT \<Rightarrow> (False, 0)
                | CONTINUE \<Rightarrow> (accept_by_default f, 0)
                | DEFAULT \<Rightarrow> (accept_by_default f, 0)), g'))"

definition filter_eq :: "Filter \<Rightarrow> Filter \<Rightarrow> bool" where
  "filter_eq lhs rhs \<longleftrightarrow>
     chain_eq (filter_chains lhs ! default_chain lhs) (filter_chains rhs ! default_chain rhs) \<and>
     accept_by_default lhs = accept_by_default rhs"

section \<open>Printing\<close>

definition show_priority :: "int option \<Rightarrow> string" where
  "show_priority p = (case p of Some k \<Rightarrow> '' with priority '' @ show_int k | None \<Rightarrow> [])"

definition show_condition :: "mavlink_lib \<Rightarrow> If option \<Rightarrow> cpp_error + string" where
  "show_condition ml c = (case c of None \<Rightarrow> Inr [] | Some i \<Rightarrow> map_sum id ((@) '' '') (show_If ml i))"

text \<open>The \<open>print_\<close> methods; \<open>name_of\<close> gives the name of the chain pointed to.\<close>

definition show_Accept :: "mavlink_lib \<Rightarrow> int option \<Rightarrow> If option \<Rightarrow> cpp_error + string" where
  "show_Accept ml priority condition =
     map_sum id ((@) (''accept'' @ show_priority priority)) (show_condition ml condition)"

definition show_Reject :: "mavlink_lib \<Rightarrow> If option \<Rightarrow> cpp_error + string" where
  "show_Reject ml condition = map_sum id ((@) ''reject'') (show_condition ml condition)"

definition show_Call :: "mavlink_lib \<Rightarrow> string \<Rightarrow> int option \<Rightarrow> If option \<Rightarrow> cpp_error + string" where
  "show_Call ml name priority condition =
     map_sum id ((@) (''call '' @ name @ show_priority priority)) (show_condition ml condition)"

definition show_GoTo :: "mavlink_lib \<Rightarrow> string \<Rightarrow> int option \<Rightarrow> If option \<Rightarrow> cpp_error + string" where
  "show_GoTo ml name priority condition =
     map_sum id ((@) (''goto '' @ name @ show_priority priority)) (show_condition ml condition)"

definition show_Rule :: "mavlink_lib \<Rightarrow> (chain_ref \<Rightarrow> string) \<Rightarrow> Rule \<Rightarrow> cpp_error + string" where
  "show_Rule ml name_of r =
     (case r of
        Accept p c \<Rightarrow> show_Accept ml p c
      | Reject c \<Rightarrow> show_Reject ml c
      | Call ch p c \<Rightarrow> show_Call ml (name_of ch) p c
      | GoTo ch p c \<Rightarrow> show_GoTo ml (name_of ch) p c)"

abbreviation newline :: string where "newline \<equiv> [CHR 0x0A]"

fun show_rules :: "mavlink_lib \<Rightarrow> (chain_ref \<Rightarrow> string) \<Rightarrow> Rule list \<Rightarrow> cpp_error + string" where
  "show_rules ml name_of [] = Inr []"
| "show_rules ml name_of (r # rs) =
     (case show_Rule ml name_of r of
        Inl e \<Rightarrow> Inl e
      | Inr s \<Rightarrow> map_sum id ((@) (''    '' @ s @ '';'' @ newline)) (show_rules ml name_of rs))"

definition show_Chain :: "mavlink_lib \<Rightarrow> (chain_ref \<Rightarrow> string) \<Rightarrow> Chain \<Rightarrow> cpp_error + string" where
  "show_Chain ml name_of c =
     map_sum id (\<lambda>s. ''chain '' @ chain_name c @ '' {'' @ newline @ s @ ''}'')
       (show_rules ml name_of (chain_rules c))"


section \<open>What a rule set means\<close>

text \<open>
  The meaning of a rule set, with no recursion guard, no nesting bound and no state: the first rule
  that matches and decides wins, a called chain that does not decide lets the evaluation go on behind
  the call, a chain jumped to never comes back.
\<close>

definition matches :: "Packet \<Rightarrow> MAVAddress \<Rightarrow> Rule \<Rightarrow> bool" where
  "matches packet addr r \<longleftrightarrow> condition_holds (rule_condition r) packet addr = Inr True"

inductive chain_eval :: "Chain list \<Rightarrow> Packet \<Rightarrow> MAVAddress \<Rightarrow> chain_ref \<Rightarrow> Action \<Rightarrow> bool"
  and rules_eval :: "Chain list \<Rightarrow> Packet \<Rightarrow> MAVAddress \<Rightarrow> Rule list \<Rightarrow> Action \<Rightarrow> bool"
  for chs packet addr where
  enter: "chain_at chs r = Some ch \<Longrightarrow> rules_eval chs packet addr (chain_rules ch) a \<Longrightarrow>
    chain_eval chs packet addr r a"
| no_rule: "rules_eval chs packet addr [] make_continue"
| no_match: "\<not> matches packet addr r \<Longrightarrow> rules_eval chs packet addr rs a \<Longrightarrow>
    rules_eval chs packet addr (r # rs) a"
| accept: "matches packet addr (Accept p c) \<Longrightarrow>
    rules_eval chs packet addr (Accept p c # rs) (make_accept p)"
| reject: "matches packet addr (Reject c) \<Longrightarrow>
    rules_eval chs packet addr (Reject c # rs) make_reject"
| call_decided: "matches packet addr (Call ch p c) \<Longrightarrow> chain_eval chs packet addr ch a \<Longrightarrow>
    act_option a \<noteq> CONTINUE \<Longrightarrow> rules_eval chs packet addr (Call ch p c # rs) (apply_priority p a)"
| call_returned: "matches packet addr (Call ch p c) \<Longrightarrow> chain_eval chs packet addr ch a \<Longrightarrow>
    act_option a = CONTINUE \<Longrightarrow> rules_eval chs packet addr rs b \<Longrightarrow>
    rules_eval chs packet addr (Call ch p c # rs) b"
| goto_decided: "matches packet addr (GoTo ch p c) \<Longrightarrow> chain_eval chs packet addr ch a \<Longrightarrow>
    act_option a \<noteq> CONTINUE \<Longrightarrow> rules_eval chs packet addr (GoTo ch p c # rs) (apply_priority p a)"
| goto_default: "matches packet addr (GoTo ch p c) \<Longrightarrow> chain_eval chs packet addr ch a \<Longrightarrow>
    act_option a = CONTINUE \<Longrightarrow> rules_eval chs packet addr (GoTo ch p c # rs) make_default"

inductive_cases chain_evalE: "chain_eval chs packet addr r a"
inductive_cases rules_evalE:
  "rules_eval chs packet addr [] a" "rules_eval chs packet addr (r # rs) a"

text \<open>The conditions of a packet whose source address can be read never throw.\<close>

definition readable :: "Packet \<Rightarrow> bool" where
  "readable packet \<longleftrightarrow> is_ok (packet_source packet)"

lemma readable_wf: "packet_wf ml packet \<Longrightarrow> readable packet"
  by (simp add: readable_def source_wf)

lemma condition_readable:
  "readable packet \<Longrightarrow> condition_holds (rule_condition r) packet addr = Inr (matches packet addr r)"
  by (auto simp: condition_holds_def matches_def If_check_def readable_def is_ok_def Let_def
      split: option.splits sum.splits)

definition rule_refs :: "Rule \<Rightarrow> chain_ref set" where
  "rule_refs r = (case r of Call ch p c \<Rightarrow> {ch} | GoTo ch p c \<Rightarrow> {ch} | _ \<Rightarrow> {})"

text \<open>A chain pointer of a rule points to a chain.\<close>

definition chains_wf :: "Chain list \<Rightarrow> bool" where
  "chains_wf chs \<longleftrightarrow> (\<forall>ch \<in> set chs. \<forall>r \<in> set (chain_rules ch). \<forall>s \<in> rule_refs r. s < length chs)"

lemma rule_refs_simps [simp]:
  "rule_refs (Accept p c) = {}" "rule_refs (Reject c) = {}"
  "rule_refs (Call ch p c) = {ch}" "rule_refs (GoTo ch p c) = {ch}"
  by (simp_all add: rule_refs_def)

lemma chain_at_Some: "chain_at chs r = Some ch \<longleftrightarrow> r < length chs \<and> ch = chs ! r"
  by (auto simp: chain_at_def)

lemma chains_wf_refs:
  "chains_wf chs \<Longrightarrow> chain_at chs r = Some ch \<Longrightarrow> \<forall>x \<in> set (chain_rules ch). \<forall>s \<in> rule_refs x. s < length chs"
  by (auto simp: chains_wf_def chain_at_Some dest!: nth_mem)

lemma apply_priority_option [simp]: "act_option (apply_priority p a) = act_option a"
  by (simp add: apply_priority_def action_set_priority_def split: option.splits)

lemma make_options [simp]:
  "act_option (make_accept p) = ACCEPT" "act_option make_reject = REJECT"
  "act_option make_continue = CONTINUE" "act_option make_default = DEFAULT"
  by (simp_all add: make_accept_def make_reject_def make_continue_def make_default_def)

section \<open>The evaluation against the meaning\<close>

text \<open>One rule on a readable packet, case by case.\<close>

lemma rule_action_cases:
  assumes "readable packet"
  shows "\<not> matches packet addr r \<Longrightarrow> rule_action call packet addr r g = Some (Inr make_continue, g)"
    and "matches packet addr (Accept p c) \<Longrightarrow>
      rule_action call packet addr (Accept p c) g = Some (Inr (make_accept p), g)"
    and "matches packet addr (Reject c) \<Longrightarrow>
      rule_action call packet addr (Reject c) g = Some (Inr make_reject, g)"
    and "matches packet addr (Call ch p c) \<Longrightarrow>
      rule_action call packet addr (Call ch p c) g =
        map_option (map_prod (map_sum id (apply_priority p)) id) (call ch g)"
    and "matches packet addr (GoTo ch p c) \<Longrightarrow>
      rule_action call packet addr (GoTo ch p c) g =
        map_option (map_prod (map_sum id (\<lambda>a. if act_option a = CONTINUE then make_default
                                              else apply_priority p a)) id) (call ch g)"
  using condition_readable [OF assms, of r addr] condition_readable [OF assms, of "Accept p c" addr]
    condition_readable [OF assms, of "Reject c" addr]
    condition_readable [OF assms, of "Call ch p c" addr] condition_readable [OF assms, of "GoTo ch p c" addr]
  by (auto simp: action_defs Let_def split: option.splits sum.splits Rule.splits)

text \<open>A result of \<open>call\<close> leaves the guards as they were, and is one that \<open>ok\<close> allows.\<close>

definition sound_call ::
  "(chain_ref \<Rightarrow> guards \<Rightarrow> eval) \<Rightarrow> (chain_ref \<Rightarrow> Action \<Rightarrow> bool) \<Rightarrow> chain_ref set \<Rightarrow> bool" where
  "sound_call call ok refs \<longleftrightarrow>
     (\<forall>r g res g'. r \<in> refs \<longrightarrow> call r g = Some (res, g') \<longrightarrow>
        g' = g \<and> (case res of Inr a \<Rightarrow> ok r a | Inl e \<Rightarrow> e = RecursionError ''Recursion detected.''))"

lemma rules_action_sound:
  assumes "sound_call call (chain_eval chs packet addr) refs" "readable packet"
    "\<forall>x \<in> set rs. rule_refs x \<subseteq> refs" "rules_action call packet addr rs g = Some (res, g')"
  shows "g' = g \<and> (case res of Inr a \<Rightarrow> rules_eval chs packet addr rs a
                    | Inl e \<Rightarrow> e = RecursionError ''Recursion detected.'')"
  using assms(3,4)
proof (induction rs arbitrary: g)
  case Nil
  then show ?case by (auto intro: no_rule)
next
  case (Cons r rs)
  note IH = Cons.IH and sc = assms(1) [unfolded sound_call_def, rule_format]
    and ra = rule_action_cases [OF assms(2)]
  show ?case
  proof (cases "matches packet addr r")
    case False
    then show ?thesis using IH [of g] Cons.prems by (auto simp: ra split: sum.splits intro: no_match)
  next
    case True
    show ?thesis
    proof (cases r)
      case (Accept p c)
      then show ?thesis using Cons.prems True by (auto simp: ra intro: accept)
    next
      case (Reject c)
      then show ?thesis using Cons.prems True by (auto simp: ra intro: reject)
    next
      case (Call ch p c)
      then obtain res1 g1 where c1: "call ch g = Some (res1, g1)"
        using Cons.prems(2) True by (auto simp: ra split: option.splits)
      have d: "ch \<in> refs" using Cons.prems(1) Call by simp
      show ?thesis
        using sc [OF d c1] Cons.prems c1 True IH [of g] Call
        by (cases res1; cases "act_option (projr res1) = CONTINUE")
          (auto simp: ra split: sum.splits intro: call_decided call_returned)
    next
      case (GoTo ch p c)
      then obtain res1 g1 where c1: "call ch g = Some (res1, g1)"
        using Cons.prems(2) True by (auto simp: ra split: option.splits)
      have d: "ch \<in> refs" using Cons.prems(1) GoTo by simp
      show ?thesis
        using sc [OF d c1] Cons.prems c1 True GoTo
        by (cases res1; cases "act_option (projr res1) = CONTINUE")
          (auto simp: ra split: sum.splits intro: goto_decided goto_default)
    qed
  qed
qed

lemma guard_exit_enter: "guard_enter t r g = Inr g1 \<Longrightarrow> guard_exit t r g1 = g"
  by (auto simp: guard_enter_def guard_exit_def split: if_splits)

lemma chain_action_sound:
  assumes "chains_wf chs" "readable packet"
  shows "sound_call (chain_action chs t n packet addr) (chain_eval chs packet addr) {..<length chs}"
proof (induction n)
  case 0
  then show ?case by (simp add: sound_call_def)
next
  case (Suc n)
  have "g' = g \<and> (case res of Inr a \<Rightarrow> chain_eval chs packet addr r a
                    | Inl e \<Rightarrow> e = RecursionError ''Recursion detected.'')"
    if r: "r < length chs" and run: "chain_action chs t (Suc n) packet addr r g = Some (res, g')" for r g res g'
  proof -
    have ch: "chain_at chs r = Some (chs ! r)" (is "_ = Some ?ch") using r by (simp add: chain_at_def)
    show ?thesis
    proof (cases "guard_enter t r g")
      case (Inl e)
      then show ?thesis using run ch by (auto simp: guard_enter_def split: if_splits)
    next
      case (Inr g1)
      obtain g2 where ra: "rules_action (chain_action chs t n packet addr) packet addr (chain_rules ?ch) g1
          = Some (res, g2)" "g' = guard_exit t r g2"
        using run ch Inr by (auto split: option.splits)
      have "\<forall>x \<in> set (chain_rules ?ch). rule_refs x \<subseteq> {..<length chs}"
        using chains_wf_refs [OF assms(1) ch] by auto
      from rules_action_sound [OF Suc assms(2) this ra(1)] show ?thesis
        using ra(2) guard_exit_enter [OF Inr] ch by (auto split: sum.splits intro: enter)
    qed
  qed
  then show ?case unfolding sound_call_def lessThan_iff by blast
qed


text \<open>The nesting bound: each chain entered takes one chain out of the reach of the thread.\<close>

lemma rules_action_defined:
  assumes "sound_call call ok refs" "readable packet" "\<forall>r \<in> refs. call r g \<noteq> None"
    "\<forall>x \<in> set rs. rule_refs x \<subseteq> refs"
  shows "rules_action call packet addr rs g \<noteq> None"
  using assms(4)
proof (induction rs)
  case (Cons r rs)
  note ra = rule_action_cases [OF assms(2)]
  have "\<exists>res. rule_action call packet addr r g = Some (res, g)"
  proof (cases "matches packet addr r")
    case True
    have called: "\<exists>res. call ch g = Some (res, g)" if "ch \<in> rule_refs r" for ch
    proof -
      have ch: "ch \<in> refs" using that Cons.prems by auto
      then obtain res g' where c: "call ch g = Some (res, g')" using assms(3) by fastforce
      then have "g' = g" using assms(1) ch unfolding sound_call_def by blast
      then show ?thesis using c by blast
    qed
    show ?thesis
    proof (cases r)
      case (Call ch p c)
      then obtain res where "call ch g = Some (res, g)" using called [of ch] by auto
      then show ?thesis using Call True ra(4) [of addr ch p c call g] by simp
    next
      case (GoTo ch p c)
      then obtain res where "call ch g = Some (res, g)" using called [of ch] by auto
      then show ?thesis using GoTo True ra(5) [of addr ch p c call g] by simp
    qed (use True ra in auto)
  qed (simp add: ra)
  then show ?case using Cons by (auto split: sum.splits)
qed simp

definition open_chains :: "Chain list \<Rightarrow> thread_id \<Rightarrow> guards \<Rightarrow> chain_ref set" where
  "open_chains chs t g = {r. r < length chs \<and> t \<notin> g r}"

lemma open_chains_enter:
  assumes "guard_enter t r g = Inr g1" "r < length chs"
  shows "card (open_chains chs t g1) < card (open_chains chs t g)"
proof (rule psubset_card_mono)
  show "finite (open_chains chs t g)" by (simp add: open_chains_def)
  have g1: "g1 = g(r := insert t (g r))" "t \<notin> g r"
    using assms(1) by (auto simp: guard_enter_def split: if_splits)
  then have "open_chains chs t g1 = open_chains chs t g - {r}" by (auto simp: open_chains_def)
  moreover have "r \<in> open_chains chs t g" using g1 assms(2) by (simp add: open_chains_def)
  ultimately show "open_chains chs t g1 \<subset> open_chains chs t g" by blast
qed

lemma open_chains_bound: "card (open_chains chs t g) \<le> length chs"
proof -
  have "open_chains chs t g \<subseteq> {..<length chs}" by (auto simp: open_chains_def)
  then have "card (open_chains chs t g) \<le> card {..<length chs}" by (intro card_mono) simp_all
  then show ?thesis by simp
qed

lemma chain_action_defined:
  assumes "chains_wf chs" "readable packet" "r < length chs" "card (open_chains chs t g) < n"
  shows "chain_action chs t n packet addr r g \<noteq> None"
  using assms(3,4)
proof (induction n arbitrary: r g)
  case (Suc n)
  have ch: "chain_at chs r = Some (chs ! r)" using Suc.prems(1) by (simp add: chain_at_def)
  show ?case
  proof (cases "guard_enter t r g")
    case (Inr g1)
    have "card (open_chains chs t g1) < n"
      using open_chains_enter [OF Inr Suc.prems(1)] Suc.prems(2) by simp
    then have "\<forall>s \<in> {..<length chs}. chain_action chs t n packet addr s g1 \<noteq> None"
      using Suc.IH by blast
    moreover have "\<forall>x \<in> set (chain_rules (chs ! r)). rule_refs x \<subseteq> {..<length chs}"
      using chains_wf_refs [OF assms(1) ch] by auto
    ultimately show ?thesis
      using rules_action_defined [OF chain_action_sound [OF assms(1,2)] assms(2)] ch Inr
      by (auto split: option.splits)
  qed (simp add: ch)
qed simp

text \<open>The meaning, computed to a bounded depth.\<close>

definition spec_rule :: "(chain_ref \<Rightarrow> Action option) \<Rightarrow> Packet \<Rightarrow> MAVAddress \<Rightarrow> Rule \<Rightarrow> Action option" where
  "spec_rule call packet addr r =
     (if \<not> matches packet addr r then Some make_continue
      else (case r of
              Accept p c \<Rightarrow> Some (make_accept p)
            | Reject c \<Rightarrow> Some make_reject
            | Call ch p c \<Rightarrow> map_option (apply_priority p) (call ch)
            | GoTo ch p c \<Rightarrow>
                map_option (\<lambda>a. if act_option a = CONTINUE then make_default else apply_priority p a)
                  (call ch)))"

fun spec_rules :: "(chain_ref \<Rightarrow> Action option) \<Rightarrow> Packet \<Rightarrow> MAVAddress \<Rightarrow> Rule list \<Rightarrow> Action option" where
  "spec_rules call packet addr [] = Some make_continue"
| "spec_rules call packet addr (r # rs) =
     (case spec_rule call packet addr r of
        None \<Rightarrow> None
      | Some a \<Rightarrow> if act_option a \<noteq> CONTINUE then Some a else spec_rules call packet addr rs)"

primrec spec_chain :: "Chain list \<Rightarrow> Packet \<Rightarrow> MAVAddress \<Rightarrow> nat \<Rightarrow> chain_ref \<Rightarrow> Action option" where
  "spec_chain chs packet addr 0 r = None"
| "spec_chain chs packet addr (Suc k) r =
     (case chain_at chs r of
        None \<Rightarrow> None
      | Some ch \<Rightarrow> spec_rules (spec_chain chs packet addr k) packet addr (chain_rules ch))"

definition extends :: "(chain_ref \<Rightarrow> Action option) \<Rightarrow> (chain_ref \<Rightarrow> Action option) \<Rightarrow> bool" where
  "extends f g \<longleftrightarrow> (\<forall>r a. f r = Some a \<longrightarrow> g r = Some a)"

lemma spec_rule_mono:
  "extends f g \<Longrightarrow> spec_rule f packet addr r = Some a \<Longrightarrow> spec_rule g packet addr r = Some a"
  by (cases r) (auto simp: spec_rule_def extends_def split: if_splits)

lemma spec_rules_mono:
  "extends f g \<Longrightarrow> spec_rules f packet addr rs = Some a \<Longrightarrow> spec_rules g packet addr rs = Some a"
proof (induction rs)
  case (Cons r rs)
  then show ?case
    by (cases "spec_rule f packet addr r") (auto simp: spec_rule_mono split: if_splits)
qed simp

lemma spec_chain_Suc: "extends (spec_chain chs packet addr k) (spec_chain chs packet addr (Suc k))"
proof (induction k)
  case (Suc k)
  have step: "spec_chain chs packet addr (Suc k) r = Some a \<Longrightarrow> spec_chain chs packet addr (Suc (Suc k)) r = Some a"
    for r a
    by (cases "chain_at chs r") (auto intro: spec_rules_mono [OF Suc])
  then show ?case unfolding extends_def by blast
qed (simp add: extends_def)

lemma extends_refl: "extends f f"
  by (simp add: extends_def)

lemma extends_trans: "extends f g \<Longrightarrow> extends g h \<Longrightarrow> extends f h"
  by (simp add: extends_def)

lemma spec_chain_mono: "k \<le> l \<Longrightarrow> extends (spec_chain chs packet addr k) (spec_chain chs packet addr l)"
proof (induction rule: dec_induct)
  case base
  show ?case by (rule extends_refl)
next
  case (step m)
  then show ?case using extends_trans spec_chain_Suc by blast
qed

text \<open>Every derivation is found at some depth.\<close>

lemma spec_complete:
  "(chain_eval chs packet addr r a \<longrightarrow> (\<exists>k. spec_chain chs packet addr k r = Some a)) \<and>
   (rules_eval chs packet addr rs b \<longrightarrow> (\<exists>k. spec_rules (spec_chain chs packet addr k) packet addr rs = Some b))"
proof -
  have lift: "spec_chain chs packet addr k r = Some a \<Longrightarrow> spec_chain chs packet addr (max k l) r = Some a"
    for k l r a
    using spec_chain_mono [of k "max k l" chs packet addr] by (simp add: extends_def)
  have liftr: "spec_rules (spec_chain chs packet addr k) packet addr rs = Some a \<Longrightarrow>
      spec_rules (spec_chain chs packet addr (max l k)) packet addr rs = Some a" for k l rs a
    using spec_rules_mono [OF spec_chain_mono [of k "max l k"]] by simp
  have "chain_eval chs packet addr r a \<Longrightarrow> \<exists>k. spec_chain chs packet addr k r = Some a"
    and "rules_eval chs packet addr rs b \<Longrightarrow> \<exists>k. spec_rules (spec_chain chs packet addr k) packet addr rs = Some b"
    for r a rs b
  proof (induction rule: chain_eval_rules_eval.inducts)
    case (enter r ch a)
    then obtain k where "spec_rules (spec_chain chs packet addr k) packet addr (chain_rules ch) = Some a"
      by blast
    then have "spec_chain chs packet addr (Suc k) r = Some a" using enter by simp
    then show ?case by blast
  next
    case (call_returned ch p c a rs b)
    then obtain k l where "spec_chain chs packet addr k ch = Some a"
        "spec_rules (spec_chain chs packet addr l) packet addr rs = Some b" by blast
    then have "spec_rules (spec_chain chs packet addr (max k l)) packet addr (Call ch p c # rs) = Some b"
      using lift [of k ch a l] liftr [of l rs b k] call_returned by (simp add: spec_rule_def)
    then show ?case by blast
  next
    case (call_decided ch p c a rs)
    then obtain k where "spec_chain chs packet addr k ch = Some a" by blast
    then show ?case using call_decided by (intro exI [of _ k]) (simp add: spec_rule_def)
  next
    case (goto_decided ch p c a rs)
    then obtain k where "spec_chain chs packet addr k ch = Some a" by blast
    then show ?case using goto_decided by (intro exI [of _ k]) (simp add: spec_rule_def)
  next
    case (goto_default ch p c a rs)
    then obtain k where "spec_chain chs packet addr k ch = Some a" by blast
    then show ?case using goto_default by (intro exI [of _ k]) (simp add: spec_rule_def)
  qed (auto simp: spec_rule_def)
  then show ?thesis by blast
qed


lemma rules_action_complete:
  assumes "readable packet" "\<forall>ch b. called ch = Some b \<longrightarrow> call ch g = Some (Inr b, g)"
    "spec_rules called packet addr rs = Some a"
  shows "rules_action call packet addr rs g = Some (Inr a, g)"
  using assms(3)
proof (induction rs)
  case (Cons r rs)
  note ra = rule_action_cases [OF assms(1)]
  obtain b where b: "spec_rule called packet addr r = Some b"
    using Cons.prems by (auto split: option.splits)
  have "rule_action call packet addr r g = Some (Inr b, g)"
    using b assms(2) by (cases r) (auto simp: spec_rule_def ra split: if_splits)
  then show ?case using Cons b by (auto split: if_splits)
qed simp

text \<open>
  A chain with a meaning at depth \<open>k\<close> is evaluated without a recursion error, as long as no chain
  that the thread is in has a meaning at that depth: an evaluation that comes back to a chain it is
  in has no meaning at all.
\<close>

lemma chain_action_complete:
  assumes "chains_wf chs" "readable packet"
    "spec_chain chs packet addr k r = Some a" "\<forall>s. t \<in> g s \<longrightarrow> spec_chain chs packet addr k s = None"
    "card (open_chains chs t g) < n"
  shows "chain_action chs t n packet addr r g = Some (Inr a, g)"
  using assms(3-)
proof (induction k arbitrary: r g n a)
  case (Suc k)
  have lower: "spec_chain chs packet addr k s = Some b \<Longrightarrow> spec_chain chs packet addr (Suc k) s = Some b"
    for s b
    using spec_chain_Suc [of chs packet addr k] unfolding extends_def by blast
  have below: "\<forall>s. t \<in> g s \<longrightarrow> spec_chain chs packet addr k s = None"
    using Suc.prems(2) lower by (metis not_None_eq)
  show ?case
  proof (cases "spec_chain chs packet addr k r")
    case (Some b)
    then have "b = a" using lower Suc.prems(1) by simp
    then show ?thesis using Suc.IH [OF _ below Suc.prems(3)] Some by blast
  next
    case None
    obtain ch where ch: "chain_at chs r = Some ch"
        "spec_rules (spec_chain chs packet addr k) packet addr (chain_rules ch) = Some a"
      using Suc.prems(1) by (auto split: option.splits)
    have "t \<notin> g r" using Suc.prems(1,2) by force
    then obtain g1 where g1: "guard_enter t r g = Inr g1" "g1 = g(r := insert t (g r))"
      by (simp add: guard_enter_def)
    obtain n' where n: "n = Suc n'" using Suc.prems(3) by (cases n) auto
    have "card (open_chains chs t g1) < n'"
      using open_chains_enter [OF g1(1)] ch(1) Suc.prems(3) n by (fastforce simp: chain_at_Some)
    moreover have "\<forall>s. t \<in> g1 s \<longrightarrow> spec_chain chs packet addr k s = None"
      using below None g1(2) by simp
    ultimately have "\<forall>s b. spec_chain chs packet addr k s = Some b \<longrightarrow>
        chain_action chs t n' packet addr s g1 = Some (Inr b, g1)"
      using Suc.IH by blast
    then have "rules_action (chain_action chs t n' packet addr) packet addr (chain_rules ch) g1
        = Some (Inr a, g1)"
      by (intro rules_action_complete [OF assms(2) _ ch(2)]) simp
    then show ?thesis
      using n ch(1) g1(1) guard_exit_enter [OF g1(1)] by simp
  qed
qed simp

text \<open>A thread that is in no chain gets the meaning, or a recursion error when there is none.\<close>

lemma chain_decides:
  assumes "chains_wf chs" "readable packet" "r < length chs" "\<forall>s. t \<notin> g s"
  shows "\<exists>res. chain_action chs t (Suc (length chs)) packet addr r g = Some (res, g) \<and>
    (\<forall>a. res = Inr a \<longleftrightarrow> chain_eval chs packet addr r a) \<and>
    ((\<nexists>a. chain_eval chs packet addr r a) \<longrightarrow> res = Inl (RecursionError ''Recursion detected.''))"
proof -
  have bound: "card (open_chains chs t g) < Suc (length chs)"
    using open_chains_bound [of chs t g] by simp
  obtain res g' where run: "chain_action chs t (Suc (length chs)) packet addr r g = Some (res, g')"
    using chain_action_defined [OF assms(1-3) bound] by fastforce
  have s: "g' = g" "case res of Inr a \<Rightarrow> chain_eval chs packet addr r a
                     | Inl e \<Rightarrow> e = RecursionError ''Recursion detected.''"
    using chain_action_sound [OF assms(1,2), unfolded sound_call_def] run assms(3) by blast+
  have c: "res = Inr a" if "chain_eval chs packet addr r a" for a
  proof -
    obtain k where "spec_chain chs packet addr k r = Some a"
      using spec_complete(1) [THEN conjunct1] \<open>chain_eval chs packet addr r a\<close> by blast
    from chain_action_complete [OF assms(1,2) this _ bound] show ?thesis
      using assms(4) run by simp
  qed
  have iff: "res = Inr a \<longleftrightarrow> chain_eval chs packet addr r a" for a
  proof
    assume "res = Inr a"
    then show "chain_eval chs packet addr r a" using s(2) by simp
  qed (rule c)
  have "res = Inl (RecursionError ''Recursion detected.'')" if "\<nexists>a. chain_eval chs packet addr r a"
  proof (cases res)
    case (Inr b)
    then have "chain_eval chs packet addr r b" using s(2) by simp
    then show ?thesis using that by blast
  qed (use s(2) in simp)
  then show ?thesis using run s(1) iff by blast
qed

lemma chain_eval_unique:
  "chain_eval chs packet addr r a \<Longrightarrow> chain_eval chs packet addr r b \<Longrightarrow> a = b"
proof -
  assume "chain_eval chs packet addr r a" "chain_eval chs packet addr r b"
  then obtain k l where "spec_chain chs packet addr k r = Some a" "spec_chain chs packet addr l r = Some b"
    using spec_complete by meson
  then show "a = b"
    using spec_chain_mono [of k "max k l" chs packet addr] spec_chain_mono [of l "max k l" chs packet addr]
    unfolding extends_def by fastforce
qed

text \<open>When the references go down in some ranking, every chain has a meaning.\<close>

definition ranked :: "(chain_ref \<Rightarrow> nat) \<Rightarrow> Chain list \<Rightarrow> bool" where
  "ranked rank chs \<longleftrightarrow>
     (\<forall>r < length chs. \<forall>x \<in> set (chain_rules (chs ! r)). \<forall>s \<in> rule_refs x. rank s < rank r)"

lemma rules_eval_total:
  assumes "\<forall>x \<in> set rs. \<forall>s \<in> rule_refs x. \<exists>a. chain_eval chs packet addr s a"
  shows "\<exists>a. rules_eval chs packet addr rs a"
  using assms
proof (induction rs)
  case Nil
  show ?case using no_rule by blast
next
  case (Cons r rs)
  then obtain b where b: "rules_eval chs packet addr rs b" by auto
  show ?case
  proof (cases "matches packet addr r")
    case True
    show ?thesis
    proof (cases r)
      case (Call ch p c)
      then obtain a where "chain_eval chs packet addr ch a" using Cons.prems by auto
      then show ?thesis using Call True b call_decided call_returned by metis
    next
      case (GoTo ch p c)
      then obtain a where "chain_eval chs packet addr ch a" using Cons.prems by auto
      then show ?thesis using GoTo True goto_decided goto_default by metis
    qed (use True accept reject in blast)+
  qed (use b no_match in blast)
qed

lemma chain_eval_total:
  assumes "chains_wf chs" "ranked rank chs" "r < length chs"
  shows "\<exists>a. chain_eval chs packet addr r a"
  using assms(3)
proof (induction "rank r" arbitrary: r rule: less_induct)
  case less
  have ch: "chain_at chs r = Some (chs ! r)" using less.prems by (simp add: chain_at_def)
  have "\<forall>x \<in> set (chain_rules (chs ! r)). \<forall>s \<in> rule_refs x. \<exists>a. chain_eval chs packet addr s a"
    using less assms(2) chains_wf_refs [OF assms(1) ch] by (auto simp: ranked_def)
  then show ?case using rules_eval_total enter ch by metis
qed


section \<open>Properties\<close>

definition filter_wf :: "Filter \<Rightarrow> bool" where
  "filter_wf f \<longleftrightarrow> chains_wf (filter_chains f) \<and> default_chain f < length (filter_chains f)"

text \<open>The verdict that an action of the default chain stands for.\<close>

definition verdict :: "Filter \<Rightarrow> Action \<Rightarrow> bool \<times> int" where
  "verdict f a =
     (if act_option a = ACCEPT then (True, case act_priority a of Some p \<Rightarrow> p | None \<Rightarrow> 0)
      else if act_option a = REJECT then (False, 0)
      else (accept_by_default f, 0))"

lemma will_accept_chain:
  "chain_action (filter_chains f) t (nesting f) packet addr (default_chain f) g = Some (res, g') \<Longrightarrow>
   will_accept f t packet addr g = Some (map_sum id (verdict f) res, g')"
  by (cases res; cases "act_option (projr res)")
    (auto simp: will_accept_def verdict_def action_priority_def)

text \<open>C6: filtering decides every packet.  A thread that is in no chain gets the verdict that the
  meaning of the rule set gives the packet, or a recursion error exactly when the rule set has no
  meaning for it (a chain calls itself again); either way the evaluation ends, and all recursion
  guards are as they were, for this thread and for all others.\<close>

theorem filter_decides:
  assumes "filter_wf f" "packet_wf ml packet" "\<forall>s. t \<notin> g s"
  shows "\<exists>res. will_accept f t packet addr g = Some (res, g) \<and>
    (\<forall>v. res = Inr v \<longleftrightarrow>
       (\<exists>a. chain_eval (filter_chains f) packet addr (default_chain f) a \<and> v = verdict f a)) \<and>
    ((\<nexists>a. chain_eval (filter_chains f) packet addr (default_chain f) a) \<longleftrightarrow>
       res = Inl (RecursionError ''Recursion detected.''))"
proof -
  let ?eval = "chain_eval (filter_chains f) packet addr (default_chain f)"
  obtain res where res: "chain_action (filter_chains f) t (nesting f) packet addr (default_chain f) g = Some (res, g)"
      "\<forall>a. res = Inr a \<longleftrightarrow> ?eval a"
      "(\<nexists>a. ?eval a) \<longrightarrow> res = Inl (RecursionError ''Recursion detected.'')"
    using chain_decides [of "filter_chains f" packet "default_chain f" t g addr] assms
    by (auto simp: filter_wf_def nesting_def readable_wf)
  show ?thesis
  proof (cases "\<exists>a. ?eval a")
    case True
    then obtain a where a: "?eval a" "res = Inr a" using res(2) by blast
    have only: "?eval b \<longleftrightarrow> b = a" for b using a(1) chain_eval_unique by blast
    have "will_accept f t packet addr g = Some (Inr (verdict f a), g)"
      using will_accept_chain [OF res(1)] a(2) by simp
    then show ?thesis unfolding only by (intro exI [of _ "Inr (verdict f a)"]) auto
  next
    case False
    then have "will_accept f t packet addr g = Some (Inl (RecursionError ''Recursion detected.''), g)"
      using will_accept_chain [OF res(1)] res(3) by simp
    then show ?thesis
      using False by (intro exI [of _ "Inl (RecursionError ''Recursion detected.'')"]) simp
  qed
qed

lemma will_accept_ranked:
  assumes "filter_wf f" "ranked rank (filter_chains f)" "readable packet" "\<forall>s. t \<notin> g s"
  shows "\<exists>v. will_accept f t packet addr g = Some (Inr v, g)"
proof -
  have "\<exists>a. chain_eval (filter_chains f) packet addr (default_chain f) a"
    using assms(1,2) chain_eval_total by (auto simp: filter_wf_def)
  then obtain res where "chain_action (filter_chains f) t (nesting f) packet addr (default_chain f) g = Some (Inr res, g)"
    using chain_decides [of "filter_chains f" packet "default_chain f" t g addr] assms
    by (auto simp: filter_wf_def nesting_def)
  from will_accept_chain [OF this] show ?thesis by auto
qed

text \<open>C25: a filter whose chains do not refer to each other in a circle never raises a recursion error:
  every packet gets a verdict.\<close>

theorem filter_acyclic_total:
  assumes "filter_wf f" "ranked rank (filter_chains f)" "packet_wf ml packet" "\<forall>s. t \<notin> g s"
  shows "\<exists>accept priority. will_accept f t packet addr g = Some (Inr (accept, priority), g)"
  using will_accept_ranked [OF assms(1,2) readable_wf [OF assms(3)] assms(4), of addr] by auto

text \<open>Copying a chain clones rule by rule and gives an equal chain.\<close>

theorem chain_copy_equal: "\<exists>c'. chain_copy c = Inr c' \<and> chain_eq c c' \<and> chain_eq c' c"
proof -
  have clone: "rule_clone r = Inr r" for r
    by (cases r) (auto simp: clone_defs split: option.splits)
  have "clone_rules rs = Inr rs" for rs by (induction rs) (simp_all add: clone)
  moreover have "rule_eq r r" for r
    by (cases r) (auto simp: rule_eq_defs If_eq_def split: option.splits)
  ultimately show ?thesis by (simp add: chain_copy_def chain_eq_def list_all_iff)
qed

text \<open>\<open>If::type\<close> validates only the low 32 bits of a message ID but stores all 64, so a condition
  made from an ID of \<open>2 ^ 32\<close> or more can be accepted as valid and then matches no packet.\<close>

theorem if_type_truncated:
  assumes "2 ^ 32 \<le> unat i" "If_type ml i c = Inr c'" "packet_wf ml packet"
  shows "\<not> If_check c' packet addr = Inr True \<and> mavlink_name ml (ucast (ucast i :: u32)) = mavlink_name ml i"
proof -
  have c': "if_id c' = Some i" using assms(2) by (auto simp: If_type_def split: sum.splits)
  have small: "unat (ucast (w :: u32) :: u64) < 2 ^ 32" for w
  proof -
    have "unat w < 2 ^ LENGTH(32)" by (rule unsigned_less)
    then show ?thesis by (simp add: unsigned_ucast_eq take_bit_nat_eq_self)
  qed
  have byte: "ucast (b :: u8) = (ucast (ucast b :: u32) :: u64)" for b
    by (rule bit_eqI) (auto simp: bit_simps dest: bit_imp_le_length)
  have "unat (packet_id packet) < 2 ^ 32"
    using small by (auto simp: packet_id_def v1_id_def v2_id_def byte split: Version.splits)
  then have "packet_id packet \<noteq> i" using assms(1) by auto
  then have "\<not> If_check c' packet addr = Inr True"
    using c' by (auto simp: If_check_def Let_def split: option.splits sum.splits)
  moreover have "ucast (ucast (ucast i :: u32) :: u64) = (ucast i :: u32)"
    by (rule bit_eqI) (auto simp: bit_simps dest: bit_imp_le_length)
  ultimately show ?thesis using assms(2)
    by (auto simp: mavlink_name_def If_type_def split: option.splits)
qed


section \<open>A concrete rule set\<close>

text \<open>A default chain that calls the chain \<open>pass\<close> with priority 5, and rejects what comes back.\<close>

definition sample_chains :: "Chain list" where
  "sample_chains =
     [\<lparr>chain_name = ''default'', chain_rules = [Call 1 (Some 5) None, Reject None]\<rparr>,
      \<lparr>chain_name = ''pass'', chain_rules = [Accept None None]\<rparr>]"

definition sample_filter :: Filter where
  "sample_filter = \<lparr>filter_chains = sample_chains, default_chain = 0, accept_by_default = False\<rparr>"

abbreviation heartbeat :: Packet where
  "heartbeat \<equiv> \<lparr>pkt_version = V1, pkt_data = sample_heartbeat, pkt_connection = None\<rparr>"

lemma heartbeat_wf: "packet_wf common_mavlink heartbeat"
  using v1_Packet_wf [OF sample_packets(1)] by simp

lemma sample_filter_wf: "filter_wf sample_filter"
  by (simp add: filter_wf_def sample_filter_def sample_chains_def chains_wf_def)

lemma sample_filter_ranked: "ranked (\<lambda>r. 1 - r) (filter_chains sample_filter)"
  by (simp add: ranked_def sample_filter_def sample_chains_def less_Suc_eq)

lemma sample_filter_eval:
  "chain_eval (filter_chains sample_filter) packet addr 0 \<lparr>act_option = ACCEPT, act_priority = Some 5\<rparr>"
proof -
  let ?chs = "filter_chains sample_filter"
  have m: "matches packet addr (Accept p None)" "matches packet addr (Call ch p None)" for p ch
    by (simp_all add: matches_def condition_holds_def)
  have "rules_eval ?chs packet addr [Accept None None] (make_accept None)"
    by (rule accept [OF m(1)])
  then have pass: "chain_eval ?chs packet addr 1 (make_accept None)"
    by (intro enter [of _ _ "\<lparr>chain_name = ''pass'', chain_rules = [Accept None None]\<rparr>"])
      (simp_all add: chain_at_def sample_filter_def sample_chains_def)
  have "rules_eval ?chs packet addr [Call 1 (Some 5) None, Reject None]
      (apply_priority (Some 5) (make_accept None))"
    by (rule call_decided [OF m(2) pass]) simp
  then have "chain_eval ?chs packet addr 0 (apply_priority (Some 5) (make_accept None))"
    by (intro enter [of _ _ "\<lparr>chain_name = ''default'', chain_rules = [Call 1 (Some 5) None, Reject None]\<rparr>"])
      (simp_all add: chain_at_def sample_filter_def sample_chains_def)
  then show ?thesis by (simp add: apply_priority_def action_set_priority_def make_accept_def)
qed

theorem filter_decides_witness:
  "will_accept sample_filter 7 heartbeat (MkMAVAddress 511) (\<lambda>_. {}) = Some (Inr (True, 5), \<lambda>_. {})"
proof -
  obtain res where res: "will_accept sample_filter 7 heartbeat (MkMAVAddress 511) (\<lambda>_. {}) = Some (res, \<lambda>_. {})"
    "\<forall>v. res = Inr v \<longleftrightarrow> (\<exists>a. chain_eval (filter_chains sample_filter) heartbeat (MkMAVAddress 511)
        (default_chain sample_filter) a \<and> v = verdict sample_filter a)"
    using filter_decides [OF sample_filter_wf heartbeat_wf, of 7 "\<lambda>_. {}" "MkMAVAddress 511"] by auto
  have default: "default_chain sample_filter = 0" by (simp add: sample_filter_def)
  have "res = Inr (verdict sample_filter \<lparr>act_option = ACCEPT, act_priority = Some 5\<rparr>)"
    using res(2) sample_filter_eval [of heartbeat "MkMAVAddress 511"]
    unfolding default by blast
  then show ?thesis using res(1) by (simp add: verdict_def)
qed

theorem filter_acyclic_total_witness:
  "\<exists>accept priority. will_accept sample_filter 7 heartbeat (MkMAVAddress 511) (\<lambda>_. {}) =
     Some (Inr (accept, priority), \<lambda>_. {})"
  by (rule filter_acyclic_total [OF sample_filter_wf sample_filter_ranked heartbeat_wf]) simp

theorem if_type_truncated_witness:
  "\<not> If_check \<lparr>if_id = Some 0x100000000, if_source = None, if_dest = None\<rparr> heartbeat (MkMAVAddress 511)
       = Inr True \<and> is_ok (mavlink_name common_mavlink 0x100000000)"
proof -
  let ?c = "\<lparr>if_id = None, if_source = None, if_dest = None\<rparr>"
  have "If_type common_mavlink 0x100000000 ?c = Inr (?c\<lparr>if_id := Some 0x100000000\<rparr>)"
    by (simp add: If_type_def mavlink_name_def dialect_eval)
  from if_type_truncated [OF _ this heartbeat_wf, of "MkMAVAddress 511"] show ?thesis
    by (simp add: mavlink_name_def dialect_eval)
qed

end
