(* ===== verification/Connections.thy ===== *)
theory Connections
  imports PacketQueueing AddrPool FilterRules
begin

text \<open>
  \<open>Logger\<close>, \<open>semaphore\<close>, \<open>Connection\<close>, \<open>ConnectionPool\<close> and \<open>ConnectionFactory\<close>: how a received
  packet reaches the queues of the connections.  The operations of a connection run in an explicit
  state that holds the connection, the recursion guards of the filter, the lines logged and the
  number of queue callbacks made; they return a value or an exception together with that state.
\<close>

section \<open>Logger\<close>

text \<open>
  The lines printed, without the time stamp; \<open>current\<close> is the static member \<open>Logger::level_\<close>.
\<close>

definition logger_log :: "nat \<Rightarrow> nat \<Rightarrow> string \<Rightarrow> string list" where
  "logger_log current level message =
     (let level = (if level < 1 then 1 else level) in if current \<ge> level then [message] else [])"

section \<open>Semaphore\<close>

text \<open>\<open>++value_\<close> wraps around at the width of \<open>size_t\<close>.\<close>

type_synonym semaphore = u64

definition sem_notify :: "semaphore \<Rightarrow> semaphore" where
  "sem_notify v = v + 1"

text \<open>A wait ends only when the value is positive.\<close>

definition sem_wait :: "semaphore \<Rightarrow> semaphore option" where
  "sem_wait v = (if v > 0 then Some (v - 1) else None)"

text \<open>
  \<open>wait_for\<close> and \<open>wait_until\<close>: when the wait ends, by a notification or because the time is over, the
  predicate decides the result.
\<close>

definition sem_wait_for :: "semaphore \<Rightarrow> bool \<times> semaphore" where
  "sem_wait_for v = (let result = (v > 0) in (result, if result then v - 1 else v))"

section \<open>Connection\<close>

record Connection =
  conn_name :: string
  conn_filter :: Filter
  conn_mirror :: bool
  conn_pool :: AddressPool
  conn_queue :: PacketQueue

text \<open>The constructor; the three pointers must not be null.\<close>

definition Connection_construct ::
  "string \<Rightarrow> Filter option \<Rightarrow> bool \<Rightarrow> AddressPool option \<Rightarrow> PacketQueue option \<Rightarrow> cpp_error + Connection" where
  "Connection_construct name fil mirror pool queue =
     (case fil of
        None \<Rightarrow> Inl (Invalid_argument ''Given filter pointer is null.'')
      | Some f \<Rightarrow>
          (case pool of
             None \<Rightarrow> Inl (Invalid_argument ''Given pool pointer is null.'')
           | Some p \<Rightarrow>
               (case queue of
                  None \<Rightarrow> Inl (Invalid_argument ''Given queue pointer is null.'')
                | Some q \<Rightarrow>
                    Inr \<lparr>conn_name = name, conn_filter = f, conn_mirror = mirror, conn_pool = p,
                         conn_queue = q\<rparr>)))"

text \<open>
  What does not change while a packet is handled: the MAVLink library, the level of the logger, the
  calling thread, and the name of every connection that still exists.
\<close>

record environment =
  env_mavlink :: mavlink_lib
  env_level :: nat
  env_thread :: thread_id
  env_names :: "nat \<Rightarrow> string option"

record conn_state =
  st_conn :: Connection
  st_guards :: guards
  st_log :: "string list"
  st_notified :: nat

type_synonym 'a action_m = "conn_state \<Rightarrow> (cpp_error + 'a) \<times> conn_state"

definition ret :: "'a \<Rightarrow> 'a action_m" where
  "ret x s = (Inr x, s)"

definition raise :: "cpp_error \<Rightarrow> 'a action_m" where
  "raise e s = (Inl e, s)"

definition andthen :: "'a action_m \<Rightarrow> ('a \<Rightarrow> 'b action_m) \<Rightarrow> 'b action_m" where
  "andthen m f s = (case m s of (Inl e, s') \<Rightarrow> (Inl e, s') | (Inr x, s') \<Rightarrow> f x s')"

definition lift_result :: "cpp_error + 'a \<Rightarrow> 'a action_m" where
  "lift_result r s = (r, s)"

text \<open>The calls a connection makes to its pool, its filter and its queue.\<close>

definition m_contains :: "int \<Rightarrow> MAVAddress \<Rightarrow> bool action_m" where
  "m_contains now a s =
     (let r = pool_contains now a (conn_pool (st_conn s))
      in (Inr (fst r), s\<lparr>st_conn := (st_conn s)\<lparr>conn_pool := snd r\<rparr>\<rparr>))"

definition m_addresses :: "int \<Rightarrow> MAVAddress list action_m" where
  "m_addresses now s =
     (let r = pool_addresses now (conn_pool (st_conn s))
      in (Inr (fst r), s\<lparr>st_conn := (st_conn s)\<lparr>conn_pool := snd r\<rparr>\<rparr>))"

definition m_will_accept :: "environment \<Rightarrow> Packet \<Rightarrow> MAVAddress \<Rightarrow> (bool \<times> int) action_m" where
  "m_will_accept env packet addr s =
     (case will_accept (conn_filter (st_conn s)) (env_thread env) packet addr (st_guards s) of
        None \<Rightarrow> (Inl (Undefined_behaviour ''filter nesting''), s)
      | Some (r, g) \<Rightarrow> (r, s\<lparr>st_guards := g\<rparr>))"

definition m_push :: "Packet option \<Rightarrow> int \<Rightarrow> unit action_m" where
  "m_push packet priority s =
     (case pq_push packet priority (conn_queue (st_conn s)) of
        Inl e \<Rightarrow> (Inl e, s)
      | Inr (q, n) \<Rightarrow>
          (Inr (), s\<lparr>st_conn := (st_conn s)\<lparr>conn_queue := q\<rparr>, st_notified := st_notified s + n\<rparr>))"

definition m_print :: "environment \<Rightarrow> nat \<Rightarrow> string \<Rightarrow> unit action_m" where
  "m_print env level message s = (Inr (), s\<lparr>st_log := st_log s @ logger_log (env_level env) level message\<rparr>)"

text \<open>The name of the connection a packet came from, or \<open>unknown\<close>.\<close>

definition source_name :: "environment \<Rightarrow> Packet \<Rightarrow> string" where
  "source_name env packet =
     (case pkt_connection packet of
        None \<Rightarrow> ''unknown''
      | Some c \<Rightarrow> (case env_names env c of None \<Rightarrow> ''unknown'' | Some n \<Rightarrow> n))"

text \<open>\<open>log_\<close>\<close>

definition conn_log :: "environment \<Rightarrow> bool \<Rightarrow> Packet \<Rightarrow> unit action_m" where
  "conn_log env accept packet s =
     (if env_level env \<ge> 3
      then
        (case show_Packet (env_mavlink env) packet of
           Inl e \<Rightarrow> (Inl e, s)
         | Inr t \<Rightarrow>
             m_print env 3 ((if accept then ''accepted '' else ''rejected '') @ t @ '' source '' @
               source_name env packet @ '' dest '' @ conn_name (st_conn s)) s)
      else (Inr (), s))"

text \<open>
  \<open>send_to_address_\<close>.  The second loop asks the filter about \<open>dest\<close>, not about the address it has
  found, and stops at the first acceptance.
\<close>

fun send_to_component ::
  "environment \<Rightarrow> Packet \<Rightarrow> MAVAddress \<Rightarrow> MAVAddress list \<Rightarrow> bool \<Rightarrow> unit action_m" where
  "send_to_component env packet dest [] system_found =
     (if system_found then conn_log env False packet else ret ())"
| "send_to_component env packet dest (addr # addrs) system_found =
     (if system addr = system dest
      then andthen (m_will_accept env packet dest) (\<lambda>(accept, priority).
             if accept
             then andthen (conn_log env True packet) (\<lambda>_. m_push (Some packet) priority)
             else send_to_component env packet dest addrs True)
      else send_to_component env packet dest addrs system_found)"

definition send_to_address :: "environment \<Rightarrow> int \<Rightarrow> int \<Rightarrow> Packet \<Rightarrow> MAVAddress \<Rightarrow> unit action_m" where
  "send_to_address env t2 t3 packet dest =
     andthen (m_contains t2 dest) (\<lambda>reachable.
       if reachable
       then andthen (m_will_accept env packet dest) (\<lambda>(accept, priority).
              if accept
              then andthen (conn_log env True packet) (\<lambda>_. m_push (Some packet) priority)
              else conn_log env False packet)
       else andthen (m_addresses t3) (\<lambda>addrs. send_to_component env packet dest addrs False))"

text \<open>The loop of \<open>send_to_all_\<close>: acceptance and priority over the addresses.\<close>

fun filter_loop ::
  "environment \<Rightarrow> Packet \<Rightarrow> MAVAddress list \<Rightarrow> bool \<Rightarrow> int \<Rightarrow> (bool \<times> int) action_m" where
  "filter_loop env packet [] accept priority = ret (accept, priority)"
| "filter_loop env packet (addr # addrs) accept priority =
     andthen (m_will_accept env packet addr) (\<lambda>(accept', priority').
       if accept' then filter_loop env packet addrs accept' (max priority priority')
       else filter_loop env packet addrs accept priority)"

definition send_to_all :: "environment \<Rightarrow> int \<Rightarrow> Packet \<Rightarrow> unit action_m" where
  "send_to_all env t3 packet =
     andthen (m_addresses t3) (\<lambda>addrs.
     andthen (filter_loop env packet addrs False int_min) (\<lambda>(accept, priority).
       if accept
       then andthen (conn_log env True packet) (\<lambda>_. m_push (Some packet) priority)
       else conn_log env False packet))"

text \<open>The loop of \<open>send_to_system_\<close> skips the addresses of other systems.\<close>

fun system_loop ::
  "environment \<Rightarrow> Packet \<Rightarrow> u32 \<Rightarrow> MAVAddress list \<Rightarrow> bool \<Rightarrow> bool \<Rightarrow> int \<Rightarrow> (bool \<times> bool \<times> int) action_m" where
  "system_loop env packet sys [] found accept priority = ret (found, accept, priority)"
| "system_loop env packet sys (addr # addrs) found accept priority =
     (if sys = system addr
      then andthen (m_will_accept env packet addr) (\<lambda>(accept', priority').
             if accept' then system_loop env packet sys addrs True accept' (max priority priority')
             else system_loop env packet sys addrs True accept priority)
      else system_loop env packet sys addrs found accept priority)"

definition send_to_system :: "environment \<Rightarrow> int \<Rightarrow> Packet \<Rightarrow> u32 \<Rightarrow> unit action_m" where
  "send_to_system env t3 packet sys =
     andthen (m_addresses t3) (\<lambda>addrs.
     andthen (system_loop env packet sys addrs False False int_min) (\<lambda>(found, accept, priority).
       if found then
         (if accept
          then andthen (conn_log env True packet) (\<lambda>_. m_push (Some packet) priority)
          else conn_log env False packet)
       else ret ()))"

text \<open>\<open>add_address\<close>; the pool is asked only when the logger would print.\<close>

definition add_address :: "environment \<Rightarrow> int \<Rightarrow> int \<Rightarrow> MAVAddress \<Rightarrow> unit action_m" where
  "add_address env t1 t2 a =
     andthen (if env_level env \<ge> 1
              then andthen (m_contains t1 a) (\<lambda>known.
                     if known then ret ()
                     else (\<lambda>s. m_print env 1 (''new component '' @ show_MAVAddress a @ '' on '' @
                                 conn_name (st_conn s)) s))
              else ret ())
       (\<lambda>_ s. (Inr (), s\<lparr>st_conn := (st_conn s)\<lparr>conn_pool := pool_add t2 a (conn_pool (st_conn s))\<rparr>\<rparr>))"

definition next_packet :: "Connection \<Rightarrow> Packet option \<times> Connection" where
  "next_packet c =
     (let r = pq_get_packet (conn_queue c) in (fst r, c\<lparr>conn_queue := snd r\<rparr>))"

text \<open>\<open>send\<close>; \<open>t1\<close>, \<open>t2\<close> and \<open>t3\<close> are the clock readings on the way.\<close>

definition broadcast_address :: MAVAddress where
  "broadcast_address = MkMAVAddress 0"

definition conn_send :: "environment \<Rightarrow> int \<Rightarrow> int \<Rightarrow> int \<Rightarrow> Packet option \<Rightarrow> unit action_m" where
  "conn_send env t1 t2 t3 packet =
     (case packet of
        None \<Rightarrow> raise (Invalid_argument ''Given packet pointer is null.'')
      | Some p \<Rightarrow>
          andthen (lift_result (packet_source p)) (\<lambda>src.
          andthen (m_contains t1 src) (\<lambda>echo.
          if echo then ret ()
          else
            andthen (lift_result (packet_dest (env_mavlink env) p)) (\<lambda>dest s.
              (case dest of
                 None \<Rightarrow> send_to_all env t3 p s
               | Some d \<Rightarrow>
                   if d = broadcast_address \<or> conn_mirror (st_conn s) then send_to_all env t3 p s
                   else if component d = 0 then send_to_system env t3 p (system d) s
                   else send_to_address env t2 t3 p d s)))))"


section \<open>What a send amounts to\<close>

text \<open>The decisions of the filter for a packet, when it always decides and restores its guards.\<close>

definition decision :: "environment \<Rightarrow> conn_state \<Rightarrow> Packet \<Rightarrow> MAVAddress \<Rightarrow> bool \<times> int" where
  "decision env s p addr =
     (case will_accept (conn_filter (st_conn s)) (env_thread env) p addr (st_guards s) of
        Some (Inr v, _) \<Rightarrow> v | _ \<Rightarrow> (False, 0))"

definition decides :: "environment \<Rightarrow> conn_state \<Rightarrow> Packet \<Rightarrow> bool" where
  "decides env s p \<longleftrightarrow>
     (\<forall>addr. will_accept (conn_filter (st_conn s)) (env_thread env) p addr (st_guards s) =
               Some (Inr (decision env s p addr), st_guards s))"

definition printable :: "environment \<Rightarrow> Packet \<Rightarrow> bool" where
  "printable env p \<longleftrightarrow> is_ok (show_Packet (env_mavlink env) p)"

text \<open>
  The priority a packet is queued with, if at all.  \<open>L1\<close>, \<open>L2\<close> and \<open>L3\<close> are the live addresses at
  the three clock readings and \<open>F\<close> the decisions of the filter.
\<close>

definition best_priority :: "(MAVAddress \<Rightarrow> bool \<times> int) \<Rightarrow> MAVAddress set \<Rightarrow> int option" where
  "best_priority F A =
     (let P = {snd (F a) |a. a \<in> A \<and> fst (F a)} in if P = {} then None else Some (Max P))"

definition delivery ::
  "bool \<Rightarrow> MAVAddress \<Rightarrow> MAVAddress option \<Rightarrow> MAVAddress set \<Rightarrow> MAVAddress set \<Rightarrow> MAVAddress set \<Rightarrow>
   (MAVAddress \<Rightarrow> bool \<times> int) \<Rightarrow> int option" where
  "delivery mirror src dest L1 L2 L3 F =
     (if src \<in> L1 then None
      else (case dest of
        None \<Rightarrow> best_priority F L3
      | Some d \<Rightarrow>
          if d = broadcast_address \<or> mirror then best_priority F L3
          else if component d = 0 then best_priority F {a \<in> L3. system a = system d}
          else if (d \<in> L2 \<or> (\<exists>a \<in> L3. system a = system d)) \<and> fst (F d) then Some (snd (F d))
          else None))"

text \<open>
  The change of state a send may make: expired addresses go, log lines come, and the packet is
  queued with the given priority, or not at all.
\<close>

definition outcome :: "int \<Rightarrow> Packet \<Rightarrow> int option \<Rightarrow> conn_state \<Rightarrow> conn_state \<Rightarrow> bool" where
  "outcome t p r s s' \<longleftrightarrow>
     st_guards s' = st_guards s \<and>
     st_notified s' = st_notified s +
       (if r \<noteq> None \<and> pq_callback (conn_queue (st_conn s)) then 1 else 0) \<and>
     (\<exists>pool. pool_wf pool \<and> ap_timeout pool = ap_timeout (conn_pool (st_conn s)) \<and>
        (\<forall>later \<ge> t. live later pool = live later (conn_pool (st_conn s))) \<and>
        st_conn s' = (st_conn s)\<lparr>conn_pool := pool, conn_queue :=
          (case r of None \<Rightarrow> conn_queue (st_conn s) | Some k \<Rightarrow> queue_enq (p, k) (conn_queue (st_conn s)))\<rparr>)"

abbreviation pool_ok :: "conn_state \<Rightarrow> bool" where
  "pool_ok s \<equiv> pool_wf (conn_pool (st_conn s))"

abbreviation live_at :: "int \<Rightarrow> conn_state \<Rightarrow> MAVAddress set" where
  "live_at t s \<equiv> live t (conn_pool (st_conn s))"

lemma outcome_refl: "pool_ok s \<Longrightarrow> outcome t p None s s"
  by (auto simp: outcome_def intro!: exI [of _ "conn_pool (st_conn s)"])

lemma outcome_trans:
  assumes "outcome t p None s s1" "outcome t' p r s1 s2" "t \<le> t'"
  shows "outcome t' p r s s2"
  using assms by (auto simp: outcome_def)

lemma outcome_later: "outcome t p r s s' \<Longrightarrow> t \<le> t' \<Longrightarrow> outcome t' p r s s'"
  by (auto simp: outcome_def)

lemma outcome_pool: "outcome t p r s s' \<Longrightarrow> pool_ok s'"
  by (auto simp: outcome_def)

lemma outcome_live: "outcome t p r s s' \<Longrightarrow> t \<le> later \<Longrightarrow> live_at later s' = live_at later s"
  by (auto simp: outcome_def)

lemma outcome_decision: "outcome t p None s s' \<Longrightarrow> decision env s' = decision env s"
proof -
  assume o: "outcome t p None s s'"
  then have same: "conn_filter (st_conn s') = conn_filter (st_conn s)" "st_guards s' = st_guards s"
    by (auto simp: outcome_def)
  show ?thesis by (intro ext) (simp only: decision_def same)
qed

lemma outcome_decides: "outcome t p None s s' \<Longrightarrow> decides env s' q = decides env s q"
  using outcome_decision [of t p s s' env] by (auto simp: outcome_def decides_def)

lemma m_contains_ok:
  assumes "pool_ok s"
  obtains s' where "m_contains t a s = (Inr (a \<in> live_at t s), s')" "outcome t p None s s'"
proof -
  let ?p = "snd (pool_contains t a (conn_pool (st_conn s)))"
  have "outcome t p None s (s\<lparr>st_conn := (st_conn s)\<lparr>conn_pool := ?p\<rparr>\<rparr>)"
    using assms by (auto simp: outcome_def pool_ops_wf live_after_purge intro!: exI [of _ ?p])
  then show thesis using that by (simp add: m_contains_def Let_def pool_contains_live)
qed

lemma m_addresses_ok:
  assumes "pool_ok s"
  obtains s' where "m_addresses t s = (Inr (sorted_list_of_set (live_at t s)), s')" "outcome t p None s s'"
proof -
  let ?p = "snd (pool_addresses t (conn_pool (st_conn s)))"
  have "outcome t p None s (s\<lparr>st_conn := (st_conn s)\<lparr>conn_pool := ?p\<rparr>\<rparr>)"
    using assms by (auto simp: outcome_def pool_ops_wf live_after_purge intro!: exI [of _ ?p])
  then show thesis using that assms by (simp add: m_addresses_def Let_def pool_addresses_list)
qed

lemma m_will_accept_ok: "decides env s p \<Longrightarrow> m_will_accept env p a s = (Inr (decision env s p a), s)"
  by (simp add: m_will_accept_def decides_def)

lemma conn_log_ok:
  assumes "pool_ok s" "printable env p"
  obtains s' where "conn_log env b p s = (Inr (), s')" "outcome t p None s s'"
proof -
  have "outcome t p None s (s\<lparr>st_log := l\<rparr>)" for l
    using assms(1) by (auto simp: outcome_def intro!: exI [of _ "conn_pool (st_conn s)"])
  moreover obtain shown where "show_Packet (env_mavlink env) p = Inr shown"
    using assms(2) by (auto simp: printable_def is_ok_iff)
  ultimately show thesis
    using that outcome_refl [OF assms(1), of t p]
    by (cases "env_level env \<ge> 3") (simp_all add: conn_log_def m_print_def)
qed

lemma m_push_ok:
  assumes "pool_ok s"
  obtains s' where "m_push (Some p) k s = (Inr (), s')" "outcome t p (Some k) s s'"
proof -
  have "outcome t p (Some k) s (s\<lparr>st_conn := (st_conn s)\<lparr>conn_queue := queue_enq (p, k) (conn_queue (st_conn s))\<rparr>,
      st_notified := st_notified s + (if pq_callback (conn_queue (st_conn s)) then 1 else 0)\<rparr>)"
    using assms by (auto simp: outcome_def intro!: exI [of _ "conn_pool (st_conn s)"])
  then show thesis
    using that by (simp add: m_push_def pq_push_def QueuedPacket_construct_def queue_enq_eq)
qed

text \<open>The end of every branch: log and push, or log the rejection.\<close>

definition finish :: "environment \<Rightarrow> Packet \<Rightarrow> bool \<times> int \<Rightarrow> unit action_m" where
  "finish env p v =
     (if fst v then andthen (conn_log env True p) (\<lambda>_. m_push (Some p) (snd v))
      else conn_log env False p)"

lemma finish_ok:
  assumes "pool_ok s" "printable env p"
  shows "\<exists>s'. finish env p v s = (Inr (), s') \<and> outcome t p (if fst v then Some (snd v) else None) s s'"
proof (cases "fst v")
  case True
  obtain s1 where s1: "conn_log env True p s = (Inr (), s1)" "outcome t p None s s1"
    using conn_log_ok [OF assms] by blast
  obtain s2 where s2: "m_push (Some p) (snd v) s1 = (Inr (), s2)" "outcome t p (Some (snd v)) s1 s2"
    using m_push_ok [OF outcome_pool [OF s1(2)]] by blast
  show ?thesis using True s1 s2 outcome_trans [OF s1(2) s2(2)] by (simp add: finish_def andthen_def)
next
  case False
  then show ?thesis using conn_log_ok [OF assms] by (metis finish_def)
qed


text \<open>The three branches in terms of \<open>finish\<close>.\<close>

lemma finish_eq:
  "(\<lambda>(accept, priority). if accept then andthen (conn_log env True p) (\<lambda>_. m_push (Some p) priority)
                        else conn_log env False p) = finish env p"
  by (auto simp: finish_def fun_eq_iff)

lemma filter_loop_ok:
  assumes "decides env s p"
  shows "filter_loop env p addrs accept k s =
    (Inr (accept \<or> (\<exists>a \<in> set addrs. fst (decision env s p a)),
          fold max (map snd (filter fst (map (decision env s p) addrs))) k), s)"
proof (induction addrs arbitrary: accept k)
  case (Cons a addrs)
  then show ?case
    by (cases "decision env s p a")
      (auto simp: andthen_def m_will_accept_ok [OF assms] max.commute)
qed (simp add: ret_def)

lemma system_loop_ok:
  assumes "decides env s p"
  shows "system_loop env p sys addrs found accept k s =
    (Inr (found \<or> (\<exists>a \<in> set addrs. system a = sys),
          accept \<or> (\<exists>a \<in> set addrs. system a = sys \<and> fst (decision env s p a)),
          fold max (map snd (filter fst (map (decision env s p) (filter (\<lambda>a. system a = sys) addrs)))) k), s)"
proof (induction addrs arbitrary: found accept k)
  case (Cons a addrs)
  then show ?case
    by (cases "decision env s p a")
      (auto simp: andthen_def m_will_accept_ok [OF assms] max.commute)
qed (simp add: ret_def)

text \<open>The running maximum is the best priority: no priority is below \<open>int\<close>'s minimum.\<close>

lemma fold_max_best:
  assumes "\<forall>a. int_min \<le> snd (F a)" "set xs = A"
  shows "(if \<exists>a \<in> set xs. fst (F a)
          then Some (fold max (map snd (filter fst (map F xs))) int_min) else None) = best_priority F A"
proof -
  let ?ks = "map snd (filter fst (map F xs))" and ?P = "{snd (F a) |a. a \<in> A \<and> fst (F a)}"
  have P: "set ?ks = ?P" using assms(2) by auto
  show ?thesis
  proof (cases "\<exists>a \<in> set xs. fst (F a)")
    case True
    then have ne: "?P \<noteq> {}" using assms(2) by blast
    have fin: "finite ?P" unfolding P [symmetric] by simp
    have "fold max ?ks int_min = Max (insert int_min ?P)"
      using Max.set_eq_fold [of int_min ?ks] P by simp
    also have "\<dots> = max int_min (Max ?P)" using ne fin by simp
    also have "\<dots> = Max ?P"
      using Max_in [OF fin ne] assms(1) by fastforce
    finally show ?thesis using True ne by (simp add: best_priority_def Let_def)
  next
    case False
    then have "?P = {}" using assms(2) by auto
    then show ?thesis using False by (simp add: best_priority_def Let_def)
  qed
qed

lemma send_to_component_ok:
  assumes "decides env s p" "pool_ok s" "printable env p"
  shows "\<exists>s'. send_to_component env p dest addrs found s = (Inr (), s') \<and>
    outcome t p (if (\<exists>a \<in> set addrs. system a = system dest) \<and> fst (decision env s p dest)
                 then Some (snd (decision env s p dest)) else None) s s'"
proof (induction addrs arbitrary: found)
  case Nil
  then show ?case
    using conn_log_ok [OF assms(2,3)] outcome_refl [OF assms(2)] by (auto simp: ret_def) metis
next
  case (Cons a addrs)
  obtain acc k where d: "decision env s p dest = (acc, k)" by (cases "decision env s p dest")
  show ?case
  proof (cases "system a = system dest")
    case True
    show ?thesis
    proof (cases acc)
      case acc: True
      then show ?thesis
        using finish_ok [OF assms(2,3), of "(acc, k)" t] d True
        by (simp add: andthen_def m_will_accept_ok [OF assms(1)] finish_def)
    next
      case False
      then show ?thesis
        using Cons [of True] d True by (simp add: andthen_def m_will_accept_ok [OF assms(1)])
    qed
  next
    case False
    then show ?thesis using Cons [of found] by simp
  qed
qed

lemma send_to_all_ok:
  assumes "decides env s p" "pool_ok s" "printable env p" "\<forall>a. int_min \<le> snd (decision env s p a)"
  shows "\<exists>s'. send_to_all env t p s = (Inr (), s') \<and>
    outcome t p (best_priority (decision env s p) (live_at t s)) s s'"
proof -
  let ?F = "decision env s p" and ?addrs = "sorted_list_of_set (live_at t s)"
  obtain s1 where s1: "m_addresses t s = (Inr ?addrs, s1)" "outcome t p None s s1"
    using m_addresses_ok [OF assms(2)] by blast
  have d: "decides env s1 p" "decision env s1 p = ?F"
    using outcome_decides [OF s1(2)] outcome_decision [OF s1(2)] assms(1) by simp_all
  let ?v = "(\<exists>a \<in> set ?addrs. fst (?F a), fold max (map snd (filter fst (map ?F ?addrs))) int_min)"
  have loop: "filter_loop env p ?addrs False int_min s1 = (Inr ?v, s1)"
    using filter_loop_ok [OF d(1)] d(2) by simp
  obtain s2 where s2: "finish env p ?v s1 = (Inr (), s2)"
      "outcome t p (if fst ?v then Some (snd ?v) else None) s1 s2"
    using finish_ok [OF outcome_pool [OF s1(2)] assms(3)] by blast
  have "(if fst ?v then Some (snd ?v) else None) = best_priority ?F (live_at t s)"
    using fold_max_best [OF assms(4), of ?addrs "live_at t s"]
    by (auto simp: finite_live split: if_splits)
  then show ?thesis
    using s1 s2 loop outcome_trans [OF s1(2) s2(2)]
    by (simp add: send_to_all_def andthen_def finish_eq)
qed

lemma send_to_system_ok:
  assumes "decides env s p" "pool_ok s" "printable env p" "\<forall>a. int_min \<le> snd (decision env s p a)"
  shows "\<exists>s'. send_to_system env t p sys s = (Inr (), s') \<and>
    outcome t p (best_priority (decision env s p) {a \<in> live_at t s. system a = sys}) s s'"
proof -
  let ?F = "decision env s p" and ?addrs = "sorted_list_of_set (live_at t s)"
  let ?here = "filter (\<lambda>a. system a = sys) ?addrs"
  obtain s1 where s1: "m_addresses t s = (Inr ?addrs, s1)" "outcome t p None s s1"
    using m_addresses_ok [OF assms(2)] by blast
  have d: "decides env s1 p" "decision env s1 p = ?F"
    using outcome_decides [OF s1(2)] outcome_decision [OF s1(2)] assms(1) by simp_all
  define acc where "acc \<longleftrightarrow> (\<exists>a \<in> set ?here. fst (?F a))"
  define k where "k = fold max (map snd (filter fst (map ?F ?here))) int_min"
  have loop: "system_loop env p sys ?addrs False False int_min s1 = (Inr (?here \<noteq> [], acc, k), s1)"
    using system_loop_ok [OF d(1), of sys ?addrs False False int_min] d(2)
    by (auto simp: filter_empty_conv acc_def k_def)
  have best: "(if acc then Some k else None) = best_priority ?F {a \<in> live_at t s. system a = sys}"
    using fold_max_best [OF assms(4), of ?here "{a \<in> live_at t s. system a = sys}"]
    by (auto simp: finite_live acc_def k_def split: if_splits)
  show ?thesis
  proof (cases "?here = []")
    case True
    then have "\<not> acc" by (simp add: acc_def)
    then have "best_priority ?F {a \<in> live_at t s. system a = sys} = None" using best by simp
    then show ?thesis
      using s1 loop True by (simp add: send_to_system_def andthen_def ret_def)
  next
    case False
    obtain s2 where s2: "finish env p (acc, k) s1 = (Inr (), s2)"
        "outcome t p (if acc then Some k else None) s1 s2"
      using finish_ok [OF outcome_pool [OF s1(2)] assms(3), of "(acc, k)" t, unfolded fst_conv snd_conv]
      by blast
    have "send_to_system env t p sys s = finish env p (acc, k) s1"
      using s1(1) loop False by (simp add: send_to_system_def andthen_def finish_def)
    then show ?thesis
      using s2 best outcome_trans [OF s1(2) s2(2)] by simp
  qed
qed

lemma send_to_address_ok:
  assumes "decides env s p" "pool_ok s" "printable env p" "t2 \<le> t3"
  shows "\<exists>s'. send_to_address env t2 t3 p dest s = (Inr (), s') \<and>
    outcome t3 p
      (if (dest \<in> live_at t2 s \<or> (\<exists>a \<in> live_at t3 s. system a = system dest)) \<and> fst (decision env s p dest)
       then Some (snd (decision env s p dest)) else None) s s'"
proof -
  let ?F = "decision env s p"
  obtain s1 where s1: "m_contains t2 dest s = (Inr (dest \<in> live_at t2 s), s1)" "outcome t2 p None s s1"
    using m_contains_ok [OF assms(2)] by blast
  have d: "decides env s1 p" "decision env s1 p = ?F"
    using outcome_decides [OF s1(2)] outcome_decision [OF s1(2)] assms(1) by simp_all
  show ?thesis
  proof (cases "dest \<in> live_at t2 s")
    case True
    obtain s2 where s2: "finish env p (?F dest) s1 = (Inr (), s2)"
        "outcome t3 p (if fst (?F dest) then Some (snd (?F dest)) else None) s1 s2"
      using finish_ok [OF outcome_pool [OF s1(2)] assms(3)] by blast
    then show ?thesis
      using s1 True d(2) m_will_accept_ok [OF d(1), of dest] outcome_trans [OF s1(2) s2(2) assms(4)]
      by (simp add: send_to_address_def andthen_def finish_eq)
  next
    case False
    obtain s2 where s2: "m_addresses t3 s1 = (Inr (sorted_list_of_set (live_at t3 s1)), s2)"
        "outcome t3 p None s1 s2"
      using m_addresses_ok [OF outcome_pool [OF s1(2)]] by blast
    have d2: "decides env s2 p" "decision env s2 p = ?F"
      using outcome_decides [OF s2(2)] outcome_decision [OF s2(2)] d by simp_all
    have l: "live_at t3 s1 = live_at t3 s" using outcome_live [OF s1(2) assms(4)] .
    obtain s3 where s3: "send_to_component env p dest (sorted_list_of_set (live_at t3 s1)) False s2 = (Inr (), s3)"
        "outcome t3 p (if (\<exists>a \<in> live_at t3 s. system a = system dest) \<and> fst (?F dest)
                       then Some (snd (?F dest)) else None) s2 s3"
      using send_to_component_ok [OF d2(1) outcome_pool [OF s2(2)] assms(3),
          of dest "sorted_list_of_set (live_at t3 s1)" False t3, unfolded d2(2)] l
      by (auto simp: finite_live)
    have "outcome t3 p None s s2" by (rule outcome_trans [OF s1(2) s2(2) assms(4)])
    from outcome_trans [OF this s3(2)] show ?thesis
      using s1(1) s2(1) s3(1) False by (simp add: send_to_address_def andthen_def)
  qed
qed

text \<open>The whole of \<open>send\<close>.\<close>

lemma conn_send_ok:
  assumes "decides env s p" "pool_ok s" "printable env p" "\<forall>a. int_min \<le> snd (decision env s p a)"
    "packet_source p = Inr src" "packet_dest (env_mavlink env) p = Inr dest" "t1 \<le> t2" "t2 \<le> t3"
  shows "\<exists>s'. conn_send env t1 t2 t3 (Some p) s = (Inr (), s') \<and>
    outcome t3 p (delivery (conn_mirror (st_conn s)) src dest (live_at t1 s) (live_at t2 s) (live_at t3 s)
                    (decision env s p)) s s'"
proof -
  let ?F = "decision env s p"
  obtain s1 where s1: "m_contains t1 src s = (Inr (src \<in> live_at t1 s), s1)" "outcome t1 p None s s1"
    using m_contains_ok [OF assms(2)] by blast
  have d: "decides env s1 p" "decision env s1 p = ?F" "\<forall>a. int_min \<le> snd (decision env s1 p a)"
    using outcome_decides [OF s1(2)] outcome_decision [OF s1(2)] assms(1,4) by simp_all
  note ok1 = outcome_pool [OF s1(2)] and t = order_trans [OF assms(7,8)]
  have live: "live_at t2 s1 = live_at t2 s" "live_at t3 s1 = live_at t3 s"
    using outcome_live [OF s1(2)] assms(7,8) by simp_all
  have mirror: "conn_mirror (st_conn s1) = conn_mirror (st_conn s)"
    using s1(2) by (auto simp: outcome_def)
  note trans = outcome_trans [OF s1(2) _ t]
  note eqs = conn_send_def andthen_def lift_result_def assms(5,6) s1(1) delivery_def
  show ?thesis
  proof (cases "src \<in> live_at t1 s")
    case True
    then show ?thesis using outcome_later [OF s1(2) t] by (simp add: eqs ret_def)
  next
    case False
    consider (all) "dest = None \<or> (\<exists>a. dest = Some a \<and> (a = broadcast_address \<or> conn_mirror (st_conn s)))"
      | (system) a where "dest = Some a" "a \<noteq> broadcast_address" "\<not> conn_mirror (st_conn s)" "component a = 0"
      | (address) a where "dest = Some a" "a \<noteq> broadcast_address" "\<not> conn_mirror (st_conn s)" "component a \<noteq> 0"
      by (cases dest) auto
    then show ?thesis
    proof cases
      case all
      obtain s2 where "send_to_all env t3 p s1 = (Inr (), s2)"
          "outcome t3 p (best_priority ?F (live_at t3 s)) s1 s2"
        using send_to_all_ok [OF d(1) ok1 assms(3) d(3), of t3, unfolded d(2) live] by auto
      then show ?thesis
        using all False trans mirror by (cases dest) (auto simp: eqs)
    next
      case system
      obtain s2 where "send_to_system env t3 p (MavAddress.system a) s1 = (Inr (), s2)"
          "outcome t3 p (best_priority ?F {b \<in> live_at t3 s. MavAddress.system b = MavAddress.system a}) s1 s2"
        using send_to_system_ok [OF d(1) ok1 assms(3) d(3), of t3 "MavAddress.system a",
            unfolded d(2) live] by auto
      then show ?thesis using system False trans mirror by (simp add: eqs)
    next
      case address
      obtain s2 where "send_to_address env t2 t3 p a s1 = (Inr (), s2)"
          "outcome t3 p (if (a \<in> live_at t2 s \<or> (\<exists>b \<in> live_at t3 s. MavAddress.system b = MavAddress.system a)) \<and> fst (?F a)
             then Some (snd (?F a)) else None) s1 s2"
        using send_to_address_ok [OF d(1) ok1 assms(3,8), of a, unfolded d(2) live] by auto
      then show ?thesis using address False trans mirror by (simp add: eqs)
    qed
  qed
qed


section \<open>ConnectionPool\<close>

text \<open>
  The connections that exist are found under their numbers; the pool holds weak pointers, in the
  order of its set.  All connections share the filter of the application, hence its guards.
  \<open>net_owner\<close> tells which connection factory the queue callback of a connection notifies, and
  \<open>net_sems\<close> has the semaphores of the factories.
\<close>

record network =
  net_conns :: "nat \<Rightarrow> Connection option"
  net_guards :: guards
  net_log :: "string list"
  net_owner :: "nat \<Rightarrow> nat option"
  net_sems :: "nat \<Rightarrow> semaphore"

definition conn_pool_add :: "nat \<Rightarrow> nat list \<Rightarrow> nat list" where
  "conn_pool_add c cs = (if c \<in> set cs then cs else insort c cs)"

definition conn_pool_remove :: "nat \<Rightarrow> nat list \<Rightarrow> nat list" where
  "conn_pool_remove c cs = filter (\<lambda>d. d \<noteq> c) cs"

text \<open>
  Running a step of one connection inside the network; each callback of its queue is one \<open>notify\<close>.
\<close>

definition notify_owner :: "nat \<Rightarrow> nat \<Rightarrow> network \<Rightarrow> nat \<Rightarrow> semaphore" where
  "notify_owner c n w =
     (case net_owner w c of
        None \<Rightarrow> net_sems w
      | Some f \<Rightarrow> (net_sems w)(f := (sem_notify ^^ n) (net_sems w f)))"

definition on_connection :: "nat \<Rightarrow> Connection \<Rightarrow> unit action_m \<Rightarrow> network \<Rightarrow> (cpp_error + unit) \<times> network" where
  "on_connection c conn m w =
     (case m \<lparr>st_conn = conn, st_guards = net_guards w, st_log = net_log w, st_notified = 0\<rparr> of
        (r, s) \<Rightarrow> (r, \<lparr>net_conns = (net_conns w)(c \<mapsto> st_conn s), net_guards = st_guards s,
                     net_log = st_log s, net_owner = net_owner w,
                     net_sems = notify_owner c (st_notified s) w\<rparr>))"

text \<open>
  The loop of \<open>send\<close>: a weak pointer that cannot be locked is erased.  The result has the pointers
  that are left, also when a connection throws.  \<open>clock\<close> gives the clock readings of a connection.
\<close>

fun pool_send_loop ::
  "environment \<Rightarrow> (nat \<Rightarrow> int \<times> int \<times> int) \<Rightarrow> Packet \<Rightarrow> nat list \<Rightarrow> network \<Rightarrow>
   (cpp_error + unit) \<times> nat list \<times> network" where
  "pool_send_loop env clock p [] w = (Inr (), [], w)"
| "pool_send_loop env clock p (c # cs) w =
     (case net_conns w c of
        None \<Rightarrow> pool_send_loop env clock p cs w
      | Some conn \<Rightarrow>
          (case clock c of (t1, t2, t3) \<Rightarrow>
             (case on_connection c conn (conn_send env t1 t2 t3 (Some p)) w of
                (Inl e, w') \<Rightarrow> (Inl e, c # cs, w')
              | (Inr _, w') \<Rightarrow>
                  (case pool_send_loop env clock p cs w' of (r, cs', w'') \<Rightarrow> (r, c # cs', w'')))))"

definition conn_pool_send ::
  "environment \<Rightarrow> (nat \<Rightarrow> int \<times> int \<times> int) \<Rightarrow> Packet option \<Rightarrow> nat list \<Rightarrow> network \<Rightarrow>
   (cpp_error + unit) \<times> nat list \<times> network" where
  "conn_pool_send env clock packet cs w =
     (case packet of
        None \<Rightarrow> (Inl (Invalid_argument ''Given packet pointer is null.''), cs, w)
      | Some p \<Rightarrow>
          (if env_level env \<ge> 2
           then
             (case show_Packet (env_mavlink env) p of
                Inl e \<Rightarrow> (Inl e, cs, w)
              | Inr t \<Rightarrow>
                  pool_send_loop env clock p cs
                    (w\<lparr>net_log := net_log w @ logger_log (env_level env) 2
                        (''received '' @ t @ '' source '' @ source_name env p)\<rparr>))
           else pool_send_loop env clock p cs w))"

section \<open>ConnectionFactory\<close>

text \<open>
  A factory is known by a number, under which the network keeps its semaphore.  The lambda of
  \<open>get\<close> captures the factory, which is the owner \<open>net_owner\<close> records.
\<close>

record ConnectionFactory =
  cf_number :: nat
  cf_filter :: Filter
  cf_mirror :: bool

definition ConnectionFactory_construct ::
  "nat \<Rightarrow> Filter option \<Rightarrow> bool \<Rightarrow> network \<Rightarrow> (cpp_error + ConnectionFactory) \<times> network" where
  "ConnectionFactory_construct n fil mirror w =
     (case fil of
        None \<Rightarrow> (Inl (Invalid_argument ''Given filter pointer is null.''), w)
      | Some f \<Rightarrow> (Inr \<lparr>cf_number = n, cf_filter = f, cf_mirror = mirror\<rparr>,
                   w\<lparr>net_sems := (net_sems w)(n := 0)\<rparr>))"

text \<open>
  \<open>get\<close> allocates a connection under the number \<open>c\<close>: the pool has the default timeout of
  120000 ms, and the callback of the queue notifies the semaphore of the factory.
\<close>

definition factory_get ::
  "string \<Rightarrow> nat \<Rightarrow> ConnectionFactory \<Rightarrow> network \<Rightarrow> (cpp_error + nat) \<times> network" where
  "factory_get name c cf w =
     (case Connection_construct name (Some (cf_filter cf)) (cf_mirror cf)
             (Some (AddressPool_construct 120000)) (Some (PacketQueue_construct True)) of
        Inl e \<Rightarrow> (Inl e, w)
      | Inr conn \<Rightarrow> (Inr c, w\<lparr>net_conns := (net_conns w)(c \<mapsto> conn),
                              net_owner := (net_owner w)(c \<mapsto> cf_number cf)\<rparr>))"

definition wait_for_packet :: "ConnectionFactory \<Rightarrow> network \<Rightarrow> bool \<times> network" where
  "wait_for_packet cf w =
     (let r = sem_wait_for (net_sems w (cf_number cf))
      in (fst r, w\<lparr>net_sems := (net_sems w)(cf_number cf := snd r)\<rparr>))"

section \<open>Properties\<close>

text \<open>
  A connection in the network that can take the packet: its pool is well formed, the filter decides
  without a recursion error and with priorities of C++'s \<open>int\<close>, and the clock does not run backwards.
\<close>

definition conn_ready :: "environment \<Rightarrow> guards \<Rightarrow> Packet \<Rightarrow> Connection \<Rightarrow> bool" where
  "conn_ready env g p c \<longleftrightarrow>
     pool_wf (conn_pool c) \<and>
     (\<forall>addr. \<exists>accept priority. int_min \<le> priority \<and>
        will_accept (conn_filter c) (env_thread env) p addr g = Some (Inr (accept, priority), g))"

definition verdict_of :: "environment \<Rightarrow> guards \<Rightarrow> Packet \<Rightarrow> Connection \<Rightarrow> MAVAddress \<Rightarrow> bool \<times> int" where
  "verdict_of env g p c addr =
     (case will_accept (conn_filter c) (env_thread env) p addr g of
        Some (Inr v, _) \<Rightarrow> v | _ \<Rightarrow> (False, 0))"

text \<open>What a packet does to a connection: the queue gains it, or not.\<close>

definition delivered :: "int \<Rightarrow> Packet \<Rightarrow> int option \<Rightarrow> Connection \<Rightarrow> Connection \<Rightarrow> bool" where
  "delivered t p r c c' \<longleftrightarrow>
     conn_name c' = conn_name c \<and> conn_filter c' = conn_filter c \<and> conn_mirror c' = conn_mirror c \<and>
     conn_queue c' = (case r of None \<Rightarrow> conn_queue c | Some k \<Rightarrow> queue_enq (p, k) (conn_queue c)) \<and>
     pool_wf (conn_pool c') \<and> ap_timeout (conn_pool c') = ap_timeout (conn_pool c) \<and>
     (\<forall>later \<ge> t. live later (conn_pool c') = live later (conn_pool c))"

lemma conn_ready_decides:
  assumes "conn_ready env g p c" "st_conn s = c" "st_guards s = g"
  shows "decides env s p" "decision env s p = verdict_of env g p c" "pool_wf (conn_pool c)"
    "\<forall>a. int_min \<le> snd (decision env s p a)"
proof -
  have d: "decision env s p a = verdict_of env g p c a" for a
    using assms(2,3) by (simp add: decision_def verdict_of_def)
  have w: "will_accept (conn_filter c) (env_thread env) p a g = Some (Inr (verdict_of env g p c a), g) \<and>
      int_min \<le> snd (verdict_of env g p c a)" for a
  proof -
    obtain acc k where "int_min \<le> k" "will_accept (conn_filter c) (env_thread env) p a g = Some (Inr (acc, k), g)"
      using assms(1) unfolding conn_ready_def by blast
    then show ?thesis by (simp add: verdict_of_def)
  qed
  show "decides env s p" using w d assms(2,3) by (simp add: decides_def)
  show "decision env s p = verdict_of env g p c" using d by blast
  show "pool_wf (conn_pool c)" using assms(1) by (simp add: conn_ready_def)
  show "\<forall>a. int_min \<le> snd (decision env s p a)" using w d by simp
qed

lemma outcome_delivered: "outcome t p r s s' \<Longrightarrow> delivered t p r (st_conn s) (st_conn s')"
  by (auto simp: outcome_def delivered_def)

text \<open>C5: sending a packet on a connection.  With the addresses live at the three clock readings and
  the verdicts of the filter, the packet is queued at most once, exactly as routing prescribes: never
  when its source is reachable on the connection; for a broadcast, a packet without destination or a
  mirror connection, if some live address accepts it, with the highest accepting priority; for a
  system broadcast, the same over the addresses of that system; otherwise only if the filter accepts
  the destination and the destination or at least its system is live.  Nothing else changes except
  that expired addresses are dropped; the queue's callback runs once per packet queued.\<close>

theorem conn_send_delivers:
  assumes "conn_ready env (st_guards s) p (st_conn s)" "printable env p"
    "packet_source p = Inr src" "packet_dest (env_mavlink env) p = Inr dest" "t1 \<le> t2" "t2 \<le> t3"
  shows "\<exists>s'. conn_send env t1 t2 t3 (Some p) s = (Inr (), s') \<and>
    (let r = delivery (conn_mirror (st_conn s)) src dest (live_at t1 s) (live_at t2 s) (live_at t3 s)
               (verdict_of env (st_guards s) p (st_conn s))
     in delivered t3 p r (st_conn s) (st_conn s') \<and> st_guards s' = st_guards s \<and>
        st_notified s' = st_notified s +
          (if r \<noteq> None \<and> pq_callback (conn_queue (st_conn s)) then 1 else 0))"
proof -
  note c = conn_ready_decides [OF assms(1) refl refl]
  obtain s' where "conn_send env t1 t2 t3 (Some p) s = (Inr (), s')"
      "outcome t3 p (delivery (conn_mirror (st_conn s)) src dest (live_at t1 s) (live_at t2 s) (live_at t3 s)
         (decision env s p)) s s'"
    using conn_send_ok [OF c(1,3) assms(2) c(4) assms(3-6)] by blast
  then show ?thesis
    unfolding c(2) Let_def using outcome_delivered by (auto simp: outcome_def)
qed

text \<open>
  The semaphore of a factory counts the packets queued on its connections, modulo the width of
  \<open>size_t\<close>.
\<close>

definition queued :: "network \<Rightarrow> nat \<Rightarrow> nat" where
  "queued w c = (case net_conns w c of None \<Rightarrow> 0 | Some conn \<Rightarrow> length (pq_queue (conn_queue conn)))"

definition owned :: "network \<Rightarrow> nat \<Rightarrow> nat set" where
  "owned w f = {c. net_owner w c = Some f}"

definition counted :: "network \<Rightarrow> nat \<Rightarrow> nat" where
  "counted w f = (\<Sum>c \<in> owned w f. queued w c)"

definition accounted :: "network \<Rightarrow> bool" where
  "accounted w \<longleftrightarrow>
     (\<forall>f. finite (owned w f) \<and> net_sems w f = of_nat (counted w f)) \<and>
     (\<forall>c f. net_owner w c = Some f \<longrightarrow>
        (\<exists>conn. net_conns w c = Some conn \<and> pq_callback (conn_queue conn)))"

lemma sem_notify_times: "(sem_notify ^^ k) v = v + of_nat k"
  by (induction k) (simp_all add: sem_notify_def)

text \<open>A step of one connection that calls back once for each packet it queues keeps the count.\<close>

lemma counted_upd:
  assumes "finite (owned w f)" "net_owner w' = net_owner w" "net_conns w' = (net_conns w)(c \<mapsto> conn')"
    "net_conns w c = Some conn"
    "length (pq_queue (conn_queue conn')) = length (pq_queue (conn_queue conn)) + k"
  shows "counted w' f = counted w f + (if c \<in> owned w f then k else 0)"
proof -
  have o: "owned w' f = owned w f" using assms(2) by (simp add: owned_def)
  have q: "queued w' d = queued w d + (if d = c then k else 0)" for d
    using assms(3-5) by (simp add: queued_def)
  show ?thesis
    using assms(1) unfolding counted_def o q by (simp add: sum.distrib sum.delta)
qed

lemma on_connection_accounted:
  assumes "accounted w" "net_conns w c = Some conn" "outcome t p r s s'" "st_conn s = conn" "st_notified s = 0"
    "w' = \<lparr>net_conns = (net_conns w)(c \<mapsto> st_conn s'), net_guards = g, net_log = l,
           net_owner = net_owner w, net_sems = notify_owner c (st_notified s') w\<rparr>"
  shows "accounted w'"
proof -
  let ?q = "conn_queue conn" and ?k = "case r of None \<Rightarrow> 0 | Some _ \<Rightarrow> Suc 0"
  have q': "length (pq_queue (conn_queue (st_conn s'))) = length (pq_queue ?q) + ?k"
      "pq_callback (conn_queue (st_conn s')) = pq_callback ?q"
    using assms(3,4) by (auto simp: outcome_def queue_enq_eq split: option.splits)
  have n: "st_notified s' = (if pq_callback ?q then ?k else 0)"
    using assms(3-5) by (auto simp: outcome_def split: option.splits)
  have fin: "finite (owned w f)" for f using assms(1) by (simp add: accounted_def)
  have cnt: "counted w' f = counted w f + (if c \<in> owned w f then ?k else 0)" for f
    by (rule counted_upd [OF fin _ _ assms(2) q'(1)]) (simp_all add: assms(6))
  have o: "owned w' f = owned w f" for f by (simp add: owned_def assms(6))
  have cb: "net_owner w d = Some f \<Longrightarrow> \<exists>conn. net_conns w d = Some conn \<and> pq_callback (conn_queue conn)" for d f
    using assms(1) by (simp add: accounted_def)
  have sems: "net_sems w' f = of_nat (counted w' f)" for f
  proof (cases "net_owner w c = Some f")
    case True
    then have "pq_callback ?q" using cb [OF True] assms(2) by simp
    then show ?thesis
      using True n assms(1) unfolding cnt
      by (simp add: assms(6) notify_owner_def sem_notify_times owned_def accounted_def)
  next
    case False
    then show ?thesis
      using assms(1) unfolding cnt
      by (simp add: assms(6) notify_owner_def owned_def accounted_def split: option.split)
  qed
  have "net_owner w d = Some f \<Longrightarrow> \<exists>conn. net_conns w' d = Some conn \<and> pq_callback (conn_queue conn)" for d f
    using cb [of d f] q'(2) assms(2) by (cases "d = c") (simp_all add: assms(6))
  then show ?thesis
    using sems fin o by (simp add: accounted_def assms(6))
qed

lemma pool_send_loop_ok:
  assumes "distinct cs" "printable env p" "packet_source p = Inr src"
    "packet_dest (env_mavlink env) p = Inr dest"
    "\<forall>c \<in> set cs. \<forall>conn. net_conns w c = Some conn \<longrightarrow> conn_ready env (net_guards w) p conn"
    "\<forall>c \<in> set cs. case clock c of (t1, t2, t3) \<Rightarrow> t1 \<le> t2 \<and> t2 \<le> t3"
  shows "\<exists>w'. pool_send_loop env clock p cs w = (Inr (), filter (\<lambda>c. net_conns w c \<noteq> None) cs, w') \<and>
    net_guards w' = net_guards w \<and> net_owner w' = net_owner w \<and> (accounted w \<longrightarrow> accounted w') \<and>
    (\<forall>c. c \<notin> set cs \<longrightarrow> net_conns w' c = net_conns w c) \<and>
    (\<forall>c \<in> set cs. case net_conns w c of
       None \<Rightarrow> net_conns w' c = None
     | Some conn \<Rightarrow> \<exists>conn'. net_conns w' c = Some conn' \<and>
         (case clock c of (t1, t2, t3) \<Rightarrow>
            delivered t3 p (delivery (conn_mirror conn) src dest (live t1 (conn_pool conn))
              (live t2 (conn_pool conn)) (live t3 (conn_pool conn)) (verdict_of env (net_guards w) p conn))
              conn conn'))"
  using assms(1,5,6)
proof (induction cs arbitrary: w)
  case (Cons c cs)
  show ?case
  proof (cases "net_conns w c")
    case None
    then show ?thesis using Cons.IH [of w] Cons.prems by auto
  next
    case (Some conn)
    obtain t1 t2 t3 where t: "clock c = (t1, t2, t3)" "t1 \<le> t2" "t2 \<le> t3"
      using Cons.prems(3) by (cases "clock c") auto
    let ?s = "\<lparr>st_conn = conn, st_guards = net_guards w, st_log = net_log w, st_notified = 0\<rparr>"
    have ready: "conn_ready env (net_guards w) p conn" using Cons.prems(2) Some by simp
    let ?r = "delivery (conn_mirror conn) src dest (live t1 (conn_pool conn)) (live t2 (conn_pool conn))
        (live t3 (conn_pool conn)) (verdict_of env (net_guards w) p conn)"
    note cr = conn_ready_decides [OF ready, of ?s]
    obtain s' where s': "conn_send env t1 t2 t3 (Some p) ?s = (Inr (), s')" "outcome t3 p ?r ?s s'"
      using conn_send_ok [of env ?s p src dest t1 t2 t3] cr assms(2-4) t by auto
    let ?w = "\<lparr>net_conns = (net_conns w)(c \<mapsto> st_conn s'), net_guards = st_guards s',
               net_log = st_log s', net_owner = net_owner w, net_sems = notify_owner c (st_notified s') w\<rparr>"
    have run: "on_connection c conn (conn_send env t1 t2 t3 (Some p)) w = (Inr (), ?w)"
      using s'(1) by (simp add: on_connection_def)
    have g: "net_guards ?w = net_guards w" using s'(2) by (simp add: outcome_def)
    have same: "d \<in> set cs \<Longrightarrow> net_conns ?w d = net_conns w d" for d using Cons.prems(1) by auto
    have filt: "filter (\<lambda>d. net_conns ?w d \<noteq> None) cs = filter (\<lambda>d. net_conns w d \<noteq> None) cs"
      using same by (intro filter_cong) auto
    have pre: "\<forall>d \<in> set cs. \<forall>conn. net_conns ?w d = Some conn \<longrightarrow> conn_ready env (net_guards ?w) p conn"
      using Cons.prems(2) same g by auto
    obtain w' where w': "pool_send_loop env clock p cs ?w = (Inr (), filter (\<lambda>d. net_conns w d \<noteq> None) cs, w')"
        "net_guards w' = net_guards w" "net_owner w' = net_owner w" "accounted ?w \<longrightarrow> accounted w'"
        "\<forall>d. d \<notin> set cs \<longrightarrow> net_conns w' d = net_conns ?w d"
        "\<forall>d \<in> set cs. case net_conns w d of
           None \<Rightarrow> net_conns w' d = None
         | Some conn \<Rightarrow> \<exists>conn'. net_conns w' d = Some conn' \<and>
             (case clock d of (t1, t2, t3) \<Rightarrow>
                delivered t3 p (delivery (conn_mirror conn) src dest (live t1 (conn_pool conn))
                  (live t2 (conn_pool conn)) (live t3 (conn_pool conn)) (verdict_of env (net_guards w) p conn))
                  conn conn')"
      using Cons.IH [OF _ pre, unfolded filt g] Cons.prems(1,3) same by fastforce
    have acc: "accounted w \<longrightarrow> accounted w'"
      using on_connection_accounted [OF _ Some s'(2) _ _ refl] w'(4) by simp
    have "delivered t3 p ?r conn (st_conn s')" using outcome_delivered [OF s'(2)] by simp
    then show ?thesis
      using w'(1-3,5,6) acc run Some t(1) Cons.prems(1) by auto
  qed
qed simp


lemma conn_pool_send_ok:
  assumes "distinct cs" "printable env p" "packet_source p = Inr src"
    "packet_dest (env_mavlink env) p = Inr dest"
    "\<forall>c \<in> set cs. \<forall>conn. net_conns w c = Some conn \<longrightarrow> conn_ready env (net_guards w) p conn"
    "\<forall>c \<in> set cs. case clock c of (t1, t2, t3) \<Rightarrow> t1 \<le> t2 \<and> t2 \<le> t3"
  shows "\<exists>w'. conn_pool_send env clock (Some p) cs w =
      (Inr (), filter (\<lambda>c. net_conns w c \<noteq> None) cs, w') \<and> net_guards w' = net_guards w \<and>
    net_owner w' = net_owner w \<and> (accounted w \<longrightarrow> accounted w') \<and>
    (\<forall>c. c \<notin> set cs \<longrightarrow> net_conns w' c = net_conns w c) \<and>
    (\<forall>c \<in> set cs. case net_conns w c of
       None \<Rightarrow> net_conns w' c = None
     | Some conn \<Rightarrow> \<exists>conn'. net_conns w' c = Some conn' \<and>
         (case clock c of (t1, t2, t3) \<Rightarrow>
            delivered t3 p (delivery (conn_mirror conn) src dest (live t1 (conn_pool conn))
              (live t2 (conn_pool conn)) (live t3 (conn_pool conn)) (verdict_of env (net_guards w) p conn))
              conn conn'))"
proof -
  obtain shown where shown: "show_Packet (env_mavlink env) p = Inr shown"
    using assms(2) by (auto simp: printable_def is_ok_iff)
  obtain w1 where w1: "conn_pool_send env clock (Some p) cs w = pool_send_loop env clock p cs w1"
      "net_conns w1 = net_conns w" "net_guards w1 = net_guards w" "net_owner w1 = net_owner w"
      "accounted w1 = accounted w"
  proof (cases "env_level env \<ge> 2")
    case True
    then show thesis
      by (intro that [of "w\<lparr>net_log := net_log w @ logger_log (env_level env) 2
            (''received '' @ shown @ '' source '' @ source_name env p)\<rparr>"])
        (simp_all add: conn_pool_send_def shown accounted_def counted_def owned_def queued_def)
  qed (intro that [of w], simp_all add: conn_pool_send_def)
  then show ?thesis
    using pool_send_loop_ok [OF assms(1-4), of w1 clock, unfolded w1(2-5)] assms(5,6) by simp
qed

text \<open>C9: sending a packet through the connection pool gives it to every connection that still exists,
  each by the routing rules above, drops the pointers to connections that are gone, changes no
  other connection, and leaves the recursion guards of the shared filter as they were.\<close>

theorem pool_send_delivers:
  assumes "distinct cs" "printable env p" "packet_source p = Inr src"
    "packet_dest (env_mavlink env) p = Inr dest"
    "\<forall>c \<in> set cs. \<forall>conn. net_conns w c = Some conn \<longrightarrow> conn_ready env (net_guards w) p conn"
    "\<forall>c \<in> set cs. case clock c of (t1, t2, t3) \<Rightarrow> t1 \<le> t2 \<and> t2 \<le> t3"
  shows "\<exists>w'. conn_pool_send env clock (Some p) cs w =
      (Inr (), filter (\<lambda>c. net_conns w c \<noteq> None) cs, w') \<and> net_guards w' = net_guards w \<and>
    (\<forall>c. c \<notin> set cs \<longrightarrow> net_conns w' c = net_conns w c) \<and>
    (\<forall>c \<in> set cs. case net_conns w c of
       None \<Rightarrow> net_conns w' c = None
     | Some conn \<Rightarrow> \<exists>conn'. net_conns w' c = Some conn' \<and>
         (case clock c of (t1, t2, t3) \<Rightarrow>
            delivered t3 p (delivery (conn_mirror conn) src dest (live t1 (conn_pool conn))
              (live t2 (conn_pool conn)) (live t3 (conn_pool conn)) (verdict_of env (net_guards w) p conn))
              conn conn'))"
  using conn_pool_send_ok [OF assms] by blast

section \<open>A concrete network\<close>

definition sample_env :: environment where
  "sample_env = \<lparr>env_mavlink = common_mavlink, env_level = 0, env_thread = 7, env_names = (\<lambda>_. None)\<rparr>"

text \<open>A connection on which the component 0.5 was heard at time 0.\<close>

definition sample_connection :: Connection where
  "sample_connection =
     \<lparr>conn_name = ''c'', conn_filter = sample_filter, conn_mirror = False,
      conn_pool = \<lparr>ap_addresses = [(MkMAVAddress 5, 0)], ap_timeout = 120000\<rparr>,
      conn_queue = PacketQueue_construct True\<rparr>"

lemma sample_decision:
  "will_accept sample_filter t packet addr (\<lambda>_. {}) = Some (Inr (True, 5), \<lambda>_. {})"
  by (simp add: will_accept_def nesting_def sample_filter_def sample_chains_def chain_at_def
      guard_enter_def guard_exit_def numeral_2_eq_2 rule_action_def Call_action_def condition_holds_def
      Accept_action_def apply_priority_def action_set_priority_def make_accept_def
      action_priority_def fun_eq_iff)

lemma sample_ready: "conn_ready sample_env (\<lambda>_. {}) heartbeat sample_connection"
  by (auto simp: conn_ready_def sample_connection_def sample_decision pool_wf_def)

lemma heartbeat_queries:
  "packet_source heartbeat = Inr (mav_of_bytes 1 2)" "packet_dest common_mavlink heartbeat = Inr None"
proof -
  show "packet_source heartbeat = Inr (mav_of_bytes 1 2)"
    using source_wf [OF heartbeat_wf] by (simp add: source_offset_def sample_heartbeat_def)
  show "packet_dest common_mavlink heartbeat = Inr None"
    by (simp add: packet_dest_def v1_dest_def v1_header_of_def v1_header_complete_def
        v1_HEADER_LENGTH_def v1_START_BYTE_def sample_heartbeat_def dialect_eval)
qed

lemma heartbeat_printable: "printable sample_env heartbeat"
proof -
  obtain name where "packet_name common_mavlink heartbeat = Inr name"
    using name_wf [OF heartbeat_wf] by (auto simp: is_ok_iff)
  then show ?thesis
    by (simp add: printable_def sample_env_def show_Packet_def heartbeat_queries)
qed

definition sample_state :: conn_state where
  "sample_state = \<lparr>st_conn = sample_connection, st_guards = (\<lambda>_. {}), st_log = [], st_notified = 0\<rparr>"

lemma sample_live:
  "live 3 (conn_pool sample_connection) = {MkMAVAddress 5}"
  by (auto simp: live_def sample_connection_def split: if_splits)

lemma sample_delivery:
  "delivery (conn_mirror sample_connection) (mav_of_bytes 1 2) None {MkMAVAddress 5} {MkMAVAddress 5}
     {MkMAVAddress 5} (verdict_of sample_env (\<lambda>_. {}) heartbeat sample_connection) = Some 5"
proof -
  have v: "verdict_of sample_env (\<lambda>_. {}) heartbeat sample_connection = (\<lambda>a. (True, 5))"
    by (intro ext) (simp add: verdict_of_def sample_connection_def sample_decision)
  show ?thesis unfolding v
    by (simp add: delivery_def best_priority_def mav_of_bytes_def)
qed

theorem conn_send_delivers_witness:
  "\<exists>s'. conn_send sample_env 3 3 3 (Some heartbeat) sample_state = (Inr (), s') \<and>
     queue_waiting (conn_queue (st_conn s')) = [(heartbeat, 5)] \<and> st_notified s' = 1"
proof -
  have r: "conn_ready sample_env (st_guards sample_state) heartbeat (st_conn sample_state)"
    using sample_ready by (simp add: sample_state_def)
  have d: "packet_dest (env_mavlink sample_env) heartbeat = Inr None"
    by (simp add: sample_env_def heartbeat_queries)
  obtain s' where s': "conn_send sample_env 3 3 3 (Some heartbeat) sample_state = (Inr (), s')"
      "delivered 3 heartbeat (Some 5) sample_connection (st_conn s')" "st_notified s' = 1"
    using conn_send_delivers [OF r heartbeat_printable heartbeat_queries(1) d order_refl order_refl, of 3]
    by (auto simp: sample_state_def sample_live sample_delivery Let_def)
      (auto simp: sample_connection_def PacketQueue_construct_def)
  have "queue_waiting (conn_queue (st_conn s')) = [(heartbeat, 5)]"
    using s'(2) by (simp add: delivered_def sample_connection_def queue_enq_eq PacketQueue_construct_def
        queue_waiting_def waiting_list_def entry_def)
  then show ?thesis using s' by blast
qed

definition sample_network :: network where
  "sample_network = \<lparr>net_conns = [1 \<mapsto> sample_connection], net_guards = (\<lambda>_. {}), net_log = [],
     net_owner = (\<lambda>_. None), net_sems = (\<lambda>_. 0)\<rparr>"

theorem pool_send_delivers_witness:
  "\<exists>w'. conn_pool_send sample_env (\<lambda>_. (3, 3, 3)) (Some heartbeat) [1, 2] sample_network = (Inr (), [1], w') \<and>
     (\<exists>conn'. net_conns w' 1 = Some conn' \<and> delivered 3 heartbeat (Some 5) sample_connection conn')"
proof -
  have d: "packet_dest (env_mavlink sample_env) heartbeat = Inr None"
    by (simp add: sample_env_def heartbeat_queries)
  have ready: "\<forall>c \<in> set [1, 2]. \<forall>conn. net_conns sample_network c = Some conn \<longrightarrow>
      conn_ready sample_env (net_guards sample_network) heartbeat conn"
    using sample_ready by (simp add: sample_network_def)
  show ?thesis
    using pool_send_delivers [OF _ heartbeat_printable heartbeat_queries(1) d ready, of "\<lambda>_. (3, 3, 3)"]
    by (auto simp: sample_network_def sample_live sample_delivery)
qed

end
