(* ===== verification/Interfaces.thy ===== *)
theory Interfaces
  imports ByteParser IpAddress Connections
begin

text \<open>
  \<open>SerialInterface\<close>, \<open>UDPInterface\<close> and \<open>InterfaceThreader\<close>: what a block of received bytes does to
  the network of connections, and how queued packets leave it.  A call of \<open>receive_packet\<close> gets
  the block the device returned; the bytes \<open>send_packet\<close> hands to the device are its result.
\<close>

section \<open>The world of an interface\<close>

text \<open>
  The network of connections, the weak pointers in the connection pool, the number the next
  connection is allocated under, and what was written to the error stream (the IDs the parser
  reported).
\<close>

record world =
  w_net :: network
  w_pool :: "nat list"
  w_next :: nat
  w_cerr :: "u64 list"

text \<open>The names of the connections that exist, for the log.\<close>

definition env_in :: "environment \<Rightarrow> network \<Rightarrow> environment" where
  "env_in env w = env\<lparr>env_names := (\<lambda>c. map_option conn_name (net_conns w c))\<rparr>"

text \<open>
  The clock readings made while one packet is handled: the two of \<open>add_address\<close> and, for every
  connection in the pool, the three of \<open>send\<close>.
\<close>

record readings =
  rd_contains :: int
  rd_add :: int
  rd_send :: "nat \<Rightarrow> int \<times> int \<times> int"

text \<open>\<open>connection->add_address(source)\<close> and \<open>connection_pool->send(packet)\<close>.\<close>

definition call_add_address ::
  "environment \<Rightarrow> readings \<Rightarrow> nat \<Rightarrow> MAVAddress \<Rightarrow> world \<Rightarrow> (cpp_error + unit) \<times> world" where
  "call_add_address env rd c src w =
     (case net_conns (w_net w) c of
        None \<Rightarrow> (Inl (Undefined_behaviour ''null connection''), w)
      | Some conn \<Rightarrow>
          (case on_connection c conn (add_address (env_in env (w_net w)) (rd_contains rd) (rd_add rd) src)
                  (w_net w) of
             (r, n) \<Rightarrow> (r, w\<lparr>w_net := n\<rparr>)))"

definition call_pool_send ::
  "environment \<Rightarrow> readings \<Rightarrow> Packet \<Rightarrow> world \<Rightarrow> (cpp_error + unit) \<times> world" where
  "call_pool_send env rd p w =
     (case conn_pool_send (env_in env (w_net w)) (rd_send rd) (Some p) (w_pool w) (w_net w) of
        (r, cs, n) \<Rightarrow> (r, w\<lparr>w_net := n, w_pool := cs\<rparr>))"

section \<open>SerialInterface\<close>

record SerialInterface =
  ser_connection :: nat
  ser_parser :: PacketParser

text \<open>
  The constructor.  The booleans tell whether the pointers to the port and to the pool are not null;
  the connection, if there is one, already exists under its number and is registered with the pool.
\<close>

definition SerialInterface_construct ::
  "bool \<Rightarrow> bool \<Rightarrow> nat option \<Rightarrow> world \<Rightarrow> (cpp_error + SerialInterface) \<times> world" where
  "SerialInterface_construct port connection_pool connection w =
     (if \<not> port then (Inl (Invalid_argument ''Given serial port pointer is null.''), w)
      else if \<not> connection_pool
      then (Inl (Invalid_argument ''Given connection pool pointer is null.''), w)
      else
        (case connection of
           None \<Rightarrow> (Inl (Invalid_argument ''Given connection pointer is null.''), w)
         | Some c \<Rightarrow> (Inr \<lparr>ser_connection = c, ser_parser = parser_initial\<rparr>,
                      w\<lparr>w_pool := conn_pool_add c (w_pool w)\<rparr>)))"

text \<open>
  \<open>send_packet\<close>: the packet, if any, whose bytes go to the port, which may throw.
\<close>

definition serial_send_packet ::
  "(u8 list \<Rightarrow> cpp_error + unit) \<Rightarrow> SerialInterface \<Rightarrow> world \<Rightarrow> (cpp_error + u8 list list) \<times> world" where
  "serial_send_packet port_write s w =
     (case net_conns (w_net w) (ser_connection s) of
        None \<Rightarrow> (Inl (Undefined_behaviour ''null connection''), w)
      | Some conn \<Rightarrow>
          (let (packet, conn') = next_packet conn;
               w' = w\<lparr>w_net := (w_net w)\<lparr>net_conns := (net_conns (w_net w))(ser_connection s \<mapsto> conn')\<rparr>\<rparr>
           in case packet of
                None \<Rightarrow> (Inr [], w')
              | Some p \<Rightarrow>
                  (case port_write (pkt_data p) of
                     Inl e \<Rightarrow> (Inl e, w')
                   | Inr _ \<Rightarrow> (Inr [pkt_data p], w'))))"

text \<open>What is done with a packet the parser has completed.\<close>

definition serial_handle ::
  "environment \<Rightarrow> readings \<Rightarrow> Packet \<Rightarrow> SerialInterface \<Rightarrow> world \<Rightarrow> (cpp_error + unit) \<times> world" where
  "serial_handle env rd p s w =
     (let p' = set_connection (ser_connection s) p in
      case packet_source p' of
        Inl e \<Rightarrow> (Inl e, w)
      | Inr src \<Rightarrow>
          (case call_add_address env rd (ser_connection s) src w of
             (Inl e, w') \<Rightarrow> (Inl e, w')
           | (Inr _, w') \<Rightarrow> call_pool_send env rd p' w'))"

text \<open>
  The loop over the received bytes.  \<open>clk i\<close> has the readings made for the \<open>i\<close>-th packet; when an
  operation throws, the rest of the block is not parsed.
\<close>

fun serial_bytes ::
  "environment \<Rightarrow> (nat \<Rightarrow> readings) \<Rightarrow> nat \<Rightarrow> u8 list \<Rightarrow> SerialInterface \<Rightarrow> world \<Rightarrow>
   (cpp_error + unit) \<times> SerialInterface \<times> world" where
  "serial_bytes env clk i [] s w = (Inr (), s, w)"
| "serial_bytes env clk i (b # bs) s w =
     (case parse_byte (env_mavlink env) b (ser_parser s) of
        Inl e \<Rightarrow> (Inl e, s, w)
      | Inr (packet, ids, p') \<Rightarrow>
          (let s' = s\<lparr>ser_parser := p'\<rparr>; w' = w\<lparr>w_cerr := w_cerr w @ ids\<rparr> in
           case packet of
             None \<Rightarrow> serial_bytes env clk i bs s' w'
           | Some p \<Rightarrow>
               (case serial_handle env (clk i) p s' w' of
                  (Inl e, w'') \<Rightarrow> (Inl e, s', w'')
                | (Inr _, w'') \<Rightarrow> serial_bytes env clk (Suc i) bs s' w'')))"

definition serial_receive_packet ::
  "environment \<Rightarrow> (nat \<Rightarrow> readings) \<Rightarrow> u8 list \<Rightarrow> SerialInterface \<Rightarrow> world \<Rightarrow>
   (cpp_error + unit) \<times> SerialInterface \<times> world" where
  "serial_receive_packet env clk buffer s w =
     (if buffer \<noteq> [] then serial_bytes env clk 0 buffer s w else (Inr (), s, w))"

section \<open>UDPInterface\<close>

record UDPInterface =
  udp_factory :: ConnectionFactory
  udp_last_ip :: IPAddress
  udp_connections :: "(IPAddress \<times> nat) list"
  udp_parser :: PacketParser

definition UDPInterface_construct ::
  "bool \<Rightarrow> bool \<Rightarrow> ConnectionFactory option \<Rightarrow> cpp_error + UDPInterface" where
  "UDPInterface_construct socket connection_pool connection_factory =
     (if \<not> socket then Inl (Invalid_argument ''Given socket pointer is null.'')
      else if \<not> connection_pool then Inl (Invalid_argument ''Given connection pool pointer is null.'')
      else
        (case connection_factory of
           None \<Rightarrow> Inl (Invalid_argument ''Given connection factory pointer is null.'')
         | Some cf \<Rightarrow>
             Inr \<lparr>udp_factory = cf, udp_last_ip = MkIPAddress 0 0, udp_connections = [],
                  udp_parser = parser_initial\<rparr>))"

text \<open>\<open>update_connections_\<close>\<close>

definition update_connections ::
  "environment \<Rightarrow> readings \<Rightarrow> MAVAddress \<Rightarrow> IPAddress \<Rightarrow> UDPInterface \<Rightarrow> world \<Rightarrow>
   (cpp_error + unit) \<times> UDPInterface \<times> world" where
  "update_connections env rd mav ip u w =
     (case map_of (udp_connections u) ip of
        Some c \<Rightarrow> (case call_add_address env rd c mav w of (r, w') \<Rightarrow> (r, u, w'))
      | None \<Rightarrow>
          (case factory_get (show_IPAddress ip) (w_next w) (udp_factory u) (w_net w) of
             (Inl e, n) \<Rightarrow> (Inl e, u, w\<lparr>w_net := n\<rparr>)
           | (Inr c, n) \<Rightarrow>
               (case call_add_address env rd c mav
                       (w\<lparr>w_net := n, w_next := Suc (w_next w), w_pool := conn_pool_add c (w_pool w)\<rparr>) of
                  (r, w') \<Rightarrow> (r, u\<lparr>udp_connections := map_put ip c (udp_connections u)\<rparr>, w'))))"

text \<open>
  What is done with a completed packet.  \<open>connections_[ip_address]\<close> would insert a null pointer for
  an unknown address; after \<open>update_connections_\<close> there is none.
\<close>

definition udp_handle ::
  "environment \<Rightarrow> readings \<Rightarrow> IPAddress \<Rightarrow> Packet \<Rightarrow> UDPInterface \<Rightarrow> world \<Rightarrow>
   (cpp_error + unit) \<times> UDPInterface \<times> world" where
  "udp_handle env rd ip p u w =
     (case packet_source p of
        Inl e \<Rightarrow> (Inl e, u, w)
      | Inr src \<Rightarrow>
          (case update_connections env rd src ip u w of
             (Inl e, u', w') \<Rightarrow> (Inl e, u', w')
           | (Inr _, u', w') \<Rightarrow>
               (case map_of (udp_connections u') ip of
                  None \<Rightarrow> (Inl (Undefined_behaviour ''null connection''), u', w')
                | Some c \<Rightarrow>
                    (case call_pool_send env rd (set_connection c p) w' of (r, w'') \<Rightarrow> (r, u', w'')))))"

fun udp_bytes ::
  "environment \<Rightarrow> (nat \<Rightarrow> readings) \<Rightarrow> IPAddress \<Rightarrow> nat \<Rightarrow> u8 list \<Rightarrow> UDPInterface \<Rightarrow> world \<Rightarrow>
   (cpp_error + unit) \<times> UDPInterface \<times> world" where
  "udp_bytes env clk ip i [] u w = (Inr (), u, w)"
| "udp_bytes env clk ip i (b # bs) u w =
     (case parse_byte (env_mavlink env) b (udp_parser u) of
        Inl e \<Rightarrow> (Inl e, u, w)
      | Inr (packet, ids, p') \<Rightarrow>
          (let u' = u\<lparr>udp_parser := p'\<rparr>; w' = w\<lparr>w_cerr := w_cerr w @ ids\<rparr> in
           case packet of
             None \<Rightarrow> udp_bytes env clk ip i bs u' w'
           | Some p \<Rightarrow>
               (case udp_handle env (clk i) ip p u' w' of
                  (Inl e, u'', w'') \<Rightarrow> (Inl e, u'', w'')
                | (Inr _, u'', w'') \<Rightarrow> udp_bytes env clk ip (Suc i) bs u'' w'')))"

text \<open>\<open>receive_packet\<close>: a datagram from another sender starts with an empty parser.\<close>

definition udp_receive_packet ::
  "environment \<Rightarrow> (nat \<Rightarrow> readings) \<Rightarrow> u8 list \<Rightarrow> IPAddress \<Rightarrow> UDPInterface \<Rightarrow> world \<Rightarrow>
   (cpp_error + unit) \<times> UDPInterface \<times> world" where
  "udp_receive_packet env clk buffer ip u w =
     (if buffer \<noteq> []
      then
        (let u' = (if ip \<noteq> udp_last_ip u
                   then u\<lparr>udp_parser := parser_clear (udp_parser u), udp_last_ip := ip\<rparr> else u)
         in udp_bytes env clk ip 0 buffer u' w)
      else (Inr (), u, w))"

text \<open>
  The loop of \<open>send_packet\<close> over the connections: at most one packet of each is sent, and for each
  but the first the semaphore is decremented again.  The datagrams come out in order; when the
  socket throws, those sent before are lost from the result but not from the network.
\<close>

fun udp_send_loop ::
  "(u8 list \<Rightarrow> IPAddress \<Rightarrow> cpp_error + unit) \<Rightarrow> ConnectionFactory \<Rightarrow> (IPAddress \<times> nat) list \<Rightarrow> bool \<Rightarrow>
   network \<Rightarrow> (cpp_error + (u8 list \<times> IPAddress) list) \<times> network" where
  "udp_send_loop socket_send cf [] not_first n = (Inr [], n)"
| "udp_send_loop socket_send cf ((ip, c) # conns) not_first n =
     (case net_conns n c of
        None \<Rightarrow> (Inl (Undefined_behaviour ''null connection''), n)
      | Some conn \<Rightarrow>
          (let (packet, conn') = next_packet conn; n' = n\<lparr>net_conns := (net_conns n)(c \<mapsto> conn')\<rparr> in
           case packet of
             None \<Rightarrow> udp_send_loop socket_send cf conns not_first n'
           | Some p \<Rightarrow>
               (case socket_send (pkt_data p) ip of
                  Inl e \<Rightarrow> (Inl e, n')
                | Inr _ \<Rightarrow>
                    (case udp_send_loop socket_send cf conns True
                            (if not_first then snd (wait_for_packet cf n') else n') of
                       (Inl e, n'') \<Rightarrow> (Inl e, n'')
                     | (Inr out, n'') \<Rightarrow> (Inr ((pkt_data p, ip) # out), n'')))))"

definition udp_send_packet ::
  "(u8 list \<Rightarrow> IPAddress \<Rightarrow> cpp_error + unit) \<Rightarrow> UDPInterface \<Rightarrow> world \<Rightarrow>
   (cpp_error + (u8 list \<times> IPAddress) list) \<times> world" where
  "udp_send_packet socket_send u w =
     (let (available, n) = wait_for_packet (udp_factory u) (w_net w) in
      if available
      then (case udp_send_loop socket_send (udp_factory u) (udp_connections u) False n of
              (r, n') \<Rightarrow> (r, w\<lparr>w_net := n'\<rparr>))
      else (Inr [], w\<lparr>w_net := n\<rparr>))"

section \<open>The receiving loop\<close>

text \<open>
  Both interfaces feed the received bytes to their parser and handle each packet as it is completed.
  The locale states what such a loop relies on: \<open>feed\<close> stores the parser and the reported IDs,
  \<open>handle\<close> never throws for a packet that can be routed, keeps the invariant of the interface and
  changes its state by a \<open>step\<close> of that packet, and makes the sender known; the steps of several
  packets compose.
\<close>

definition deliverable :: "mavlink_lib \<Rightarrow> Packet \<Rightarrow> bool" where
  "deliverable ml p \<longleftrightarrow> packet_wf ml p \<and> is_ok (packet_dest ml p)"

definition readings_ok :: "readings \<Rightarrow> bool" where
  "readings_ok rd \<longleftrightarrow>
     rd_contains rd \<le> rd_add rd \<and>
     (\<forall>c. case rd_send rd c of (t1, t2, t3) \<Rightarrow>
        rd_add rd \<le> t1 \<and> t1 \<le> t2 \<and> t2 \<le> t3 \<and> t1 - rd_add rd \<le> 120000)"

locale packet_receiver =
  fixes ml :: mavlink_lib
    and parser :: "'s \<Rightarrow> PacketParser"
    and reported :: "'s \<Rightarrow> u64 list"
    and feed :: "PacketParser \<Rightarrow> u64 list \<Rightarrow> 's \<Rightarrow> 's"
    and handle :: "readings \<Rightarrow> Packet \<Rightarrow> 's \<Rightarrow> (cpp_error + unit) \<times> 's"
    and loop :: "(nat \<Rightarrow> readings) \<Rightarrow> nat \<Rightarrow> u8 list \<Rightarrow> 's \<Rightarrow> (cpp_error + unit) \<times> 's"
    and inv :: "'s \<Rightarrow> bool"
    and step :: "Packet list \<Rightarrow> 's \<Rightarrow> 's \<Rightarrow> bool"
    and known :: "'s \<Rightarrow> 'k set"
    and sender :: 'k
  assumes loop_Nil: "loop clk i [] s = (Inr (), s)"
    and loop_Cons: "loop clk i (b # bs) s =
      (case parse_byte ml b (parser s) of
         Inl e \<Rightarrow> (Inl e, s)
       | Inr (packet, ids, p') \<Rightarrow>
           (case packet of
              None \<Rightarrow> loop clk i bs (feed p' ids s)
            | Some k \<Rightarrow>
                (case handle (clk i) k (feed p' ids s) of
                   (Inl e, s') \<Rightarrow> (Inl e, s')
                 | (Inr _, s') \<Rightarrow> loop clk (Suc i) bs s')))"
    and parser_feed: "parser (feed p ids s) = p"
    and feed_feed: "feed p2 ids2 (feed p1 ids1 s) = feed p2 (ids1 @ ids2) s"
    and reported_feed: "reported (feed p ids s) = reported s @ ids"
    and known_feed: "known (feed p ids s) = known s"
    and inv_feed: "inv s \<Longrightarrow> inv (feed p ids s)"
    and step_feed: "step [] s (feed p ids s)"
    and handle_ok: "inv s \<Longrightarrow> deliverable ml k \<Longrightarrow> readings_ok rd \<Longrightarrow>
      \<exists>s'. handle rd k s = (Inr (), s') \<and> inv s' \<and> step [k] s s' \<and> parser s' = parser s \<and>
           reported s' = reported s \<and> known s' = insert sender (known s)"
    and step_refl: "step [] s s"
    and step_trans: "step ks s1 s2 \<Longrightarrow> step ls s2 s3 \<Longrightarrow> step (ks @ ls) s1 s3"
begin

definition frames :: "u8 list \<Rightarrow> 's \<Rightarrow> (Version \<times> u8 list) list" where
  "frames bs s = fst (spec_run ml bs (pp_buffer (parser s)))"

text \<open>What one byte does, and which packets of the block are left to the rest of it.\<close>

lemma byte_step:
  assumes "parser_inv ml (parser s)"
  shows "\<exists>k ids p. parse_byte ml b (parser s) = Inr (k, ids, p) \<and> parser_inv ml p \<and>
    (\<forall>t. parser t = p \<longrightarrow>
       packets_of ml (frames (b # bs) s) = (case k of None \<Rightarrow> [] | Some x \<Rightarrow> [x]) @ packets_of ml (frames bs t))"
proof -
  define f where "f = snd (spec_step ml b (pp_buffer (parser s)))"
  obtain p where p: "parse_byte ml b (parser s) = Inr (frame_packets ml f, frame_errors ml f, p)"
      "parser_inv ml p" "fst (spec_step ml b (pp_buffer (parser s))) = pp_buffer p"
    using parse_byte_refines [OF assms, of b] unfolding f_def by blast
  have run: "frames (b # bs) s = (case f of None \<Rightarrow> fst (spec_run ml bs (pp_buffer p))
      | Some x \<Rightarrow> x # fst (spec_run ml bs (pp_buffer p)))"
    unfolding frames_def f_def using p(3) by (simp add: Let_def)
  have "packets_of ml (frames (b # bs) s) =
      (case frame_packets ml f of None \<Rightarrow> [] | Some x \<Rightarrow> [x]) @ packets_of ml (frames bs t)" if "parser t = p" for t
    unfolding run unfolding frames_def that
    by (cases f; simp add: packets_of_Cons; simp add: frame_packets_def)
  then show ?thesis using p(1,2) by blast
qed

text \<open>
  The whole block: nothing is thrown, the parser has cut the stream as the reference does, and the
  sender is known as soon as one packet of it was complete.
\<close>

lemma loop_ok:
  assumes "inv s" "parser_inv ml (parser s)" "\<forall>i. readings_ok (clk i)"
    "\<forall>k \<in> set (packets_of ml (frames bs s)). is_ok (packet_dest ml k)"
  shows "\<exists>s'. loop clk i bs s = (Inr (), s') \<and> inv s' \<and> step (packets_of ml (frames bs s)) s s' \<and> parser_inv ml (parser s') \<and>
    pp_buffer (parser s') = snd (spec_run ml bs (pp_buffer (parser s))) \<and>
    reported s' = reported s @ errors_of ml (frames bs s) \<and>
    known s' = (if packets_of ml (frames bs s) = [] then known s else insert sender (known s))"
  using assms(1,2,4)
proof (induction bs arbitrary: s i)
  case Nil
  then show ?case
    by (simp add: loop_Nil step_refl frames_def packets_of_def errors_of_def)
next
  case (Cons b bs)
  define f where "f = snd (spec_step ml b (pp_buffer (parser s)))"
  obtain p' where p': "parse_byte ml b (parser s) = Inr (frame_packets ml f, frame_errors ml f, p')"
      "parser_inv ml p'" "fst (spec_step ml b (pp_buffer (parser s))) = pp_buffer p'"
    using parse_byte_refines [OF Cons.prems(2), of b] unfolding f_def by blast
  define s1 where "s1 = feed p' (frame_errors ml f) s"
  have s1: "inv s1" "parser s1 = p'" "reported s1 = reported s @ frame_errors ml f" "known s1 = known s"
      "step [] s s1"
    using Cons.prems(1) by (simp_all add: s1_def inv_feed parser_feed reported_feed known_feed step_feed)
  define fs where "fs = fst (spec_run ml bs (pp_buffer p'))"
  have run: "frames (b # bs) s = (case f of None \<Rightarrow> fs | Some x \<Rightarrow> x # fs)"
      "snd (spec_run ml (b # bs) (pp_buffer (parser s))) = snd (spec_run ml bs (pp_buffer p'))"
    unfolding frames_def f_def fs_def using p'(3) by (simp_all add: Let_def)
  have ks: "packets_of ml (frames (b # bs) s) =
        (case frame_packets ml f of None \<Rightarrow> [] | Some k \<Rightarrow> [k]) @ packets_of ml fs"
      "errors_of ml (frames (b # bs) s) = frame_errors ml f @ errors_of ml fs"
    unfolding run(1)
    by (cases f; simp add: packets_of_Cons; simp add: frame_packets_def frame_errors_def)+
  show ?case
  proof (cases "frame_packets ml f")
    case None
    have "frames bs s1 = fs" by (simp add: frames_def fs_def s1)
    moreover obtain s' where "loop clk i bs s1 = (Inr (), s')" "inv s'" "step (packets_of ml (frames bs s1)) s1 s'" "parser_inv ml (parser s')"
        "pp_buffer (parser s') = snd (spec_run ml bs (pp_buffer (parser s1)))"
        "reported s' = reported s1 @ errors_of ml (frames bs s1)"
        "known s' = (if packets_of ml (frames bs s1) = [] then known s1 else insert sender (known s1))"
      using Cons.IH [of s1 i] s1 p'(2) Cons.prems(3) ks(1) None calculation by auto
    ultimately show ?thesis
      using p'(1) s1 ks run(2) None step_trans [OF s1(5)] by (simp add: loop_Cons s1_def [symmetric])
  next
    case (Some k)
    have "k \<in> set (packets_of ml (frames (b # bs) s))" using ks(1) Some by simp
    then have "deliverable ml k"
      using Cons.prems(3) packets_of_wf [OF spec_run_complete, of k ml "b # bs" "pp_buffer (parser s)"]
      by (simp add: deliverable_def frames_def)
    then obtain s2 where s2: "handle (clk i) k s1 = (Inr (), s2)" "inv s2" "step [k] s1 s2" "parser s2 = p'"
        "reported s2 = reported s1" "known s2 = insert sender (known s1)"
      using handle_ok [OF s1(1)] assms(3) s1(2) by metis
    have "frames bs s2 = fs" by (simp add: frames_def fs_def s2)
    moreover obtain s' where "loop clk (Suc i) bs s2 = (Inr (), s')" "inv s'" "step (packets_of ml (frames bs s2)) s2 s'" "parser_inv ml (parser s')"
        "pp_buffer (parser s') = snd (spec_run ml bs (pp_buffer (parser s2)))"
        "reported s' = reported s2 @ errors_of ml (frames bs s2)"
        "known s' = (if packets_of ml (frames bs s2) = [] then known s2 else insert sender (known s2))"
      using Cons.IH [of s2 "Suc i"] s2 p'(2) Cons.prems(3) ks(1) Some calculation by auto
    ultimately show ?thesis
      using p'(1) s1 s2 ks run(2) Some step_trans [OF step_trans [OF s1(5) s2(3)]]
      by (auto simp: loop_Cons s1_def [symmetric])
  qed
qed

text \<open>The first packet of a block is handled before the others, which make steps of their own.\<close>

lemma loop_first:
  assumes "inv s" "parser_inv ml (parser s)" "\<forall>i. readings_ok (clk i)" "packets_of ml (frames bs s) = k # ks"
    "\<forall>x \<in> set (k # ks). is_ok (packet_dest ml x)"
  shows "\<exists>p ids s1 s'. handle (clk i) k (feed p ids s) = (Inr (), s1) \<and> loop clk i bs s = (Inr (), s') \<and> step ks s1 s'"
  using assms(1,2,4)
proof (induction bs arbitrary: s)
  case Nil
  then show ?case by (simp add: frames_def packets_of_def)
next
  case (Cons b bs)
  obtain x ids p where xp: "parse_byte ml b (parser s) = Inr (x, ids, p)" "parser_inv ml p"
      "\<forall>t. parser t = p \<longrightarrow>
        packets_of ml (frames (b # bs) s) = (case x of None \<Rightarrow> [] | Some y \<Rightarrow> [y]) @ packets_of ml (frames bs t)"
    using byte_step [OF Cons.prems(2)] by blast
  let ?s = "feed p ids s"
  show ?case
  proof (cases x)
    case None
    then have "packets_of ml (frames bs ?s) = k # ks" using xp(3) parser_feed [of p ids s] Cons.prems(3) by simp
    from Cons.IH [OF inv_feed [OF Cons.prems(1)] _ this] show ?thesis
      using xp(1,2) None by (fastforce simp: loop_Cons parser_feed feed_feed)
  next
    case (Some y)
    then have y: "y = k" using xp(3) parser_feed [of p ids s] Cons.prems(3) by simp
    have "packet_wf ml k"
      using packets_of_wf [OF spec_run_complete, of k ml "b # bs" "pp_buffer (parser s)"] Cons.prems(3)
      by (simp add: frames_def)
    then have "deliverable ml k" using assms(5) by (simp add: deliverable_def)
    then obtain s1 where s1: "handle (clk i) k ?s = (Inr (), s1)" "inv s1" "parser s1 = p"
      using handle_ok [OF inv_feed [OF Cons.prems(1)]] assms(3) unfolding parser_feed by blast
    have rest: "packets_of ml (frames bs s1) = ks" using xp(3) s1(3) Cons.prems(3) Some by simp
    obtain s' where "loop clk (Suc i) bs s1 = (Inr (), s')" "step ks s1 s'"
      using loop_ok [of s1 clk bs "Suc i"] s1(2,3) xp(2) assms(3,5) rest by auto
    then show ?thesis using xp(1) Some y s1(1) by (auto simp: loop_Cons)
  qed
qed

text \<open>A block is received as its parts are, one after the other.\<close>

lemma loop_append:
  assumes "inv s" "parser_inv ml (parser s)" "\<forall>i. readings_ok (clk i)"
    "\<forall>x \<in> set (packets_of ml (frames as s)). is_ok (packet_dest ml x)" "loop clk i as s = (Inr (), s1)"
  shows "loop clk i (as @ bs) s = loop clk (i + length (packets_of ml (frames as s))) bs s1"
  using assms(1,2,4,5)
proof (induction as arbitrary: s i)
  case Nil
  then show ?case by (simp add: loop_Nil frames_def packets_of_def)
next
  case (Cons b as)
  obtain x ids p where xp: "parse_byte ml b (parser s) = Inr (x, ids, p)" "parser_inv ml p"
      "\<forall>t. parser t = p \<longrightarrow>
        packets_of ml (frames (b # as) s) = (case x of None \<Rightarrow> [] | Some y \<Rightarrow> [y]) @ packets_of ml (frames as t)"
    using byte_step [OF Cons.prems(2)] by blast
  let ?s = "feed p ids s"
  show ?case
  proof (cases x)
    case None
    then have "packets_of ml (frames (b # as) s) = packets_of ml (frames as ?s)"
      using xp(3) parser_feed [of p ids s] by simp
    then show ?thesis
      using Cons.IH [OF inv_feed [OF Cons.prems(1)]] Cons.prems(3,4) xp(1,2) None
      by (simp add: loop_Cons parser_feed)
  next
    case (Some y)
    have ys: "packets_of ml (frames (b # as) s) = y # packets_of ml (frames as t)" if "parser t = p" for t
      using xp(3) [rule_format, OF that] Some by simp
    have "y \<in> set (packets_of ml (frames (b # as) s))" using ys [OF parser_feed [of p ids s]] by simp
    then have "deliverable ml y"
      using Cons.prems(3) packets_of_wf [OF spec_run_complete, of y ml "b # as" "pp_buffer (parser s)"]
      by (simp add: deliverable_def frames_def)
    then obtain s2 where s2: "handle (clk i) y ?s = (Inr (), s2)" "inv s2" "parser s2 = p"
      using handle_ok [OF inv_feed [OF Cons.prems(1)]] assms(3) unfolding parser_feed by blast
    have "loop clk (Suc i) as s2 = (Inr (), s1)" using Cons.prems(4) xp(1) Some s2(1) by (simp add: loop_Cons)
    from Cons.IH [OF s2(2) _ _ this] show ?thesis
      using Cons.prems(3) xp(1,2) Some s2(1,3) ys [OF s2(3)] by (simp add: loop_Cons)
  qed
qed

end

section \<open>The invariant of the network\<close>

text \<open>
  The shared filter decides every packet and gives back the recursion guards; all connections use
  it and have the default timeout; the pool holds no number twice, and numbers are not reused.
\<close>

definition filter_total :: "environment \<Rightarrow> Filter \<Rightarrow> guards \<Rightarrow> bool" where
  "filter_total env F g \<longleftrightarrow>
     (\<forall>p addr. packet_wf (env_mavlink env) p \<longrightarrow>
        (\<exists>accept priority. int_min \<le> priority \<and>
           will_accept F (env_thread env) p addr g = Some (Inr (accept, priority), g)))"

definition conn_inv :: "Filter \<Rightarrow> Connection \<Rightarrow> bool" where
  "conn_inv F conn \<longleftrightarrow>
     pool_wf (conn_pool conn) \<and> conn_filter conn = F \<and> ap_timeout (conn_pool conn) = 120000"

definition world_inv :: "environment \<Rightarrow> Filter \<Rightarrow> world \<Rightarrow> bool" where
  "world_inv env F w \<longleftrightarrow>
     filter_total env F (net_guards (w_net w)) \<and> accounted (w_net w) \<and> distinct (w_pool w) \<and>
     (\<forall>c conn. net_conns (w_net w) c = Some conn \<longrightarrow> conn_inv F conn \<and> c < w_next w) \<and>
     (\<forall>c \<in> set (w_pool w). c < w_next w)"

text \<open>What stays the same about a connection while packets pass through.\<close>

definition keeps :: "Connection \<Rightarrow> Connection \<Rightarrow> bool" where
  "keeps conn conn' \<longleftrightarrow>
     conn_name conn' = conn_name conn \<and> conn_mirror conn' = conn_mirror conn \<and>
     pq_running (conn_queue conn') = pq_running (conn_queue conn)"

definition net_keeps :: "world \<Rightarrow> world \<Rightarrow> bool" where
  "net_keeps w w' \<longleftrightarrow>
     (\<forall>c conn. net_conns (w_net w) c = Some conn \<longrightarrow>
        (\<exists>conn'. net_conns (w_net w') c = Some conn' \<and> keeps conn conn' \<and>
                 (c \<in> set (w_pool w) \<longrightarrow> c \<in> set (w_pool w'))))"

lemma net_keeps_refl [simp]: "net_keeps w w"
  by (simp add: net_keeps_def keeps_def)

lemma net_keeps_trans: "net_keeps w1 w2 \<Longrightarrow> net_keeps w2 w3 \<Longrightarrow> net_keeps w1 w3"
  by (fastforce simp: net_keeps_def keeps_def)

text \<open>Connections keep their owner, and only the factories \<open>fs\<close> come to own new ones.\<close>

definition owners_kept :: "nat set \<Rightarrow> world \<Rightarrow> world \<Rightarrow> bool" where
  "owners_kept fs w w' \<longleftrightarrow>
     (\<forall>c. net_conns (w_net w) c \<noteq> None \<longrightarrow> net_owner (w_net w') c = net_owner (w_net w) c) \<and>
     (\<forall>c g. net_owner (w_net w') c = Some g \<longrightarrow> net_owner (w_net w) c = Some g \<or> g \<in> fs)"

lemma owners_kept_same: "net_owner (w_net w') = net_owner (w_net w) \<Longrightarrow> owners_kept fs w w'"
  by (simp add: owners_kept_def)

lemma owners_kept_refl [simp]: "owners_kept fs w w" "owners_kept fs w (w\<lparr>w_cerr := ids\<rparr>)"
  by (simp_all add: owners_kept_def)

lemma net_keeps_exists:
  "net_keeps w w' \<Longrightarrow> net_conns (w_net w) c \<noteq> None \<Longrightarrow> net_conns (w_net w') c \<noteq> None"
  by (fastforce simp: net_keeps_def)

lemma owners_kept_trans:
  "net_keeps w1 w2 \<Longrightarrow> owners_kept fs w1 w2 \<Longrightarrow> owners_kept fs w2 w3 \<Longrightarrow> owners_kept fs w1 w3"
proof -
  assume k: "net_keeps w1 w2" and o: "owners_kept fs w1 w2" "owners_kept fs w2 w3"
  have "net_conns (w_net w2) c \<noteq> None" if "net_conns (w_net w1) c \<noteq> None" for c
    using net_keeps_exists [OF k that] .
  then show ?thesis using o by (simp add: owners_kept_def) blast
qed

lemma env_in_simps [simp]:
  "env_mavlink (env_in env n) = env_mavlink env" "env_thread (env_in env n) = env_thread env"
  "env_level (env_in env n) = env_level env"
  by (simp_all add: env_in_def)

lemma deliverable_printable: "deliverable (env_mavlink env) p \<Longrightarrow> printable env p"
proof -
  assume p: "deliverable (env_mavlink env) p"
  then obtain name dest where "packet_name (env_mavlink env) p = Inr name"
      "packet_dest (env_mavlink env) p = Inr dest"
    using name_wf [of "env_mavlink env" p] by (auto simp: deliverable_def is_ok_iff)
  then show ?thesis
    using p source_wf [of "env_mavlink env" p]
    by (simp add: printable_def show_Packet_def deliverable_def)
qed

lemma deliverable_set_connection [simp]: "deliverable ml (set_connection c p) = deliverable ml p"
  by (simp add: deliverable_def)

lemma deliverable_source:
  assumes "deliverable ml p"
  obtains src where "packet_source p = Inr src"
  using source_wf [of ml p] assms by (auto simp: deliverable_def)

lemma env_ready:
  assumes "world_inv env F w" "net_conns (w_net w) c = Some conn" "packet_wf (env_mavlink env) p"
  shows "conn_ready (env_in env n) (net_guards (w_net w)) p conn"
  using assms by (simp add: world_inv_def conn_ready_def conn_inv_def filter_total_def)

text \<open>Adding an address to the pool of a connection.\<close>

lemma add_address_ok:
  assumes "pool_wf (conn_pool (st_conn s))" "t1 \<le> t2"
  shows "\<exists>s' pool. add_address env t1 t2 a s = (Inr (), s') \<and> st_guards s' = st_guards s \<and>
    st_notified s' = st_notified s \<and> st_conn s' = (st_conn s)\<lparr>conn_pool := pool\<rparr> \<and>
    pool_wf pool \<and> ap_timeout pool = ap_timeout (conn_pool (st_conn s)) \<and>
    (\<forall>later \<ge> t2. later - t2 \<le> ap_timeout pool \<longrightarrow> a \<in> live later pool)"
proof -
  obtain s1 where s1: "outcome t1 undefined None s s1"
      "add_address env t1 t2 a s =
        (Inr (), s1\<lparr>st_conn := (st_conn s1)\<lparr>conn_pool := pool_add t2 a (conn_pool (st_conn s1))\<rparr>\<rparr>)"
  proof (cases "env_level env \<ge> 1")
    case True
    obtain s2 where s2: "m_contains t1 a s = (Inr (a \<in> live_at t1 s), s2)" "outcome t1 undefined None s s2"
      using m_contains_ok [OF assms(1)] by blast
    have "outcome t1 undefined None s2 (s2\<lparr>st_log := l\<rparr>)" for l
      using outcome_pool [OF s2(2)]
      by (auto simp: outcome_def intro!: exI [of _ "conn_pool (st_conn s2)"])
    then show thesis
      using that [of s2] that [of "s2\<lparr>st_log := st_log s2 @ logger_log (env_level env) 1
          (''new component '' @ show_MAVAddress a @ '' on '' @ conn_name (st_conn s2))\<rparr>"]
        s2 True outcome_trans [OF s2(2) _ order_refl]
      by (cases "a \<in> live_at t1 s") (simp_all add: add_address_def andthen_def ret_def m_print_def)
  next
    case False
    then show thesis
      using that [OF outcome_refl [OF assms(1)]] by (simp add: add_address_def andthen_def ret_def)
  qed
  have pool: "pool_wf (conn_pool (st_conn s1))"
      "ap_timeout (conn_pool (st_conn s1)) = ap_timeout (conn_pool (st_conn s))"
    using s1(1) by (auto simp: outcome_def)
  have "st_conn s1 = (st_conn s)\<lparr>conn_pool := conn_pool (st_conn s1)\<rparr>"
    using s1(1) by (auto simp: outcome_def)
  then show ?thesis
    using s1 pool pool_ops_wf(1) [OF pool(1)] live_add [OF pool(1)]
    by (intro exI [of _ "s1\<lparr>st_conn := (st_conn s1)\<lparr>conn_pool := pool_add t2 a (conn_pool (st_conn s1))\<rparr>\<rparr>"]
        exI [of _ "pool_add t2 a (conn_pool (st_conn s1))"])
      (auto simp: outcome_def)
qed


lemma accounted_cong:
  assumes "net_owner n' = net_owner n" "net_sems n' = net_sems n"
    "\<And>c. map_option conn_queue (net_conns n' c) = map_option conn_queue (net_conns n c)"
  shows "accounted n' = accounted n"
proof -
  have "queued n' c = queued n c" for c
    using assms(3) [of c] by (auto simp: queued_def split: option.splits)
  moreover have "(\<exists>conn. net_conns n' c = Some conn \<and> pq_callback (conn_queue conn)) \<longleftrightarrow>
      (\<exists>conn. net_conns n c = Some conn \<and> pq_callback (conn_queue conn))" for c
    using assms(3) [of c] by (cases "net_conns n c"; cases "net_conns n' c") auto
  ultimately show ?thesis
    using assms(1,2) by (simp add: accounted_def owned_def counted_def)
qed

text \<open>
  What the queues may gain when packets are handled: each queue at most one entry for every packet
  the filter accepts for some address, with the bytes of that packet.
\<close>

definition queue_data :: "Connection \<Rightarrow> u8 list multiset" where
  "queue_data conn = image_mset (\<lambda>q. pkt_data (qp_packet q)) (mset (pq_queue (conn_queue conn)))"

definition lets_through :: "environment \<Rightarrow> Filter \<Rightarrow> guards \<Rightarrow> Packet \<Rightarrow> bool" where
  "lets_through env F g p \<longleftrightarrow>
     (\<exists>addr priority. will_accept F (env_thread env) p addr g = Some (Inr (True, priority), g))"

definition through :: "environment \<Rightarrow> Filter \<Rightarrow> guards \<Rightarrow> Packet list \<Rightarrow> u8 list multiset" where
  "through env F g ps = mset (map pkt_data (filter (lets_through env F g) ps))"

definition gains :: "environment \<Rightarrow> Filter \<Rightarrow> Packet list \<Rightarrow> world \<Rightarrow> world \<Rightarrow> bool" where
  "gains env F ps w w' \<longleftrightarrow>
     net_guards (w_net w') = net_guards (w_net w) \<and>
     (\<forall>c conn. net_conns (w_net w) c = Some conn \<longrightarrow>
        (\<exists>conn'. net_conns (w_net w') c = Some conn' \<and> queue_data conn \<subseteq># queue_data conn' \<and>
           queue_data conn' \<subseteq># queue_data conn + through env F (net_guards (w_net w)) ps))"

lemma through_simps [simp]:
  "through env F g [] = {#}" "through env F g (ps @ qs) = through env F g ps + through env F g qs"
  by (simp_all add: through_def)

lemma gains_queues:
  assumes "net_guards (w_net w') = net_guards (w_net w)"
    "\<And>c. map_option conn_queue (net_conns (w_net w') c) = map_option conn_queue (net_conns (w_net w) c)"
  shows "gains env F [] w w'"
proof -
  have "\<exists>conn'. net_conns (w_net w') c = Some conn' \<and> queue_data conn' = queue_data conn"
    if "net_conns (w_net w) c = Some conn" for c conn
    using assms(2) [of c] that by (auto simp: queue_data_def)
  then show ?thesis using assms(1) by (fastforce simp: gains_def)
qed

lemma gains_trans:
  assumes "gains env F ps w1 w2" "gains env F qs w2 w3"
  shows "gains env F (ps @ qs) w1 w3"
proof -
  have g: "net_guards (w_net w2) = net_guards (w_net w1)" using assms(1) by (simp add: gains_def)
  let ?t = "through env F (net_guards (w_net w1))"
  have "\<exists>conn'. net_conns (w_net w3) c = Some conn' \<and> queue_data conn \<subseteq># queue_data conn' \<and>
      queue_data conn' \<subseteq># queue_data conn + (?t ps + ?t qs)"
    if c: "net_conns (w_net w1) c = Some conn" for c conn
  proof -
    obtain conn2 where 2: "net_conns (w_net w2) c = Some conn2" "queue_data conn \<subseteq># queue_data conn2"
        "queue_data conn2 \<subseteq># queue_data conn + ?t ps"
      using assms(1) c unfolding gains_def by blast
    obtain conn3 where 3: "net_conns (w_net w3) c = Some conn3" "queue_data conn2 \<subseteq># queue_data conn3"
        "queue_data conn3 \<subseteq># queue_data conn2 + ?t qs"
      using assms(2) 2(1) g unfolding gains_def by metis
    have "queue_data conn2 + ?t qs \<subseteq># queue_data conn + ?t ps + ?t qs"
      using 2(3) by (rule subset_mset.add_right_mono)
    from subset_mset.order_trans [OF 3(3) this] subset_mset.order_trans [OF 2(2) 3(2)]
    show ?thesis using 3(1) by (simp add: add.assoc)
  qed
  then show ?thesis using assms by (simp add: gains_def)
qed

text \<open>The filter does not look at the connection a packet came in on.\<close>

lemma condition_holds_connection [simp]:
  "condition_holds cond (set_connection c p) addr = condition_holds cond p addr"
  by (simp add: condition_holds_def If_check_def split: option.split)

lemma rule_action_connection [simp]:
  "rule_action call (set_connection c p) addr r g = rule_action call p addr r g"
  by (cases r) (simp_all add: action_defs)

lemma rules_action_connection [simp]:
  "rules_action call (set_connection c p) addr rs g = rules_action call p addr rs g"
  by (induction rs arbitrary: g) (simp_all split: option.split sum.split)

lemma chain_action_connection:
  "chain_action chs t n (set_connection c p) addr = chain_action chs t n p addr"
proof (induction n)
  case (Suc n)
  show ?case by (intro ext) (simp add: Suc split: option.split sum.split)
qed (simp add: fun_eq_iff)

lemma through_connection [simp]: "through env F g [set_connection c p] = through env F g [p]"
  by (simp add: through_def lets_through_def will_accept_def chain_action_connection)

text \<open>
  What handling packets leaves alone, what the queues gain by it, and that the queue of the
  connection they came in on gains nothing.
\<close>

definition passes :: "environment \<Rightarrow> Filter \<Rightarrow> nat \<Rightarrow> Packet list \<Rightarrow> world \<Rightarrow> world \<Rightarrow> bool" where
  "passes env F c ps w w' \<longleftrightarrow>
     world_inv env F w' \<and> net_keeps w w' \<and> gains env F ps w w' \<and>
     dom (net_conns (w_net w')) = dom (net_conns (w_net w)) \<and> w_next w' = w_next w \<and> w_cerr w' = w_cerr w \<and>
     net_owner (w_net w') = net_owner (w_net w) \<and>
     map_option conn_queue (net_conns (w_net w') c) = map_option conn_queue (net_conns (w_net w) c)"

lemma passes_trans:
  "passes env F c ps w1 w2 \<Longrightarrow> passes env F c qs w2 w3 \<Longrightarrow> passes env F c (ps @ qs) w1 w3"
  using net_keeps_trans gains_trans by (auto simp: passes_def)

lemma passes_packet: "passes env F c [set_connection d p] w w' \<Longrightarrow> passes env F c [p] w w'"
  by (simp add: passes_def gains_def)

lemma call_add_address_ok:
  assumes "world_inv env F w" "net_conns (w_net w) c = Some conn" "readings_ok rd"
  shows "\<exists>w' conn'. call_add_address env rd c src w = (Inr (), w') \<and> passes env F c [] w w' \<and>
    net_conns (w_net w') c = Some conn' \<and> w_pool w' = w_pool w \<and>
    (\<forall>d. d \<noteq> c \<longrightarrow> net_conns (w_net w') d = net_conns (w_net w) d) \<and>
    (\<forall>later \<ge> rd_add rd. later - rd_add rd \<le> 120000 \<longrightarrow> src \<in> live later (conn_pool conn'))"
proof -
  have inv: "conn_inv F conn" "c < w_next w" "accounted (w_net w)" "filter_total env F (net_guards (w_net w))"
    using assms(1,2) by (auto simp: world_inv_def)
  let ?s = "\<lparr>st_conn = conn, st_guards = net_guards (w_net w), st_log = net_log (w_net w), st_notified = 0\<rparr>"
  obtain s' pool where s': "add_address (env_in env (w_net w)) (rd_contains rd) (rd_add rd) src ?s = (Inr (), s')"
      "st_guards s' = net_guards (w_net w)" "st_notified s' = 0" "st_conn s' = conn\<lparr>conn_pool := pool\<rparr>"
      "pool_wf pool" "ap_timeout pool = 120000"
      "\<forall>later \<ge> rd_add rd. later - rd_add rd \<le> ap_timeout pool \<longrightarrow> src \<in> live later pool"
    using add_address_ok [of ?s "rd_contains rd" "rd_add rd" "env_in env (w_net w)" src] inv(1) assms(3)
    by (auto simp: conn_inv_def readings_ok_def)
  define n where "n = \<lparr>net_conns = (net_conns (w_net w))(c \<mapsto> conn\<lparr>conn_pool := pool\<rparr>),
      net_guards = net_guards (w_net w), net_log = st_log s', net_owner = net_owner (w_net w),
      net_sems = net_sems (w_net w)\<rparr>"
  have "notify_owner c 0 (w_net w) = net_sems (w_net w)"
    by (auto simp: notify_owner_def split: option.split)
  then have run: "call_add_address env rd c src w = (Inr (), w\<lparr>w_net := n\<rparr>)"
    using s' assms(2) by (simp add: call_add_address_def on_connection_def n_def)
  have acc: "accounted n"
    using inv(3) assms(2) by (subst accounted_cong [where n = "w_net w"]) (auto simp: n_def)
  have "world_inv env F (w\<lparr>w_net := n\<rparr>)"
    using assms(1) inv(1,2) acc s'(5,6) by (auto simp: world_inv_def n_def conn_inv_def)
  moreover have "gains env F [] w (w\<lparr>w_net := n\<rparr>)"
    using assms(2) by (intro gains_queues) (simp_all add: n_def)
  ultimately have "passes env F c [] w (w\<lparr>w_net := n\<rparr>)"
    using assms(2) by (auto simp: passes_def net_keeps_def keeps_def n_def)
  then show ?thesis using run s'(6,7) by (simp add: n_def)
qed

lemma delivered_keeps: "delivered t p r conn conn' \<Longrightarrow> conn_inv F conn \<Longrightarrow> conn_inv F conn' \<and> keeps conn conn'"
  by (auto simp: delivered_def conn_inv_def keeps_def queue_enq_eq split: option.splits)

text \<open>A queue gains a packet only if the filter accepts it for some address.\<close>

lemma best_priority_accepts: "best_priority V A = Some k \<Longrightarrow> \<exists>a. fst (V a)"
  by (auto simp: best_priority_def Let_def split: if_splits)

lemma delivery_accepts: "delivery m src dest L1 L2 L3 V = Some k \<Longrightarrow> \<exists>a. fst (V a)"
  by (auto simp: delivery_def split: if_splits option.splits dest: best_priority_accepts)

lemma delivered_gains:
  assumes "delivered t p (delivery m src dest L1 L2 L3 (verdict_of (env_in env n) g p conn)) conn conn'"
    "conn_inv F conn" "conn_ready (env_in env n) g p conn"
  shows "queue_data conn \<subseteq># queue_data conn' \<and> queue_data conn' \<subseteq># queue_data conn + through env F g [p]"
proof (cases "delivery m src dest L1 L2 L3 (verdict_of (env_in env n) g p conn)")
  case None
  then show ?thesis using assms(1) by (simp add: delivered_def queue_data_def)
next
  case (Some k)
  then obtain a where a: "fst (verdict_of (env_in env n) g p conn a)" using delivery_accepts by blast
  obtain acc pr where "will_accept F (env_thread env) p a g = Some (Inr (acc, pr), g)"
    using assms(2,3) unfolding conn_ready_def conn_inv_def env_in_simps by blast
  then have "lets_through env F g p"
    using a assms(2) by (auto simp: verdict_of_def conn_inv_def lets_through_def)
  then show ?thesis
    using assms(1) Some by (simp add: delivered_def queue_data_def queue_enq_eq through_def)
qed

lemma call_pool_send_ok:
  assumes "world_inv env F w" "deliverable (env_mavlink env) p" "readings_ok rd"
    "packet_source p = Inr src" "net_conns (w_net w) c = Some conn"
    "src \<in> live (fst (rd_send rd c)) (conn_pool conn)"
  shows "\<exists>w'. call_pool_send env rd p w = (Inr (), w') \<and> passes env F c [p] w w'"
proof -
  obtain dest where dest: "packet_dest (env_mavlink env) p = Inr dest"
    using assms(2) by (auto simp: deliverable_def is_ok_iff)
  have wf: "packet_wf (env_mavlink env) p" using assms(2) by (simp add: deliverable_def)
  have t: "case rd_send rd d of (t1, t2, t3) \<Rightarrow> t1 \<le> t2 \<and> t2 \<le> t3" for d
    using assms(3) by (auto simp: readings_ok_def split: prod.splits)
  have inv: "distinct (w_pool w)" "accounted (w_net w)" using assms(1) by (auto simp: world_inv_def)
  let ?env = "env_in env (w_net w)"
  let ?v = "verdict_of ?env (net_guards (w_net w)) p"
  let ?alive = "filter (\<lambda>d. net_conns (w_net w) d \<noteq> None) (w_pool w)"
  have pr: "printable ?env p"
    using deliverable_printable [of ?env p] assms(2) by simp
  obtain n where n: "conn_pool_send ?env (rd_send rd) (Some p) (w_pool w) (w_net w) = (Inr (), ?alive, n)"
      "net_guards n = net_guards (w_net w)" "net_owner n = net_owner (w_net w)" "accounted n"
      "\<forall>d. d \<notin> set (w_pool w) \<longrightarrow> net_conns n d = net_conns (w_net w) d"
      "\<forall>d \<in> set (w_pool w). case net_conns (w_net w) d of
         None \<Rightarrow> net_conns n d = None
       | Some cn \<Rightarrow> \<exists>cn'. net_conns n d = Some cn' \<and>
           (case rd_send rd d of (t1, t2, t3) \<Rightarrow>
              delivered t3 p (delivery (conn_mirror cn) src dest (live t1 (conn_pool cn))
                (live t2 (conn_pool cn)) (live t3 (conn_pool cn)) (?v cn)) cn cn')"
    using conn_pool_send_ok [of "w_pool w" ?env p src dest "w_net w" "rd_send rd"] pr assms(4) dest t inv
      env_ready [OF assms(1) _ wf] by auto
  have each: "\<exists>cn'. net_conns n d = Some cn' \<and> conn_inv F cn' \<and> keeps cn cn' \<and>
      queue_data cn \<subseteq># queue_data cn' \<and> queue_data cn' \<subseteq># queue_data cn + through env F (net_guards (w_net w)) [p] \<and>
      (d = c \<longrightarrow> conn_queue cn' = conn_queue cn)" if d: "net_conns (w_net w) d = Some cn" for d cn
  proof (cases "d \<in> set (w_pool w)")
    case True
    obtain t1 t2 t3 where ts: "rd_send rd d = (t1, t2, t3)" by (cases "rd_send rd d")
    obtain cn' where cn': "net_conns n d = Some cn'"
        "delivered t3 p (delivery (conn_mirror cn) src dest (live t1 (conn_pool cn))
           (live t2 (conn_pool cn)) (live t3 (conn_pool cn)) (?v cn)) cn cn'"
      using n(6) True d ts by fastforce
    have cn: "conn_inv F cn" using assms(1) d by (auto simp: world_inv_def)
    then have "conn_inv F cn' \<and> keeps cn cn'" using delivered_keeps cn'(2) by blast
    moreover have "queue_data cn \<subseteq># queue_data cn' \<and> queue_data cn' \<subseteq># queue_data cn + through env F (net_guards (w_net w)) [p]"
      using delivered_gains [OF cn'(2) cn env_ready [OF assms(1) d wf]] by simp
    moreover have "d = c \<longrightarrow> conn_queue cn' = conn_queue cn"
      using cn'(2) assms(5,6) d ts by (auto simp: delivered_def delivery_def)
    ultimately show ?thesis using cn'(1) by blast
  next
    case False
    then show ?thesis using n(5) d assms(1) by (auto simp: world_inv_def keeps_def)
  qed
  then have "gains env F [p] w (w\<lparr>w_net := n, w_pool := ?alive\<rparr>)"
    using n(2) by (fastforce simp: gains_def)
  moreover have none: "net_conns n d = None" if "net_conns (w_net w) d = None" for d
    using n(5,6) that by (cases "d \<in> set (w_pool w)") auto
  let ?w = "w\<lparr>w_net := n, w_pool := ?alive\<rparr>"
  have "conn_inv F cn' \<and> d < w_next w" if "net_conns n d = Some cn'" for d cn'
    using that none [of d] each [of d] assms(1) by (cases "net_conns (w_net w) d") (auto simp: world_inv_def)
  then have "world_inv env F ?w"
    using assms(1) n(2,4) by (auto simp: world_inv_def)
  moreover have "net_keeps w ?w" using each by (fastforce simp: net_keeps_def)
  moreover have "map_option conn_queue (net_conns n c) = map_option conn_queue (net_conns (w_net w) c)"
    using each [OF assms(5)] assms(5) by auto
  moreover have "dom (net_conns n) = dom (net_conns (w_net w))"
    using none each by (fastforce simp: dom_def)
  ultimately show ?thesis using n(1,3) by (simp add: call_pool_send_def passes_def)
qed

section \<open>The serial interface\<close>

definition serial_inv :: "environment \<Rightarrow> Filter \<Rightarrow> SerialInterface \<times> world \<Rightarrow> bool" where
  "serial_inv env F x \<longleftrightarrow>
     world_inv env F (snd x) \<and> net_conns (w_net (snd x)) (ser_connection (fst x)) \<noteq> None"

definition serial_queue :: "SerialInterface \<times> world \<Rightarrow> PacketQueue option" where
  "serial_queue x = map_option conn_queue (net_conns (w_net (snd x)) (ser_connection (fst x)))"

definition serial_step ::
  "environment \<Rightarrow> Filter \<Rightarrow> Packet list \<Rightarrow> SerialInterface \<times> world \<Rightarrow> SerialInterface \<times> world \<Rightarrow> bool" where
  "serial_step env F ps x y \<longleftrightarrow>
     ser_connection (fst y) = ser_connection (fst x) \<and> net_keeps (snd x) (snd y) \<and>
     gains env F ps (snd x) (snd y) \<and>
     owners_kept {} (snd x) (snd y) \<and> serial_queue y = serial_queue x"

definition serial_feed :: "PacketParser \<Rightarrow> u64 list \<Rightarrow> SerialInterface \<times> world \<Rightarrow> SerialInterface \<times> world" where
  "serial_feed p ids x = (fst x\<lparr>ser_parser := p\<rparr>, snd x\<lparr>w_cerr := w_cerr (snd x) @ ids\<rparr>)"

definition serial_take ::
  "environment \<Rightarrow> readings \<Rightarrow> Packet \<Rightarrow> SerialInterface \<times> world \<Rightarrow> (cpp_error + unit) \<times> SerialInterface \<times> world" where
  "serial_take env rd p x = (case serial_handle env rd p (fst x) (snd x) of (r, w) \<Rightarrow> (r, fst x, w))"

lemma world_inv_cerr [simp]: "world_inv env F (w\<lparr>w_cerr := ids\<rparr>) = world_inv env F w"
  by (simp add: world_inv_def)

lemma net_keeps_cerr [simp]: "net_keeps w (w\<lparr>w_cerr := ids\<rparr>)"
  by (simp add: net_keeps_def keeps_def)

lemma readings_ok_first:
  "readings_ok rd \<Longrightarrow> rd_add rd \<le> fst (rd_send rd c) \<and> fst (rd_send rd c) - rd_add rd \<le> 120000"
  unfolding readings_ok_def by (drule conjunct2, drule spec [of _ c], cases "rd_send rd c", simp)

lemma serial_take_ok:
  assumes "serial_inv env F x" "deliverable (env_mavlink env) p" "readings_ok rd"
  shows "\<exists>y. serial_take env rd p x = (Inr (), y) \<and> serial_inv env F y \<and> serial_step env F [p] x y \<and>
    ser_parser (fst y) = ser_parser (fst x) \<and> w_cerr (snd y) = w_cerr (snd x)"
proof -
  obtain s w where x: "x = (s, w)" by (cases x)
  let ?c = "ser_connection s" and ?p = "set_connection (ser_connection s) p"
  obtain conn where conn: "net_conns (w_net w) ?c = Some conn"
    using assms(1) by (auto simp: serial_inv_def x)
  have inv: "world_inv env F w" using assms(1) by (simp add: serial_inv_def x)
  obtain src where src: "packet_source p = Inr src" using deliverable_source [OF assms(2)] by blast
  obtain w1 conn1 where w1: "call_add_address env rd ?c src w = (Inr (), w1)" "passes env F ?c [] w w1"
      "net_conns (w_net w1) ?c = Some conn1"
      "\<forall>later \<ge> rd_add rd. later - rd_add rd \<le> 120000 \<longrightarrow> src \<in> live later (conn_pool conn1)"
    using call_add_address_ok [OF inv conn assms(3)] by blast
  have echo: "src \<in> live (fst (rd_send rd ?c)) (conn_pool conn1)"
    using w1(4) readings_ok_first [OF assms(3)] by blast
  have inv1: "world_inv env F w1" using w1(2) by (simp add: passes_def)
  obtain w2 where w2: "call_pool_send env rd ?p w1 = (Inr (), w2)" "passes env F ?c [?p] w1 w2"
    using call_pool_send_ok [OF inv1 _ assms(3) _ w1(3) echo, of ?p] assms(2) src by auto
  have p: "passes env F ?c [p] w w2"
    using passes_packet [OF passes_trans [OF w1(2) w2(2), unfolded append_Nil]] .
  then have "net_conns (w_net w2) ?c \<noteq> None" using conn by (auto simp: passes_def)
  then show ?thesis
    using p w1(1) w2(1) src
    by (auto simp: x serial_take_def serial_handle_def Let_def serial_inv_def serial_step_def
        serial_queue_def passes_def intro: owners_kept_same)
qed

interpretation ser: packet_receiver "env_mavlink env" "\<lambda>x. ser_parser (fst x)" "\<lambda>x. w_cerr (snd x)"
  serial_feed "serial_take env" "\<lambda>clk i bs x. serial_bytes env clk i bs (fst x) (snd x)"
  "serial_inv env F" "serial_step env F" "\<lambda>_. {()}" "()"
  for env F
proof unfold_locales
  show "serial_bytes env clk i (b # bs) (fst s) (snd s) =
      (case parse_byte (env_mavlink env) b (ser_parser (fst s)) of
         Inl e \<Rightarrow> (Inl e, s)
       | Inr (packet, ids, p') \<Rightarrow>
           (case packet of
              None \<Rightarrow> serial_bytes env clk i bs (fst (serial_feed p' ids s)) (snd (serial_feed p' ids s))
            | Some k \<Rightarrow>
                (case serial_take env (clk i) k (serial_feed p' ids s) of
                   (Inl e, s') \<Rightarrow> (Inl e, s')
                 | (Inr _, s') \<Rightarrow> serial_bytes env clk (Suc i) bs (fst s') (snd s'))))" for clk i b bs s
    by (cases s) (auto simp: serial_feed_def serial_take_def Let_def split: sum.splits option.splits prod.splits)
next
  show "\<exists>s'. serial_take env rd k s = (Inr (), s') \<and> serial_inv env F s' \<and> serial_step env F [k] s s' \<and>
      ser_parser (fst s') = ser_parser (fst s) \<and> w_cerr (snd s') = w_cerr (snd s) \<and> {()} = insert () {()}"
    if "serial_inv env F s" "deliverable (env_mavlink env) k" "readings_ok rd" for s k rd
    using serial_take_ok [OF that] by auto
qed (auto simp: serial_feed_def serial_inv_def serial_step_def serial_queue_def
    intro: net_keeps_trans owners_kept_trans gains_trans gains_queues)

section \<open>The UDP interface\<close>

text \<open>
  Each IP address has one connection, which exists, bears its name, is registered with the pool
  and was made by the interface's factory; and the factory made no others.
\<close>

definition udp_inv :: "environment \<Rightarrow> Filter \<Rightarrow> UDPInterface \<times> world \<Rightarrow> bool" where
  "udp_inv env F x \<longleftrightarrow>
     (let u = fst x; w = snd x; cf = udp_factory u in
      world_inv env F w \<and> cf_filter cf = F \<and> map_wf (udp_connections u) \<and>
      distinct (map snd (udp_connections u)) \<and>
      owned (w_net w) (cf_number cf) = snd ` set (udp_connections u) \<and>
      (\<forall>(ip, c) \<in> set (udp_connections u). \<exists>conn. net_conns (w_net w) c = Some conn \<and>
         conn_name conn = show_IPAddress ip \<and> conn_mirror conn = cf_mirror cf \<and>
         pq_running (conn_queue conn) \<and> c \<in> set (w_pool w)))"

definition sender_queue :: "IPAddress \<Rightarrow> UDPInterface \<times> world \<Rightarrow> QueuedPacket list" where
  "sender_queue ip x =
     (case map_of (udp_connections (fst x)) ip of
        None \<Rightarrow> []
      | Some c \<Rightarrow> (case net_conns (w_net (snd x)) c of None \<Rightarrow> [] | Some conn \<Rightarrow> pq_queue (conn_queue conn)))"

definition udp_step ::
  "environment \<Rightarrow> Filter \<Rightarrow> IPAddress \<Rightarrow> Packet list \<Rightarrow>
   UDPInterface \<times> world \<Rightarrow> UDPInterface \<times> world \<Rightarrow> bool" where
  "udp_step env F ip ps x y \<longleftrightarrow>
     udp_factory (fst y) = udp_factory (fst x) \<and> udp_last_ip (fst y) = udp_last_ip (fst x) \<and>
     net_keeps (snd x) (snd y) \<and> gains env F ps (snd x) (snd y) \<and>
     owners_kept {cf_number (udp_factory (fst x))} (snd x) (snd y) \<and>
     sender_queue ip y = sender_queue ip x \<and>
     map_of (udp_connections (fst x)) \<subseteq>\<^sub>m map_of (udp_connections (fst y))"

definition udp_feed :: "PacketParser \<Rightarrow> u64 list \<Rightarrow> UDPInterface \<times> world \<Rightarrow> UDPInterface \<times> world" where
  "udp_feed p ids x = (fst x\<lparr>udp_parser := p\<rparr>, snd x\<lparr>w_cerr := w_cerr (snd x) @ ids\<rparr>)"

definition udp_known :: "UDPInterface \<times> world \<Rightarrow> IPAddress set" where
  "udp_known x = fst ` set (udp_connections (fst x))"

lemma mset_map_put_new: "map_of m k = None \<Longrightarrow> mset (map_put k v m) = add_mset (k, v) (mset m)"
  by (induction k v m rule: map_put.induct) (auto split: if_splits)

lemma map_put_new:
  assumes "map_of m k = None"
  shows "set (map_put k v m) = insert (k, v) (set m)"
    "distinct (map snd (map_put k v m)) \<longleftrightarrow> v \<notin> snd ` set m \<and> distinct (map snd m)"
proof -
  have m: "mset (map_put k v m) = mset ((k, v) # m)" using mset_map_put_new [OF assms] by simp
  show "set (map_put k v m) = insert (k, v) (set m)" using mset_eq_setD [OF m] by simp
  have "mset (map snd (map_put k v m)) = mset (map snd ((k, v) # m))" using m by simp
  then show "distinct (map snd (map_put k v m)) \<longleftrightarrow> v \<notin> snd ` set m \<and> distinct (map snd m)"
    by (simp add: mset_eq_imp_distinct_iff [of "map snd (map_put k v m)" "map snd ((k, v) # m)"])
qed


lemma accounted_new:
  assumes "accounted n" "net_conns n c = None" "pq_queue (conn_queue conn) = []" "pq_callback (conn_queue conn)"
    "n' = n\<lparr>net_conns := (net_conns n)(c \<mapsto> conn), net_owner := (net_owner n)(c \<mapsto> f)\<rparr>"
  shows "accounted n'" "owned n' f = insert c (owned n f)"
proof -
  have cb: "net_owner n d = Some g \<Longrightarrow> \<exists>cn. net_conns n d = Some cn \<and> pq_callback (conn_queue cn)" for d g
    using assms(1) by (simp add: accounted_def)
  have free: "net_owner n c = None" using cb [of c] assms(2) by (cases "net_owner n c") auto
  have o: "owned n' g = (if g = f then insert c (owned n g) else owned n g)" for g
    using free by (auto simp: owned_def assms(5))
  then show "owned n' f = insert c (owned n f)" by simp
  have q: "queued n' d = queued n d" for d
    using assms(2,3) by (simp add: queued_def assms(5))
  have "queued n c = 0" using assms(2) by (simp add: queued_def)
  moreover have fin: "finite (owned n g)" for g using assms(1) by (simp add: accounted_def)
  moreover have "c \<notin> owned n f" using free by (simp add: owned_def)
  ultimately have "counted n' g = counted n g" for g
    by (simp add: counted_def o q)
  moreover have "net_sems n' = net_sems n" by (simp add: assms(5))
  moreover have "\<exists>cn. net_conns n' d = Some cn \<and> pq_callback (conn_queue cn)" if "net_owner n' d = Some g" for d g
    using that cb [of d g] assms(4) by (auto simp: assms(5) split: if_splits)
  ultimately show "accounted n'" using assms(1) fin o by (simp add: accounted_def)
qed

text \<open>\<open>update_connections_\<close> on an address without a connection first makes one.\<close>

definition new_connection :: "UDPInterface \<Rightarrow> IPAddress \<Rightarrow> Connection" where
  "new_connection u ip =
     \<lparr>conn_name = show_IPAddress ip, conn_filter = cf_filter (udp_factory u),
      conn_mirror = cf_mirror (udp_factory u), conn_pool = AddressPool_construct 120000,
      conn_queue = PacketQueue_construct True\<rparr>"

definition with_connection :: "IPAddress \<Rightarrow> UDPInterface \<times> world \<Rightarrow> UDPInterface \<times> world" where
  "with_connection ip x =
     (let u = fst x; w = snd x; c = w_next w; n = w_net w in
      if map_of (udp_connections u) ip = None
      then (u\<lparr>udp_connections := map_put ip c (udp_connections u)\<rparr>,
            w\<lparr>w_net := n\<lparr>net_conns := (net_conns n)(c \<mapsto> new_connection u ip),
                       net_owner := (net_owner n)(c \<mapsto> cf_number (udp_factory u))\<rparr>,
              w_next := Suc c, w_pool := conn_pool_add c (w_pool w)\<rparr>)
      else x)"

lemma update_connections_eq:
  assumes "map_wf (udp_connections u)"
  shows "update_connections env rd mav ip u w =
    (case with_connection ip (u, w) of (u1, w1) \<Rightarrow>
       (case call_add_address env rd (the (map_of (udp_connections u1) ip)) mav w1 of (r, w') \<Rightarrow> (r, u1, w')))"
  using cmap.find_put [OF assms]
  by (cases "map_of (udp_connections u) ip")
    (simp_all add: update_connections_def with_connection_def factory_get_def Connection_construct_def
      new_connection_def Let_def)

lemma pool_add_set: "set (conn_pool_add c cs) = insert c (set cs)" "c \<notin> set cs \<Longrightarrow> distinct cs \<Longrightarrow> distinct (conn_pool_add c cs)"
  by (auto simp: conn_pool_add_def set_insort_key distinct_insort)

lemma with_connection_ok:
  assumes "udp_inv env F x" "y = with_connection ip x"
  shows "udp_inv env F y" "udp_step env F ip [] x y" "w_cerr (snd y) = w_cerr (snd x)"
    "udp_parser (fst y) = udp_parser (fst x)" "udp_known y = insert ip (udp_known x)"
    "map_of (udp_connections (fst y)) ip \<noteq> None"
proof -
  obtain u w where x: "x = (u, w)" by (cases x)
  have "udp_inv env F y \<and> udp_step env F ip [] x y \<and> w_cerr (snd y) = w_cerr w \<and> udp_parser (fst y) = udp_parser u \<and>
      udp_known y = insert ip (udp_known x) \<and> map_of (udp_connections (fst y)) ip \<noteq> None"
  proof (cases "map_of (udp_connections u) ip")
    case (Some c)
    then have "y = x" using assms(2) by (simp add: with_connection_def x)
    moreover have "ip \<in> fst ` set (udp_connections u)" using Some by (force dest: map_of_SomeD)
    ultimately show ?thesis
      using assms(1) Some gains_queues [OF refl refl] by (auto simp: x udp_step_def udp_known_def insert_absorb)
  next
    case None
    let ?c = "w_next w" and ?cf = "udp_factory u" and ?conn = "new_connection u ip"
    let ?n = "(w_net w)\<lparr>net_conns := (net_conns (w_net w))(?c \<mapsto> ?conn),
        net_owner := (net_owner (w_net w))(?c \<mapsto> cf_number ?cf)\<rparr>"
    let ?u = "u\<lparr>udp_connections := map_put ip ?c (udp_connections u)\<rparr>"
    let ?w = "w\<lparr>w_net := ?n, w_next := Suc ?c, w_pool := conn_pool_add ?c (w_pool w)\<rparr>"
    have y: "y = (?u, ?w)" using None assms(2) by (simp add: with_connection_def x Let_def)
    have inv: "world_inv env F w" "map_wf (udp_connections u)" "cf_filter ?cf = F"
        "distinct (map snd (udp_connections u))"
        "owned (w_net w) (cf_number ?cf) = snd ` set (udp_connections u)"
      and each: "\<And>j d. (j, d) \<in> set (udp_connections u) \<Longrightarrow> \<exists>conn. net_conns (w_net w) d = Some conn \<and>
         conn_name conn = show_IPAddress j \<and> conn_mirror conn = cf_mirror ?cf \<and>
         pq_running (conn_queue conn) \<and> d \<in> set (w_pool w)"
      using assms(1) by (auto simp: udp_inv_def x Let_def)
    have fresh: "net_conns (w_net w) ?c = None" "?c \<notin> set (w_pool w)"
      using inv(1) by (auto simp: world_inv_def) (metis less_irrefl not_None_eq)
    have "?c \<notin> snd ` set (udp_connections u)" using each fresh(1) by fastforce
    note put = map_put_new [OF None, of ?c] this
    note acc = accounted_new [OF _ fresh(1), of ?conn ?n "cf_number ?cf"]
    have conn: "conn_inv F ?conn" "pq_queue (conn_queue ?conn) = []" "pq_callback (conn_queue ?conn)"
        "pq_running (conn_queue ?conn)"
      using inv(3) by (simp_all add: conn_inv_def new_connection_def pool_wf_def AddressPool_construct_def
          PacketQueue_construct_def)
    have w': "world_inv env F ?w"
      using inv(1) acc(1) conn(1-3) pool_add_set [of ?c "w_pool w"] fresh(2)
      by (auto simp: world_inv_def less_Suc_eq)
    have own': "owned (w_net ?w) (cf_number (udp_factory ?u)) = snd ` set (udp_connections ?u)"
      using inv(1,5) acc(2) conn(2,3) put(1) by (simp add: world_inv_def)
    have each': "\<exists>conn. net_conns (w_net ?w) d = Some conn \<and> conn_name conn = show_IPAddress j \<and>
        conn_mirror conn = cf_mirror (udp_factory ?u) \<and> pq_running (conn_queue conn) \<and> d \<in> set (w_pool ?w)"
      if "(j, d) \<in> set (udp_connections ?u)" for j d
    proof (cases "d = ?c")
      case True
      then have "(j, d) = (ip, ?c)" using that put(1,3) by force
      then show ?thesis using conn by (simp add: new_connection_def pool_add_set)
    next
      case False
      then show ?thesis using that put(1) each [of j d] by (auto simp: pool_add_set)
    qed
    have "\<forall>(j, d) \<in> set (udp_connections ?u). \<exists>conn. net_conns (w_net ?w) d = Some conn \<and>
        conn_name conn = show_IPAddress j \<and> conn_mirror conn = cf_mirror (udp_factory ?u) \<and>
        pq_running (conn_queue conn) \<and> d \<in> set (w_pool ?w)"
      by (intro ballI case_prodI2, rule each', simp only:)
    moreover have "map_wf (udp_connections ?u)" "distinct (map snd (udp_connections ?u))"
        "cf_filter (udp_factory ?u) = F"
      using inv(2-4) put cmap.wf_put by simp_all
    ultimately have "udp_inv env F y"
      unfolding udp_inv_def Let_def y fst_conv snd_conv by (intro conjI w' own')
    moreover have "net_keeps w ?w" using fresh(1) by (auto simp: net_keeps_def keeps_def pool_add_set)
    moreover have "gains env F [] w ?w" using fresh(1) by (auto simp: gains_def)
    moreover have "owners_kept {cf_number ?cf} w ?w" using fresh(1) by (auto simp: owners_kept_def)
    moreover have "map_of (map_put ip ?c (udp_connections u)) = (map_of (udp_connections u))(ip \<mapsto> ?c)"
      using cmap.find_put [OF inv(2)] .
    ultimately show ?thesis
      using None put(1) conn(2)
      by (auto simp: y x udp_step_def sender_queue_def udp_known_def map_le_def)
  qed
  then show "udp_inv env F y" "udp_step env F ip [] x y" "w_cerr (snd y) = w_cerr (snd x)"
    "udp_parser (fst y) = udp_parser (fst x)" "udp_known y = insert ip (udp_known x)"
    "map_of (udp_connections (fst y)) ip \<noteq> None"
    by (simp_all add: x)
qed


text \<open>What the two calls of the handler do to the connection of the sender.\<close>

lemma udp_inv_passes:
  assumes "udp_inv env F (u, w)" "passes env F c ps w w'" "map_of (udp_connections u) ip = Some c"
  shows "udp_inv env F (u, w')" "udp_step env F ip ps (u, w) (u, w')"
proof -
  have keep: "net_keeps w w'" "gains env F ps w w'" "net_owner (w_net w') = net_owner (w_net w)" "world_inv env F w'"
      "map_option conn_queue (net_conns (w_net w') c) = map_option conn_queue (net_conns (w_net w) c)"
    using assms(2) by (auto simp: passes_def)
  have own: "owned (w_net w') f = owned (w_net w) f" for f using keep(3) by (simp add: owned_def)
  have each: "\<exists>conn. net_conns (w_net w') d = Some conn \<and> conn_name conn = show_IPAddress j \<and>
      conn_mirror conn = cf_mirror (udp_factory u) \<and> pq_running (conn_queue conn) \<and> d \<in> set (w_pool w')"
    if jd: "(j, d) \<in> set (udp_connections u)" for j d
  proof -
    obtain conn where "net_conns (w_net w) d = Some conn" "conn_name conn = show_IPAddress j"
        "conn_mirror conn = cf_mirror (udp_factory u)" "pq_running (conn_queue conn)" "d \<in> set (w_pool w)"
      using assms(1) jd by (auto simp: udp_inv_def Let_def)
    then show ?thesis using keep(1) unfolding net_keeps_def keeps_def by fastforce
  qed
  have "\<forall>(j, d) \<in> set (udp_connections u). \<exists>conn. net_conns (w_net w') d = Some conn \<and>
      conn_name conn = show_IPAddress j \<and> conn_mirror conn = cf_mirror (udp_factory u) \<and>
      pq_running (conn_queue conn) \<and> d \<in> set (w_pool w')"
    by (intro ballI case_prodI2, rule each, simp only:)
  then show "udp_inv env F (u, w')"
    using assms(1) keep(4) by (simp add: udp_inv_def Let_def own)
  show "udp_step env F ip ps (u, w) (u, w')"
    using keep(1,2,5) assms(3) owners_kept_same [OF keep(3)]
    by (cases "net_conns (w_net w) c"; cases "net_conns (w_net w') c")
      (auto simp: udp_step_def sender_queue_def)
qed

lemma udp_step_refl [simp]: "udp_step env F ip [] x x"
  by (simp add: udp_step_def gains_queues)

lemma udp_step_trans:
  "udp_step env F ip ps x y \<Longrightarrow> udp_step env F ip qs y z \<Longrightarrow> udp_step env F ip (ps @ qs) x z"
  by (auto simp: udp_step_def intro: net_keeps_trans owners_kept_trans map_le_trans gains_trans)

definition udp_take ::
  "environment \<Rightarrow> IPAddress \<Rightarrow> readings \<Rightarrow> Packet \<Rightarrow> UDPInterface \<times> world \<Rightarrow>
   (cpp_error + unit) \<times> UDPInterface \<times> world" where
  "udp_take env ip rd p x = udp_handle env rd ip p (fst x) (snd x)"

lemma udp_take_ok:
  assumes "udp_inv env F x" "deliverable (env_mavlink env) p" "readings_ok rd"
  shows "\<exists>y. udp_take env ip rd p x = (Inr (), y) \<and> udp_inv env F y \<and> udp_step env F ip [p] x y \<and>
    udp_parser (fst y) = udp_parser (fst x) \<and> w_cerr (snd y) = w_cerr (snd x) \<and>
    udp_known y = insert ip (udp_known x)"
proof -
  obtain u w where x: "x = (u, w)" by (cases x)
  obtain u1 w1 where y: "with_connection ip x = (u1, w1)" by (cases "with_connection ip x")
  note new = with_connection_ok [OF assms(1) y [symmetric], unfolded fst_conv snd_conv]
  obtain c where c: "map_of (udp_connections u1) ip = Some c" using new(6) by auto
  then have "(ip, c) \<in> set (udp_connections u1)" by (rule map_of_SomeD)
  then obtain conn where conn: "net_conns (w_net w1) c = Some conn"
    using new(1) by (fastforce simp: udp_inv_def Let_def)
  have inv1: "world_inv env F w1" using new(1) by (simp add: udp_inv_def Let_def)
  obtain src where src: "packet_source p = Inr src" using deliverable_source [OF assms(2)] by blast
  obtain w2 conn2 where w2: "call_add_address env rd c src w1 = (Inr (), w2)" "passes env F c [] w1 w2"
      "net_conns (w_net w2) c = Some conn2"
      "\<forall>later \<ge> rd_add rd. later - rd_add rd \<le> 120000 \<longrightarrow> src \<in> live later (conn_pool conn2)"
    using call_add_address_ok [OF inv1 conn assms(3)] by blast
  have inv2: "world_inv env F w2" using w2(2) by (simp add: passes_def)
  have echo: "src \<in> live (fst (rd_send rd c)) (conn_pool conn2)"
    using w2(4) readings_ok_first [OF assms(3)] by blast
  obtain w3 where w3: "call_pool_send env rd (set_connection c p) w2 = (Inr (), w3)" "passes env F c [set_connection c p] w2 w3"
    using call_pool_send_ok [OF inv2 _ assms(3) _ w2(3) echo, of "set_connection c p"] assms(2) src by auto
  have pass: "passes env F c [p] w1 w3"
    using passes_packet [OF passes_trans [OF w2(2) w3(2), unfolded append_Nil]] .
  have "map_wf (udp_connections u)" using assms(1) by (simp add: udp_inv_def x Let_def)
  then have "udp_take env ip rd p x = (Inr (), u1, w3)"
    using src y c w2(1) w3(1) by (simp add: udp_take_def udp_handle_def update_connections_eq x)
  moreover have "udp_step env F ip [p] x (u1, w3)"
    using udp_step_trans [OF new(2) udp_inv_passes(2) [OF new(1) pass c]] by simp
  moreover have "w_cerr w3 = w_cerr w1" using pass by (simp add: passes_def)
  ultimately show ?thesis
    using new udp_inv_passes(1) [OF new(1) pass c] by (simp add: udp_known_def)
qed

interpretation udp: packet_receiver "env_mavlink env" "\<lambda>x. udp_parser (fst x)" "\<lambda>x. w_cerr (snd x)"
  udp_feed "udp_take env ip" "\<lambda>clk i bs x. udp_bytes env clk ip i bs (fst x) (snd x)"
  "udp_inv env F" "udp_step env F ip" udp_known ip
  for env ip F
proof unfold_locales
  show "udp_bytes env clk ip i (b # bs) (fst s) (snd s) =
      (case parse_byte (env_mavlink env) b (udp_parser (fst s)) of
         Inl e \<Rightarrow> (Inl e, s)
       | Inr (packet, ids, p') \<Rightarrow>
           (case packet of
              None \<Rightarrow> udp_bytes env clk ip i bs (fst (udp_feed p' ids s)) (snd (udp_feed p' ids s))
            | Some k \<Rightarrow>
                (case udp_take env ip (clk i) k (udp_feed p' ids s) of
                   (Inl e, s') \<Rightarrow> (Inl e, s')
                 | (Inr _, s') \<Rightarrow> udp_bytes env clk ip (Suc i) bs (fst s') (snd s'))))" for clk i b bs s
    by (cases s) (auto simp: udp_feed_def udp_take_def Let_def split: sum.splits option.splits prod.splits)
  show "\<exists>s'. udp_take env ip rd k s = (Inr (), s') \<and> udp_inv env F s' \<and> udp_step env F ip [k] s s' \<and>
      udp_parser (fst s') = udp_parser (fst s) \<and> w_cerr (snd s') = w_cerr (snd s) \<and>
      udp_known s' = insert ip (udp_known s)"
    if "udp_inv env F s" "deliverable (env_mavlink env) k" "readings_ok rd" for s k rd
    by (rule udp_take_ok [OF that])
qed (auto simp: udp_feed_def udp_inv_def udp_step_def sender_queue_def udp_known_def Let_def
    cong: option.case_cong intro: net_keeps_trans owners_kept_trans map_le_trans gains_trans gains_queues)

end
