(* ===== verification/Traffic.thy ===== *)
theory Traffic
  imports Interfaces
begin

text \<open>
  What passes through the interfaces: a datagram and a history of datagrams, a block of a serial
  link, and the packets sent.  Nothing is echoed to its sender, the frames of two senders are never
  mixed, each sender gets one connection, and the semaphore of a UDP interface always counts the
  packets that wait on its connections.
\<close>

section \<open>Receiving datagrams\<close>

text \<open>The bytes of the frame a datagram of this sender continues.\<close>

definition carried :: "IPAddress \<Rightarrow> UDPInterface \<Rightarrow> u8 list" where
  "carried ip u = (if ip = udp_last_ip u then pp_buffer (udp_parser u) else [])"

definition datagram_frames :: "mavlink_lib \<Rightarrow> u8 list \<Rightarrow> IPAddress \<Rightarrow> UDPInterface \<Rightarrow> (Version \<times> u8 list) list" where
  "datagram_frames ml buffer ip u = fst (spec_run ml buffer (carried ip u))"

text \<open>Every packet has a destination that can be read (not a short version 1 packet).\<close>

definition routable :: "mavlink_lib \<Rightarrow> (Version \<times> u8 list) list \<Rightarrow> bool" where
  "routable ml fs \<longleftrightarrow> (\<forall>k \<in> set (packets_of ml fs). is_ok (packet_dest ml k))"

lemma udp_receive_ok:
  assumes "udp_inv env F (u, w)" "parser_inv (env_mavlink env) (udp_parser u)" "\<forall>i. readings_ok (clk i)"
    "routable (env_mavlink env) (datagram_frames (env_mavlink env) buffer ip u)"
  shows "\<exists>u' w'. udp_receive_packet env clk buffer ip u w = (Inr (), u', w') \<and>
    udp_inv env F (u', w') \<and> parser_inv (env_mavlink env) (udp_parser u') \<and>
    udp_factory u' = udp_factory u \<and> sender_queue ip (u', w') = sender_queue ip (u, w) \<and>
    net_keeps w w' \<and> owners_kept {cf_number (udp_factory u)} w w' \<and>
    map_of (udp_connections u) \<subseteq>\<^sub>m map_of (udp_connections u') \<and>
    (let fs = datagram_frames (env_mavlink env) buffer ip u in
     w_cerr w' = w_cerr w @ errors_of (env_mavlink env) fs \<and>
     gains env F (packets_of (env_mavlink env) fs) w w' \<and>
     udp_known (u', w') =
       (if packets_of (env_mavlink env) fs = [] then udp_known (u, w) else insert ip (udp_known (u, w)))) \<and>
    (buffer \<noteq> [] \<longrightarrow> udp_last_ip u' = ip \<and>
       pp_buffer (udp_parser u') = snd (spec_run (env_mavlink env) buffer (carried ip u)))"
proof (cases "buffer = []")
  case True
  then show ?thesis
    using assms(1,2)
    by (simp add: udp_receive_packet_def datagram_frames_def errors_of_def packets_of_def gains_queues)
next
  case False
  let ?ml = "env_mavlink env"
  define u0 where "u0 = (if ip \<noteq> udp_last_ip u
      then u\<lparr>udp_parser := parser_clear (udp_parser u), udp_last_ip := ip\<rparr> else u)"
  have u0: "udp_inv env F (u0, w)" "parser_inv ?ml (udp_parser u0)" "pp_buffer (udp_parser u0) = carried ip u"
      "udp_known (u0, w) = udp_known (u, w)" "sender_queue ip (u0, w) = sender_queue ip (u, w)"
      "udp_factory u0 = udp_factory u" "udp_last_ip u0 = ip" "udp_connections u0 = udp_connections u"
    using assms(1,2) parser_inv_initial
    by (simp_all add: u0_def udp_inv_def udp_known_def sender_queue_def carried_def Let_def
        cong: option.case_cong)
  have frames: "udp.frames env buffer (u0, w) = datagram_frames ?ml buffer ip u"
    by (simp add: udp.frames_def datagram_frames_def u0(3))
  obtain y where y: "udp_bytes env clk ip 0 buffer u0 w = (Inr (), y)" "udp_inv env F y"
      "udp_step env F ip (packets_of ?ml (datagram_frames ?ml buffer ip u)) (u0, w) y" "parser_inv ?ml (udp_parser (fst y))"
      "pp_buffer (udp_parser (fst y)) = snd (spec_run ?ml buffer (carried ip u))"
      "w_cerr (snd y) = w_cerr w @ errors_of ?ml (datagram_frames ?ml buffer ip u)"
      "udp_known y = (if packets_of ?ml (datagram_frames ?ml buffer ip u) = []
         then udp_known (u0, w) else insert ip (udp_known (u0, w)))"
    using udp.loop_ok [OF u0(1), of clk buffer ip 0, unfolded frames] assms(3,4) u0(2,3)
    by (auto simp: routable_def)
  have "udp_receive_packet env clk buffer ip u w = (Inr (), y)"
    using y(1) False by (simp add: udp_receive_packet_def u0_def Let_def)
  then show ?thesis
    using y(2-7) u0 by (cases y) (simp add: udp_step_def)
qed

text \<open>The packets \<open>udp_bytes\<close> hands on, in the order in which it completes them.\<close>

fun udp_handled ::
  "environment \<Rightarrow> (nat \<Rightarrow> readings) \<Rightarrow> IPAddress \<Rightarrow> nat \<Rightarrow> u8 list \<Rightarrow> UDPInterface \<Rightarrow> world \<Rightarrow> Packet list" where
  "udp_handled env clk ip i [] u w = []"
| "udp_handled env clk ip i (b # bs) u w =
     (case parse_byte (env_mavlink env) b (udp_parser u) of
        Inl e \<Rightarrow> []
      | Inr (packet, ids, p') \<Rightarrow>
          (let u' = u\<lparr>udp_parser := p'\<rparr>; w' = w\<lparr>w_cerr := w_cerr w @ ids\<rparr> in
           case packet of
             None \<Rightarrow> udp_handled env clk ip i bs u' w'
           | Some p \<Rightarrow>
               p # (case udp_handle env (clk i) ip p u' w' of
                      (Inl e, u'', w'') \<Rightarrow> []
                    | (Inr _, u'', w'') \<Rightarrow> udp_handled env clk ip (Suc i) bs u'' w'')))"

definition datagram_handled ::
  "environment \<Rightarrow> (nat \<Rightarrow> readings) \<Rightarrow> u8 list \<Rightarrow> IPAddress \<Rightarrow> UDPInterface \<Rightarrow> world \<Rightarrow> Packet list" where
  "datagram_handled env clk buffer ip u w =
     (let u' = (if ip \<noteq> udp_last_ip u
                then u\<lparr>udp_parser := parser_clear (udp_parser u), udp_last_ip := ip\<rparr> else u)
      in udp_handled env clk ip 0 buffer u' w)"

lemma udp_handled_ok:
  assumes "udp_inv env F (u, w)" "parser_inv (env_mavlink env) (udp_parser u)" "\<forall>i. readings_ok (clk i)"
    "routable (env_mavlink env) (udp.frames env bs (u, w))"
  shows "udp_handled env clk ip i bs u w = packets_of (env_mavlink env) (udp.frames env bs (u, w))"
  using assms(1,2,4)
proof (induction bs arbitrary: u w i)
  case Nil
  then show ?case by (simp add: udp.frames_def packets_of_def)
next
  case (Cons b bs)
  let ?ml = "env_mavlink env"
  obtain x ids p where xp: "parse_byte ?ml b (udp_parser u) = Inr (x, ids, p)" "parser_inv ?ml p"
      "\<forall>t :: UDPInterface \<times> world. udp_parser (fst t) = p \<longrightarrow>
        packets_of ?ml (udp.frames env (b # bs) (u, w)) =
          (case x of None \<Rightarrow> [] | Some y \<Rightarrow> [y]) @ packets_of ?ml (udp.frames env bs t)"
    using udp.byte_step [of env "(u, w)" b bs] Cons.prems(2) unfolding fst_conv by blast
  let ?u = "u\<lparr>udp_parser := p\<rparr>" and ?w = "w\<lparr>w_cerr := w_cerr w @ ids\<rparr>"
  have inv: "udp_inv env F (?u, ?w)"
    using udp.inv_feed [OF Cons.prems(1), of p ids] by (simp add: udp_feed_def)
  show ?case
  proof (cases x)
    case None
    then have "packets_of ?ml (udp.frames env (b # bs) (u, w)) = packets_of ?ml (udp.frames env bs (?u, ?w))"
      using xp(3) by simp
    then show ?thesis
      using Cons.IH [OF inv] xp(1,2) Cons.prems(3) None by (simp add: routable_def)
  next
    case (Some k)
    have split: "packets_of ?ml (udp.frames env (b # bs) (u, w)) = k # packets_of ?ml (udp.frames env bs t)"
      if "udp_parser (fst t) = p" for t :: "UDPInterface \<times> world"
      using xp(3) [rule_format, OF that] Some by simp
    have "k \<in> set (packets_of ?ml (udp.frames env (b # bs) (u, w)))" using split [of "(?u, ?w)"] by simp
    then have "deliverable ?ml k"
      using packets_of_wf [OF spec_run_complete, of k ?ml "b # bs"] Cons.prems(3)
      by (auto simp: deliverable_def routable_def udp.frames_def)
    then obtain u2 w2 where y: "udp_handle env (clk i) ip k ?u ?w = (Inr (), u2, w2)" "udp_inv env F (u2, w2)"
        "udp_parser u2 = p"
      using udp_take_ok [OF inv, of k "clk i" ip] assms(3) by (auto simp: udp_take_def)
    have "udp_handled env clk ip (Suc i) bs u2 w2 = packets_of ?ml (udp.frames env bs (u2, w2))"
      using Cons.IH [OF y(2)] xp(2) y(3) Cons.prems(3) split [of "(u2, w2)"] by (simp add: routable_def)
    then show ?thesis using xp(1) Some y(1) split [of "(u2, w2)"] y(3) by simp
  qed
qed

lemma datagram_handled_ok:
  assumes "udp_inv env F (u, w)" "parser_inv (env_mavlink env) (udp_parser u)" "\<forall>i. readings_ok (clk i)"
    "routable (env_mavlink env) (datagram_frames (env_mavlink env) buffer ip u)"
  shows "datagram_handled env clk buffer ip u w =
    packets_of (env_mavlink env) (datagram_frames (env_mavlink env) buffer ip u)"
proof -
  define u0 where "u0 = (if ip \<noteq> udp_last_ip u
      then u\<lparr>udp_parser := parser_clear (udp_parser u), udp_last_ip := ip\<rparr> else u)"
  have u0: "udp_inv env F (u0, w)" "parser_inv (env_mavlink env) (udp_parser u0)"
      "pp_buffer (udp_parser u0) = carried ip u"
    using assms(1,2) parser_inv_initial by (simp_all add: u0_def udp_inv_def carried_def Let_def)
  have "udp.frames env buffer (u0, w) = datagram_frames (env_mavlink env) buffer ip u"
    by (simp add: udp.frames_def datagram_frames_def u0(3))
  then show ?thesis
    using udp_handled_ok [OF u0(1,2) assms(3), of buffer ip 0] assms(4)
    by (simp add: datagram_handled_def u0_def [symmetric] Let_def)
qed

text \<open>A history of datagrams, each with the clock readings made while it is handled.\<close>

fun udp_receive_all ::
  "environment \<Rightarrow> ((nat \<Rightarrow> readings) \<times> u8 list \<times> IPAddress) list \<Rightarrow> UDPInterface \<Rightarrow> world \<Rightarrow>
   (cpp_error + unit) \<times> UDPInterface \<times> world" where
  "udp_receive_all env [] u w = (Inr (), u, w)"
| "udp_receive_all env ((clk, buffer, ip) # ds) u w =
     (case udp_receive_packet env clk buffer ip u w of
        (Inl e, u', w') \<Rightarrow> (Inl e, u', w')
      | (Inr _, u', w') \<Rightarrow> udp_receive_all env ds u' w')"

text \<open>The packets the interface hands on over such a history, each with the address it came from.\<close>

fun history_handled ::
  "environment \<Rightarrow> ((nat \<Rightarrow> readings) \<times> u8 list \<times> IPAddress) list \<Rightarrow> UDPInterface \<Rightarrow> world \<Rightarrow>
   (IPAddress \<times> Packet) list" where
  "history_handled env [] u w = []"
| "history_handled env ((clk, buffer, ip) # ds) u w =
     map (Pair ip) (datagram_handled env clk buffer ip u w) @
     (case udp_receive_packet env clk buffer ip u w of
        (Inl e, u', w') \<Rightarrow> []
      | (Inr _, u', w') \<Rightarrow> history_handled env ds u' w')"

text \<open>
  The history cut into runs: the bytes that came from one sender with no datagram of another sender
  in between.
\<close>

fun runs :: "IPAddress \<Rightarrow> u8 list \<Rightarrow> (u8 list \<times> IPAddress) list \<Rightarrow> (IPAddress \<times> u8 list) list" where
  "runs sender run [] = [(sender, run)]"
| "runs sender run ((buffer, ip) # ds) =
     (if buffer = [] then runs sender run ds
      else if ip = sender then runs sender (run @ buffer) ds
      else (sender, run) # runs ip buffer ds)"

lemma runs_extend: "\<exists>more. (sender, run @ more) \<in> set (runs sender run ds)"
proof (induction sender run ds rule: runs.induct)
  case (2 sender run buffer ip ds)
  then show ?case
    by (cases "buffer = []"; cases "ip = sender") (auto intro: exI [of _ "[]"])
qed (auto intro: exI [of _ "[]"])

lemma runs_nonempty: "runs sender run ds \<noteq> []"
  by (induction sender run ds rule: runs.induct) auto

lemma spec_run_append:
  "spec_run ml (xs @ ys) d =
     (fst (spec_run ml xs d) @ fst (spec_run ml ys (snd (spec_run ml xs d))),
      snd (spec_run ml ys (snd (spec_run ml xs d))))"
  by (induction xs arbitrary: d) (simp_all add: Let_def split: option.split)

lemma scan_append:
  "scan ml (xs @ ys) =
     (fst (scan ml xs) @ fst (spec_run ml ys (snd (scan ml xs))), snd (spec_run ml ys (snd (scan ml xs))))"
  using spec_run_scan [of ml "[]" "xs @ ys"] spec_run_scan [of ml "[]" xs]
  by (simp add: spec_run_append pending_def)

lemma frames_append:
  "packets_of ml (fs @ gs) = packets_of ml fs @ packets_of ml gs"
  "errors_of ml (fs @ gs) = errors_of ml fs @ errors_of ml gs"
  by (simp_all add: packets_of_def errors_of_def)

definition run_packets :: "mavlink_lib \<Rightarrow> u8 list \<Rightarrow> Packet list" where
  "run_packets ml run = packets_of ml (fst (scan ml run))"

definition run_errors :: "mavlink_lib \<Rightarrow> u8 list \<Rightarrow> u64 list" where
  "run_errors ml run = errors_of ml (fst (scan ml run))"

definition heard :: "mavlink_lib \<Rightarrow> (IPAddress \<times> u8 list) list \<Rightarrow> IPAddress set" where
  "heard ml rs = {ip. \<exists>run. (ip, run) \<in> set rs \<and> run_packets ml run \<noteq> []}"

lemma run_packets_wf: "p \<in> set (run_packets ml run) \<Longrightarrow> packet_wf ml p"
  using packets_of_wf [OF spec_run_complete, of p ml run "[]"] spec_run_scan [of ml "[]" run]
  by (simp add: run_packets_def pending_def)

lemma heard_Cons: "heard ml ((ip, run) # rs) = (if run_packets ml run \<noteq> [] then {ip} else {}) \<union> heard ml rs"
  by (auto simp: heard_def)

lemma udp_history_ok:
  fixes env defines "ml \<equiv> env_mavlink env"
  assumes "udp_inv env F (u, w)" "parser_inv ml (udp_parser u)"
    "pp_buffer (udp_parser u) = snd (scan ml run)" "udp_last_ip u = sender"
    "w_cerr w = ids @ run_errors ml run"
    "udp_known (u, w) = K \<union> heard ml [(sender, run)]"
    "\<forall>(clk, d) \<in> set ds. \<forall>i. readings_ok (clk i)"
    "\<forall>(ip, r) \<in> set (runs sender run (map snd ds)). routable ml (fst (scan ml r))"
  shows "\<exists>u' w'. udp_receive_all env ds u w = (Inr (), u', w') \<and> udp_inv env F (u', w') \<and>
    (let rs = runs sender run (map snd ds) in
     udp_last_ip u' = fst (last rs) \<and> pp_buffer (udp_parser u') = snd (scan ml (snd (last rs))) \<and>
     w_cerr w' = ids @ concat (map (\<lambda>(ip, r). run_errors ml r) rs) \<and>
     map (Pair sender) (run_packets ml run) @ history_handled env ds u w =
       concat (map (\<lambda>(ip, r). map (Pair ip) (run_packets ml r)) rs) \<and>
     udp_known (u', w') = K \<union> heard ml rs)"
  using assms(2-)
proof (induction ds arbitrary: u w sender run ids K)
  case Nil
  then show ?case by simp
next
  case (Cons d ds)
  obtain clk buffer ip where d: "d = (clk, buffer, ip)" by (cases d)
  have clk: "\<forall>i. readings_ok (clk i)" using Cons.prems(7) d by auto
  have ds: "\<forall>(clk, d) \<in> set ds. \<forall>i. readings_ok (clk i)" using Cons.prems(7) by auto
  show ?case
  proof (cases "buffer = []")
    case True
    then have "udp_receive_packet env clk buffer ip u w = (Inr (), u, w)" "datagram_handled env clk buffer ip u w = []"
      by (simp_all add: udp_receive_packet_def datagram_handled_def Let_def)
    then show ?thesis
      using Cons.IH [OF Cons.prems(1-6) ds] Cons.prems(8) True d by simp
  next
    case False
    define start where "start = (if ip = sender then run else [])"
    have carried: "carried ip u = snd (scan ml start)"
      using Cons.prems(3,4) by (simp add: carried_def start_def)
    let ?fs = "datagram_frames ml buffer ip u"
    have fs: "fst (scan ml (start @ buffer)) = fst (scan ml start) @ ?fs"
        "snd (spec_run ml buffer (carried ip u)) = snd (scan ml (start @ buffer))"
      by (simp_all add: scan_append datagram_frames_def carried)
    define rs where "rs = runs ip (start @ buffer) (map snd ds)"
    have split: "runs sender run (map snd (d # ds)) = (if ip = sender then rs else (sender, run) # rs)"
      using False by (simp add: d rs_def start_def)
    then have good: "\<forall>(ip, r) \<in> set rs. routable ml (fst (scan ml r))"
      using Cons.prems(8) by (auto split: if_splits)
    obtain more where "(ip, (start @ buffer) @ more) \<in> set rs"
      using runs_extend [of ip "start @ buffer" "map snd ds"] unfolding rs_def by blast
    then have route: "routable ml ?fs"
      using good scan_append [of ml "start @ buffer" more] fs(1)
      by (fastforce simp: routable_def frames_append)
    obtain u' w' where u': "udp_receive_packet env clk buffer ip u w = (Inr (), u', w')"
        "udp_inv env F (u', w')" "parser_inv ml (udp_parser u')"
        "w_cerr w' = w_cerr w @ errors_of ml ?fs"
        "udp_known (u', w') = (if packets_of ml ?fs = [] then udp_known (u, w) else insert ip (udp_known (u, w)))"
        "udp_last_ip u' = ip" "pp_buffer (udp_parser u') = snd (scan ml (start @ buffer))"
      using udp_receive_ok [OF Cons.prems(1) Cons.prems(2) [unfolded ml_def] clk, folded ml_def,
          of buffer ip, unfolded Let_def fs(2), OF route] False by blast
    define ids' where "ids' = (if ip = sender then ids else ids @ run_errors ml run)"
    define K' where "K' = (if ip = sender then K else K \<union> heard ml [(sender, run)])"
    have grow: "run_packets ml (start @ buffer) = run_packets ml start @ packets_of ml ?fs"
        "run_errors ml (start @ buffer) = run_errors ml start @ errors_of ml ?fs"
      using fs(1) by (simp_all add: run_packets_def run_errors_def frames_append)
    have none: "run_packets ml [] = []" "run_errors ml [] = []"
      by (simp_all add: run_packets_def run_errors_def packets_of_def errors_of_def)
    have "w_cerr w' = ids' @ run_errors ml (start @ buffer)"
      using u'(4) Cons.prems(5) grow none by (auto simp: ids'_def start_def)
    moreover have "udp_known (u', w') = K' \<union> heard ml [(ip, start @ buffer)]"
      using u'(5) Cons.prems(6) grow none
      by (cases "ip = sender") (auto simp: K'_def start_def heard_def)
    ultimately obtain u'' w'' where all: "udp_receive_all env ds u' w' = (Inr (), u'', w'')" "udp_inv env F (u'', w'')"
        "udp_last_ip u'' = fst (last rs)" "pp_buffer (udp_parser u'') = snd (scan ml (snd (last rs)))"
        "w_cerr w'' = ids' @ concat (map (\<lambda>(ip, r). run_errors ml r) rs)"
        "map (Pair ip) (run_packets ml (start @ buffer)) @ history_handled env ds u' w' =
           concat (map (\<lambda>(ip, r). map (Pair ip) (run_packets ml r)) rs)"
        "udp_known (u'', w'') = K' \<union> heard ml rs"
      using Cons.IH [OF u'(2,3,7,6) _ _ ds] good unfolding rs_def Let_def by blast
    have "datagram_handled env clk buffer ip u w = packets_of ml ?fs"
      using datagram_handled_ok [OF Cons.prems(1) Cons.prems(2) [unfolded ml_def] clk] route by (simp add: ml_def)
    then have "map (Pair sender) (run_packets ml run) @ history_handled env (d # ds) u w =
        concat (map (\<lambda>(ip, r). map (Pair ip) (run_packets ml r)) (runs sender run (map snd (d # ds))))"
      using all(6) u'(1) grow(1) none(1) unfolding split by (cases "ip = sender") (simp_all add: d start_def)
    moreover have "udp_last_ip u'' = fst (last (runs sender run (map snd (d # ds))))"
        "pp_buffer (udp_parser u'') = snd (scan ml (snd (last (runs sender run (map snd (d # ds))))))"
        "w_cerr w'' = ids @ concat (map (\<lambda>(ip, r). run_errors ml r) (runs sender run (map snd (d # ds))))"
        "udp_known (u'', w'') = K \<union> heard ml (runs sender run (map snd (d # ds)))"
      using all(3-5,7) runs_nonempty [of ip "start @ buffer" "map snd ds"] unfolding split
      by (auto simp: rs_def ids'_def K'_def heard_Cons) (auto simp: heard_def)
    moreover have "udp_receive_all env (d # ds) u w = (Inr (), u'', w'')" using u'(1) all(1) by (simp add: d)
    ultimately show ?thesis using all(2) unfolding Let_def by blast
  qed
qed


section \<open>Sending\<close>

text \<open>What waits on the connections of a UDP interface, in the order of the map.\<close>

definition head_of :: "network \<Rightarrow> nat \<Rightarrow> Packet option" where
  "head_of n c =
     (case net_conns n c of
        None \<Rightarrow> None
      | Some conn \<Rightarrow> (case pq_queue (conn_queue conn) of [] \<Rightarrow> None | q \<Rightarrow> Some (qp_packet (pq_top q))))"

definition popped :: "Connection \<Rightarrow> Connection" where
  "popped conn = snd (next_packet conn)"

definition heads :: "network \<Rightarrow> (IPAddress \<times> nat) list \<Rightarrow> (u8 list \<times> IPAddress) list" where
  "heads n conns =
     [(pkt_data (the (head_of n c)), ip). (ip, c) \<leftarrow> conns, head_of n c \<noteq> None]"

lemma pq_best_in: "pq_best x xs \<in> set (x # xs)"
proof (induction xs arbitrary: x)
  case (Cons y ys)
  then show ?case using Cons [of "if qp_less x y then y else x"] by (auto split: if_splits)
qed simp

lemma pq_top_in: "q \<noteq> [] \<Longrightarrow> pq_top q \<in> set q"
  using pq_best_in [of "hd q" "tl q"] by (simp add: pq_top_def)

lemma next_packet_head:
  assumes "net_conns n c = Some conn" "pq_running (conn_queue conn)"
  shows "next_packet conn = (head_of n c, popped conn)"
    "length (pq_queue (conn_queue conn)) =
       length (pq_queue (conn_queue (popped conn))) + (if head_of n c = None then 0 else 1)"
    "conn_name (popped conn) = conn_name conn" "conn_mirror (popped conn) = conn_mirror conn"
    "conn_filter (popped conn) = conn_filter conn" "conn_pool (popped conn) = conn_pool conn"
    "pq_running (conn_queue (popped conn))"
    "pq_callback (conn_queue (popped conn)) = pq_callback (conn_queue conn)"
proof -
  let ?q = "pq_queue (conn_queue conn)"
  have len: "?q \<noteq> [] \<Longrightarrow> length ?q = Suc (length (pq_pop ?q))"
    using pq_top_in [of ?q] length_pos_if_in_set [of "pq_top ?q" ?q] by (simp add: pq_pop_def length_remove1)
  show "next_packet conn = (head_of n c, popped conn)"
    using assms by (cases ?q) (auto simp: next_packet_def popped_def head_of_def pq_get_packet_def Let_def)
  show "length ?q = length (pq_queue (conn_queue (popped conn))) + (if head_of n c = None then 0 else 1)"
    using assms len by (cases ?q) (auto simp: next_packet_def popped_def head_of_def pq_get_packet_def Let_def)
qed (use assms in \<open>auto simp: next_packet_def popped_def pq_get_packet_def Let_def\<close>)

text \<open>
  The semaphore lags behind by one between the first wait and the first packet sent.
\<close>

definition lagging :: "nat \<Rightarrow> nat \<Rightarrow> network \<Rightarrow> bool" where
  "lagging f d n \<longleftrightarrow>
     accounted (n\<lparr>net_sems := (net_sems n)(f := net_sems n f + of_nat d)\<rparr>)"

text \<open>The network after a packet was taken off each queue of the interface.\<close>

definition take_heads :: "(IPAddress \<times> nat) list \<Rightarrow> network \<Rightarrow> network" where
  "take_heads conns n =
     n\<lparr>net_conns := (\<lambda>c. if c \<in> snd ` set conns then map_option popped (net_conns n c) else net_conns n c)\<rparr>"


lemma popped_none:
  "net_conns n c = Some conn \<Longrightarrow> pq_running (conn_queue conn) \<Longrightarrow> head_of n c = None \<Longrightarrow> popped conn = conn"
  by (auto simp: popped_def next_packet_def pq_get_packet_def head_of_def Let_def split: list.splits)

lemma take_heads_fields [simp]:
  "net_owner (take_heads conns n) = net_owner n" "net_guards (take_heads conns n) = net_guards n"
  "net_log (take_heads conns n) = net_log n"
  by (simp_all add: take_heads_def)

lemma counts_without_sems [simp]:
  "owned (n\<lparr>net_sems := s\<rparr>) f = owned n f" "counted (n\<lparr>net_sems := s\<rparr>) f = counted n f"
  by (simp_all add: owned_def counted_def queued_def)

lemma lagging_pop:
  assumes "lagging f d n" "net_owner n c = Some f" "net_conns n c = Some conn" "pq_running (conn_queue conn)"
    "head_of n c \<noteq> None" "v + of_nat d' + 1 = net_sems n f + of_nat d"
  defines "n' \<equiv> n\<lparr>net_conns := (net_conns n)(c \<mapsto> popped conn), net_sems := (net_sems n)(f := v)\<rparr>"
  shows "lagging f d' n'" "counted n f = Suc (counted n' f)"
proof -
  note nx = next_packet_head [OF assms(3,4)]
  have fin: "finite (owned n g)" and own: "owned n' g = owned n g"
    and sem: "net_sems n g + (if g = f then of_nat d else 0) = of_nat (counted n g)" for g
    using assms(1) by (auto simp: lagging_def accounted_def owned_def n'_def counted_def queued_def split: if_splits)
  have undo: "net_conns n = (net_conns n')(c \<mapsto> conn)" "net_conns n' c = Some (popped conn)"
      "net_owner n = net_owner n'"
    using assms(3) by (auto simp: n'_def fun_eq_iff)
  have "length (pq_queue (conn_queue conn)) = length (pq_queue (conn_queue (popped conn))) + 1"
    using nx(2) assms(5) by simp
  note cnt0 = counted_upd [OF _ undo(3,1,2) this]
  have cnt: "counted n g = counted n' g + (if c \<in> owned n g then 1 else 0)" for g
    using cnt0 [of g] fin [of g] own [of g] by simp
  have cf: "c \<in> owned n g \<longleftrightarrow> g = f" for g using assms(2) by (auto simp: owned_def)
  show "counted n f = Suc (counted n' f)" using cnt [of f] cf by simp
  have v: "v + of_nat d' = of_nat (counted n' f)"
    using sem [of f] assms(6) \<open>counted n f = Suc (counted n' f)\<close> by (simp add: algebra_simps)
  let ?m = "n'\<lparr>net_sems := (net_sems n')(f := net_sems n' f + of_nat d')\<rparr>"
  have "net_sems n' g = (if g = f then v else net_sems n g)" for g by (simp add: n'_def)
  then have "net_sems ?m g = of_nat (counted ?m g)" for g
    using v sem [of g] cnt [of g] cf [of g] by (cases "g = f") simp_all
  moreover have "finite (owned ?m g)" for g using fin [of g] by (simp add: owned_def n'_def)
  moreover have "\<exists>cn. net_conns ?m e = Some cn \<and> pq_callback (conn_queue cn)" if "net_owner ?m e = Some g" for e g
    using assms(1,3) nx(8) that by (auto simp: lagging_def accounted_def n'_def)
  ultimately show "lagging f d' n'" by (simp add: lagging_def accounted_def)
qed

lemma heads_Cons:
  "heads n ((ip, c) # conns) =
     (case head_of n c of None \<Rightarrow> heads n conns | Some p \<Rightarrow> (pkt_data p, ip) # heads n conns)"
  by (simp add: heads_def split: option.split)

lemma heads_Nil [simp]: "heads n [] = []"
  by (simp add: heads_def)

lemma head_of_cong: "net_conns m c = net_conns n c \<Longrightarrow> head_of m c = head_of n c"
  by (simp add: head_of_def)

lemma heads_cong: "(\<And>ip c. (ip, c) \<in> set conns \<Longrightarrow> net_conns m c = net_conns n c) \<Longrightarrow> heads m conns = heads n conns"
proof (induction conns)
  case (Cons x conns)
  obtain ip c where x: "x = (ip, c)" by (cases x)
  have "head_of m c = head_of n c" using Cons.prems [of ip c] by (intro head_of_cong) (simp add: x)
  moreover have "heads m conns = heads n conns" using Cons.prems by (intro Cons.IH) auto
  ultimately show ?case by (simp add: x heads_Cons cong: option.case_cong)
qed simp

lemma of_nat_positive: "0 < k \<Longrightarrow> k < 2 ^ 64 \<Longrightarrow> (0 :: u64) < of_nat k"
proof -
  assume k: "0 < k" "k < 2 ^ 64"
  then have "unat (of_nat k :: u64) = k" by (simp add: unsigned_of_nat take_bit_nat_eq_self)
  then show ?thesis using k(1) by (metis neq0_conv unsigned_0 word_gt_0)
qed

lemma udp_send_loop_ok:
  assumes "\<forall>d ip. socket_send d ip = Inr ()"
    and "distinct (map snd conns)"
    and "\<forall>(ip, c) \<in> set conns. net_owner n c = Some (cf_number cf) \<and>
           (\<exists>conn. net_conns n c = Some conn \<and> pq_running (conn_queue conn))"
    and "lagging (cf_number cf) (if not_first then 0 else 1) n"
    and "counted n (cf_number cf) < 2 ^ 64"
  shows "\<exists>n'. udp_send_loop socket_send cf conns not_first n = (Inr (heads n conns), n') \<and>
    n' = (take_heads conns n)\<lparr>net_sems := net_sems n'\<rparr> \<and>
    lagging (cf_number cf) (if heads n conns = [] \<and> \<not> not_first then 1 else 0) n'"
  using assms(2-)
proof (induction conns arbitrary: not_first n)
  case Nil
  then show ?case by (cases not_first) (simp_all add: take_heads_def)
next
  case (Cons x conns)
  let ?f = "cf_number cf"
  obtain ip c where x: "x = (ip, c)" by (cases x)
  obtain conn where conn: "net_conns n c = Some conn" "pq_running (conn_queue conn)" "net_owner n c = Some ?f"
    using Cons.prems(2) by (auto simp: x)
  note nx = next_packet_head [OF conn(1,2)]
  let ?n1 = "n\<lparr>net_conns := (net_conns n)(c \<mapsto> popped conn)\<rparr>"
  have apart: "(ip', c') \<in> set conns \<Longrightarrow> c' \<noteq> c" for ip' c'
    using Cons.prems(1) by (force simp: x)
  have dis: "distinct (map snd conns)" using Cons.prems(1) by simp
  have tail: "\<forall>(ip, c) \<in> set conns. net_owner m c = Some ?f \<and>
      (\<exists>conn. net_conns m c = Some conn \<and> pq_running (conn_queue conn))"
      "heads m conns = heads n conns"
    if "net_conns m = (net_conns n)(c \<mapsto> popped conn)" "net_owner m = net_owner n" for m
  proof -
    show "heads m conns = heads n conns"
      using apart that by (intro heads_cong) auto
    show "\<forall>(ip, c) \<in> set conns. net_owner m c = Some ?f \<and>
      (\<exists>conn. net_conns m c = Some conn \<and> pq_running (conn_queue conn))"
      using Cons.prems(2) apart that by fastforce
  qed
  show ?case
  proof (cases "head_of n c")
    case None
    have same: "?n1 = n"
      using popped_none [OF conn(1,2) None] conn(1) by (simp add: fun_upd_idem)
    have th: "take_heads (x # conns) n = take_heads conns n"
      using popped_none [OF conn(1,2) None] conn(1) by (auto simp: take_heads_def x fun_eq_iff)
    obtain n' where "udp_send_loop socket_send cf conns not_first n = (Inr (heads n conns), n')"
        "n' = (take_heads conns n)\<lparr>net_sems := net_sems n'\<rparr>"
        "lagging ?f (if heads n conns = [] \<and> \<not> not_first then 1 else 0) n'"
      using Cons.IH [OF dis _ Cons.prems(3,4)] Cons.prems(2) by auto
    then show ?thesis
      using conn(1) nx(1) same None th by (auto simp: x heads_Cons)
  next
    case (Some p)
    define v where "v = net_sems n ?f - (if not_first then 1 else 0)"
    let ?n2 = "n\<lparr>net_conns := (net_conns n)(c \<mapsto> popped conn), net_sems := (net_sems n)(?f := v)\<rparr>"
    have "v + of_nat 0 + 1 = net_sems n ?f + of_nat (if not_first then 0 else 1)" by (simp add: v_def)
    note pop = lagging_pop [OF Cons.prems(3) conn(3,1,2) _ this]
    have lag: "lagging ?f 0 ?n2" "counted n ?f = Suc (counted ?n2 ?f)" using pop Some by simp_all
    have wait: "(if not_first then snd (wait_for_packet cf ?n1) else ?n1) = ?n2"
    proof (cases not_first)
      case True
      have "net_sems n ?f = of_nat (counted n ?f)"
        using Cons.prems(3) True by (simp add: lagging_def accounted_def counted_def owned_def queued_def)
      then have "net_sems n ?f > 0"
        using lag(2) Cons.prems(4) of_nat_positive [of "counted n ?f"] by simp
      then show ?thesis using True by (simp add: wait_for_packet_def sem_wait_for_def v_def Let_def)
    next
      case False
      then show ?thesis by (simp add: v_def)
    qed
    obtain n' where n': "udp_send_loop socket_send cf conns True ?n2 = (Inr (heads n conns), n')"
        "n' = (take_heads conns ?n2)\<lparr>net_sems := net_sems n'\<rparr>" "lagging ?f 0 n'"
      using Cons.IH [of ?n2 True] dis tail [of ?n2] lag Cons.prems(4) by auto
    have "c \<notin> snd ` set conns" using apart by force
    then have "net_conns (take_heads conns ?n2) d = net_conns (take_heads (x # conns) n) d" for d
      using conn(1) by (cases "d = c") (simp_all add: take_heads_def x)
    then have "net_conns (take_heads conns ?n2) = net_conns (take_heads (x # conns) n)" by (rule ext)
    then have th: "(take_heads conns ?n2)\<lparr>net_sems := s\<rparr> = (take_heads (x # conns) n)\<lparr>net_sems := s\<rparr>" for s
      by (intro network.equality) simp_all
    have "udp_send_loop socket_send cf (x # conns) not_first n = (Inr (heads n (x # conns)), n')"
      using n'(1) assms(1) wait nx(1) conn(1) Some
      by (simp add: x heads_Cons Let_def cong: if_cong)
    moreover have "heads n (x # conns) \<noteq> []" by (simp add: x heads_Cons Some)
    ultimately show ?thesis using n'(2,3) unfolding th by auto
  qed
qed


lemma lagging_0 [simp]: "lagging f 0 n = accounted n"
  by (simp add: lagging_def)

lemma accounted_sems: "accounted n \<Longrightarrow> net_sems n f = of_nat (counted n f)"
  by (simp add: accounted_def)

text \<open>The invariant after a call of \<open>send_packet\<close>.\<close>

lemma popped_inv:
  assumes "pq_running (conn_queue conn)"
  shows "conn_inv F (popped conn) = conn_inv F conn" "keeps conn (popped conn)"
  using assms by (auto simp: conn_inv_def keeps_def popped_def next_packet_def pq_get_packet_def Let_def)

lemma udp_inv_take_heads:
  assumes "udp_inv env F (u, w)" "n' = (take_heads (udp_connections u) (w_net w))\<lparr>net_sems := s\<rparr>" "accounted n'"
  shows "udp_inv env F (u, w\<lparr>w_net := n'\<rparr>)"
proof -
  let ?n = "w_net w" and ?conns = "udp_connections u"
  have inv: "world_inv env F w" using assms(1) by (simp add: udp_inv_def Let_def)
  have each: "\<exists>conn. net_conns ?n c = Some conn \<and> conn_name conn = show_IPAddress ip \<and>
      conn_mirror conn = cf_mirror (udp_factory u) \<and> pq_running (conn_queue conn) \<and> c \<in> set (w_pool w)"
    if "(ip, c) \<in> set ?conns" for ip c
    using assms(1) that by (auto simp: udp_inv_def Let_def)
  have conns: "net_conns n' c = (if c \<in> snd ` set ?conns then map_option popped (net_conns ?n c) else net_conns ?n c)" for c
    by (simp add: assms(2) take_heads_def)
  have pop: "conn_inv F conn' \<and> c < w_next w" if "net_conns n' c = Some conn'" for c conn'
  proof (cases "c \<in> snd ` set ?conns")
    case True
    then obtain ip where "(ip, c) \<in> set ?conns" by auto
    then obtain conn where conn: "net_conns ?n c = Some conn" "pq_running (conn_queue conn)" using each by blast
    then have "conn_inv F conn \<and> c < w_next w" using inv by (simp add: world_inv_def)
    then show ?thesis using that conn True conns [of c] popped_inv [OF conn(2)] by simp
  next
    case False
    then show ?thesis using that conns [of c] inv by (simp add: world_inv_def)
  qed
  have "net_guards n' = net_guards ?n" by (simp add: assms(2))
  then have "world_inv env F (w\<lparr>w_net := n'\<rparr>)"
    using inv assms(3) pop by (simp add: world_inv_def)
  moreover have "owned n' f = owned ?n f" for f by (simp add: assms(2) owned_def)
  moreover have "\<forall>(ip, c) \<in> set ?conns. \<exists>conn. net_conns n' c = Some conn \<and> conn_name conn = show_IPAddress ip \<and>
      conn_mirror conn = cf_mirror (udp_factory u) \<and> pq_running (conn_queue conn) \<and> c \<in> set (w_pool w)"
  proof (intro ballI case_prodI2)
    fix x ip c
    assume "x \<in> set ?conns" "x = (ip, c)"
    then have ic: "(ip, c) \<in> set ?conns" by simp
    then obtain conn where conn: "net_conns ?n c = Some conn" "conn_name conn = show_IPAddress ip"
        "conn_mirror conn = cf_mirror (udp_factory u)" "pq_running (conn_queue conn)" "c \<in> set (w_pool w)"
      using each by blast
    moreover have "c \<in> snd ` set ?conns" using ic by force
    ultimately show "\<exists>conn. net_conns n' c = Some conn \<and> conn_name conn = show_IPAddress ip \<and>
      conn_mirror conn = cf_mirror (udp_factory u) \<and> pq_running (conn_queue conn) \<and> c \<in> set (w_pool w)"
      using conns [of c] popped_inv(2) [OF conn(4)] by (simp add: keeps_def)
  qed
  ultimately show ?thesis using assms(1) by (simp add: udp_inv_def Let_def)
qed

lemma udp_send_ok:
  assumes "udp_inv env F (u, w)" "\<forall>d ip. socket_send d ip = Inr ()"
    "counted (w_net w) (cf_number (udp_factory u)) < 2 ^ 64"
  shows "\<exists>n'. udp_send_packet socket_send u w = (Inr (heads (w_net w) (udp_connections u)), w\<lparr>w_net := n'\<rparr>) \<and>
    n' = (take_heads (udp_connections u) (w_net w))\<lparr>net_sems := net_sems n'\<rparr> \<and>
    udp_inv env F (u, w\<lparr>w_net := n'\<rparr>)"
proof -
  let ?n = "w_net w" and ?conns = "udp_connections u" and ?cf = "udp_factory u"
  let ?f = "cf_number ?cf"
  have acc: "accounted ?n" and dis: "distinct (map snd ?conns)" and own: "owned ?n ?f = snd ` set ?conns"
    using assms(1) by (auto simp: udp_inv_def world_inv_def Let_def)
  have each: "\<exists>conn. net_conns ?n c = Some conn \<and> pq_running (conn_queue conn)" if "(ip, c) \<in> set ?conns" for ip c
    using assms(1) that by (auto simp: udp_inv_def Let_def)
  have idle: "head_of ?n c = None \<longleftrightarrow> queued ?n c = 0" if "(ip, c) \<in> set ?conns" for ip c
    using each [OF that] by (auto simp: head_of_def queued_def split: list.splits)
  have "heads ?n ?conns = [] \<longleftrightarrow> (\<forall>(ip, c) \<in> set ?conns. queued ?n c = 0)"
    using idle by (fastforce simp: heads_def)
  also have "\<dots> \<longleftrightarrow> counted ?n ?f = 0"
    using acc by (force simp: counted_def own accounted_def sum_eq_0_iff)
  finally have empty: "heads ?n ?conns = [] \<longleftrightarrow> counted ?n ?f = 0" .
  show ?thesis
  proof (cases "counted ?n ?f = 0")
    case True
    then have "net_sems ?n ?f = 0" using accounted_sems [OF acc] by simp
    then have wait: "wait_for_packet ?cf ?n = (False, ?n)"
      by (simp add: wait_for_packet_def sem_wait_for_def fun_upd_idem)
    have "popped conn = conn" if c: "c \<in> snd ` set ?conns" "net_conns ?n c = Some conn" for c conn
    proof -
      obtain ip where ip: "(ip, c) \<in> set ?conns" using c(1) by auto
      then have "head_of ?n c = None"
        using True acc idle [OF ip] by (auto simp: counted_def own accounted_def)
      then show ?thesis using popped_none c(2) each [OF ip] by auto
    qed
    then have same: "map_option popped (net_conns ?n c) = net_conns ?n c" if "c \<in> snd ` set ?conns" for c
      using that by (cases "net_conns ?n c") auto
    have "net_conns (take_heads ?conns ?n) = net_conns ?n"
      using same by (auto simp: take_heads_def fun_eq_iff)
    then have "(take_heads ?conns ?n)\<lparr>net_sems := net_sems ?n\<rparr> = ?n"
      by (intro network.equality) simp_all
    moreover have "udp_send_packet socket_send u w = (Inr (heads ?n ?conns), w\<lparr>w_net := ?n\<rparr>)"
      using wait empty True by (simp add: udp_send_packet_def)
    ultimately show ?thesis using assms(1) by (intro exI [of _ ?n]) simp
  next
    case False
    have "0 < net_sems ?n ?f" using of_nat_positive [of "counted ?n ?f"] assms(3) False accounted_sems [OF acc] by simp
    then have wait: "wait_for_packet ?cf ?n = (True, ?n\<lparr>net_sems := (net_sems ?n)(?f := net_sems ?n ?f - 1)\<rparr>)"
      by (simp add: wait_for_packet_def sem_wait_for_def)
    let ?n1 = "?n\<lparr>net_sems := (net_sems ?n)(?f := net_sems ?n ?f - 1)\<rparr>"
    have lag: "lagging ?f 1 ?n1" using acc by (simp add: lagging_def)
    have pre: "\<forall>(ip, c) \<in> set ?conns. net_owner ?n1 c = Some ?f \<and>
        (\<exists>conn. net_conns ?n1 c = Some conn \<and> pq_running (conn_queue conn))"
    proof (intro ballI case_prodI2)
      fix x ip c
      assume "x \<in> set ?conns" "x = (ip, c)"
      then have ic: "(ip, c) \<in> set ?conns" by simp
      then have "c \<in> owned ?n ?f" unfolding own by force
      then show "net_owner ?n1 c = Some ?f \<and> (\<exists>conn. net_conns ?n1 c = Some conn \<and> pq_running (conn_queue conn))"
        using each [OF ic] by (simp add: owned_def)
    qed
    have hds: "heads ?n1 ?conns = heads ?n ?conns" by (rule heads_cong) simp
    have th: "(take_heads ?conns ?n1)\<lparr>net_sems := s\<rparr> = (take_heads ?conns ?n)\<lparr>net_sems := s\<rparr>" for s
      by (simp add: take_heads_def cong: if_cong)
    obtain n' where n': "udp_send_loop socket_send ?cf ?conns False ?n1 = (Inr (heads ?n ?conns), n')"
        "n' = (take_heads ?conns ?n)\<lparr>net_sems := net_sems n'\<rparr>" "accounted n'"
      using udp_send_loop_ok [OF assms(2) dis pre, of False] lag assms(3) empty False
      unfolding hds th by auto
    show ?thesis
      using n' wait udp_inv_take_heads [OF assms(1) n'(2,3)]
      by (intro exI [of _ n']) (simp add: udp_send_packet_def)
  qed
qed


text \<open>Calling \<open>send_packet\<close> again and again, as the transmitting thread does.\<close>

fun udp_send_all ::
  "(u8 list \<Rightarrow> IPAddress \<Rightarrow> cpp_error + unit) \<Rightarrow> nat \<Rightarrow> UDPInterface \<Rightarrow> world \<Rightarrow>
   (cpp_error + (u8 list \<times> IPAddress) list) \<times> world" where
  "udp_send_all socket_send 0 u w = (Inr [], w)"
| "udp_send_all socket_send (Suc k) u w =
     (case udp_send_packet socket_send u w of
        (Inl e, w') \<Rightarrow> (Inl e, w')
      | (Inr out, w') \<Rightarrow>
          (case udp_send_all socket_send k u w' of
             (Inl e, w'') \<Rightarrow> (Inl e, w'')
           | (Inr out', w'') \<Rightarrow> (Inr (out @ out'), w'')))"

definition sent_to :: "IPAddress \<Rightarrow> (u8 list \<times> IPAddress) list \<Rightarrow> u8 list list" where
  "sent_to ip out = map fst (filter (\<lambda>x. snd x = ip) out)"

lemma sent_to_heads:
  "distinct (map fst conns) \<Longrightarrow> sent_to ip (heads n conns) =
     (case map_of conns ip of
        None \<Rightarrow> []
      | Some c \<Rightarrow> (case head_of n c of None \<Rightarrow> [] | Some p \<Rightarrow> [pkt_data p]))"
proof (induction conns)
  case Nil
  then show ?case by (simp add: sent_to_def)
next
  case (Cons x conns)
  obtain ip' c where x: "x = (ip', c)" by (cases x)
  have "ip' = ip \<Longrightarrow> map_of conns ip = None" using Cons.prems by (simp add: x map_of_eq_None_iff)
  then show ?case
    using Cons by (cases "head_of n c") (auto simp: x heads_Cons sent_to_def)
qed

lemma pop_all_head:
  assumes "net_conns n c = Some conn" "pq_running (conn_queue conn)"
  shows "pop_all (Suc k) (conn_queue conn) =
    (case head_of n c of None \<Rightarrow> [] | Some p \<Rightarrow> [p]) @ pop_all k (conn_queue (popped conn))"
proof -
  have "pq_get_packet q = (None, q) \<Longrightarrow> pop_all k q = []" for q by (cases k) simp_all
  then show ?thesis
    using assms by (cases "pq_queue (conn_queue conn)")
      (auto simp: head_of_def popped_def next_packet_def pq_get_packet_def Let_def)
qed

lemma counted_take_heads:
  assumes "udp_inv env F (u, w)" "n' = (take_heads (udp_connections u) (w_net w))\<lparr>net_sems := s\<rparr>"
  shows "counted n' f \<le> counted (w_net w) f"
proof -
  have "queued n' c \<le> queued (w_net w) c" for c
  proof (cases "c \<in> snd ` set (udp_connections u)")
    case True
    then obtain conn where "net_conns (w_net w) c = Some conn" "pq_running (conn_queue conn)"
      using assms(1) by (fastforce simp: udp_inv_def Let_def)
    then show ?thesis
      using True next_packet_head(2) [of "w_net w" c conn] by (simp add: assms(2) queued_def take_heads_def)
  qed (simp add: assms(2) queued_def take_heads_def)
  then have "(\<Sum>c \<in> owned (w_net w) f. queued n' c) \<le> counted (w_net w) f"
    unfolding counted_def by (rule sum_mono)
  then show ?thesis by (simp add: counted_def owned_def assms(2))
qed

lemma udp_send_all_ok:
  assumes "udp_inv env F (u, w)" "\<forall>d ip. socket_send d ip = Inr ()"
    "counted (w_net w) (cf_number (udp_factory u)) < 2 ^ 64"
    "map_of (udp_connections u) ip = Some c" "net_conns (w_net w) c = Some conn"
  shows "\<exists>out w'. udp_send_all socket_send k u w = (Inr out, w') \<and> udp_inv env F (u, w') \<and>
    sent_to ip out = map pkt_data (pop_all k (conn_queue conn)) \<and>
    net_conns (w_net w') c = Some ((popped ^^ k) conn)"
  using assms(1,3,5)
proof (induction k arbitrary: w conn)
  case 0
  then show ?case by (simp add: sent_to_def)
next
  case (Suc k)
  have ic: "(ip, c) \<in> set (udp_connections u)" using assms(4) by (rule map_of_SomeD)
  then have run: "pq_running (conn_queue conn)"
    using Suc.prems(1,3) by (fastforce simp: udp_inv_def Let_def)
  have dis: "distinct (map fst (udp_connections u))"
    using Suc.prems(1) cmap.distinct_keys [of "udp_connections u"] by (auto simp: udp_inv_def Let_def)
  obtain n' where n': "udp_send_packet socket_send u w = (Inr (heads (w_net w) (udp_connections u)), w\<lparr>w_net := n'\<rparr>)"
      "n' = (take_heads (udp_connections u) (w_net w))\<lparr>net_sems := net_sems n'\<rparr>"
      "udp_inv env F (u, w\<lparr>w_net := n'\<rparr>)"
    using udp_send_ok [OF Suc.prems(1) assms(2) Suc.prems(2)] by blast
  have "c \<in> snd ` set (udp_connections u)" using ic by force
  then have "net_conns n' c = Some (popped conn)"
    using Suc.prems(3) by (subst n'(2)) (simp add: take_heads_def)
  moreover have "counted n' (cf_number (udp_factory u)) < 2 ^ 64"
    using counted_take_heads [OF Suc.prems(1) n'(2)] Suc.prems(2) le_less_trans by blast
  ultimately obtain out w' where "udp_send_all socket_send k u (w\<lparr>w_net := n'\<rparr>) = (Inr out, w')"
      "udp_inv env F (u, w')" "sent_to ip out = map pkt_data (pop_all k (conn_queue (popped conn)))"
      "net_conns (w_net w') c = Some ((popped ^^ k) (popped conn))"
    using Suc.IH [OF n'(3)] by auto
  moreover have "sent_to ip (heads (w_net w) (udp_connections u) @ out) =
      sent_to ip (heads (w_net w) (udp_connections u)) @ sent_to ip out"
    by (simp add: sent_to_def)
  ultimately show ?case
    using n'(1) sent_to_heads [OF dis, of ip "w_net w"] pop_all_head [OF Suc.prems(3) run, of k] assms(4)
    by (cases "head_of (w_net w) c") (simp_all add: funpow_swap1 del: pop_all.simps)
qed

lemma popped_length:
  assumes "pq_running (conn_queue conn)"
  shows "pq_running (conn_queue (popped conn))"
    "length (pq_queue (conn_queue (popped conn))) = length (pq_queue (conn_queue conn)) - 1"
  using assms pq_top_in [of "pq_queue (conn_queue conn)"]
  by (auto simp: popped_def next_packet_def pq_get_packet_def pq_pop_def length_remove1 Let_def)

lemma popped_times:
  assumes "pq_running (conn_queue conn)"
  shows "pq_running (conn_queue ((popped ^^ k) conn)) \<and>
    length (pq_queue (conn_queue ((popped ^^ k) conn))) = length (pq_queue (conn_queue conn)) - k"
  by (induction k) (use assms popped_length in simp_all)

section \<open>Properties\<close>

text \<open>C10: over any history of datagrams on a fresh UDP interface the bytes of two senders are never
  put together.  The packets it hands on, in order and with the addresses they came from, the message
  IDs it reports, the senders that get a connection and the bytes of the unfinished frame are those of
  scanning each run of datagrams of one sender by itself.  This holds as long as no run has a version
  1 packet that is too short for a target field of its message, on which the program has undefined
  behaviour, and a packet is handled within the two minutes an address lives.\<close>

theorem udp_history_separates:
  assumes "udp_inv env F (u, w)" "udp_parser u = parser_initial" "mavlink_tables_agree (env_mavlink env)"
    "\<forall>(clk, d) \<in> set ds. \<forall>i. readings_ok (clk i)"
    "\<forall>(ip, run) \<in> set (runs (udp_last_ip u) [] (map snd ds)).
       \<forall>p \<in> set (run_packets (env_mavlink env) run). \<not> v1_too_short (env_mavlink env) p"
  shows "\<exists>u' w'. udp_receive_all env ds u w = (Inr (), u', w') \<and> udp_inv env F (u', w') \<and>
    (let rs = runs (udp_last_ip u) [] (map snd ds) in
     history_handled env ds u w = concat (map (\<lambda>(ip, run). map (Pair ip) (run_packets (env_mavlink env) run)) rs) \<and>
     udp_last_ip u' = fst (last rs) \<and> pp_buffer (udp_parser u') = snd (scan (env_mavlink env) (snd (last rs))) \<and>
     w_cerr w' = w_cerr w @ concat (map (\<lambda>(ip, run). run_errors (env_mavlink env) run) rs) \<and>
     udp_known (u', w') = udp_known (u, w) \<union> heard (env_mavlink env) rs)"
proof -
  let ?ml = "env_mavlink env" and ?rs = "runs (udp_last_ip u) [] (map snd ds)"
  have none: "run_packets ml [] = []" "run_errors ml [] = []" for ml
    by (simp_all add: run_packets_def run_errors_def packets_of_def errors_of_def)
  have route: "\<forall>(ip, run) \<in> set ?rs. routable ?ml (fst (scan ?ml run))"
    using assms(5) run_packets_wf dest_or_short [OF _ assms(3)]
    by (fastforce simp: routable_def run_packets_def)
  have start: "pp_buffer (udp_parser u) = snd (scan ?ml [])" "parser_inv ?ml (udp_parser u)"
      "w_cerr w = w_cerr w @ run_errors ?ml []"
      "udp_known (u, w) = udp_known (u, w) \<union> heard ?ml [(udp_last_ip u, [])]"
    using assms(2) parser_inv_initial by (simp_all add: heard_def none)
  show ?thesis
    using udp_history_ok [OF assms(1) start(2,1) refl start(3,4) assms(4) route]
    unfolding Let_def none(1) list.map(1) append_Nil by blast
qed

text \<open>C13: one call of \<open>send_packet\<close> on a UDP interface whose socket accepts everything sends
  exactly the next packet of every connection that has one, each to the address of its connection, in
  the order of the addresses, and nothing when nothing waits.  The semaphore then counts what is
  left: no wake-up is lost and none is left over.\<close>

theorem udp_send_accounts:
  assumes "udp_inv env F (u, w)" "\<forall>d ip. socket_send d ip = Inr ()"
    "counted (w_net w) (cf_number (udp_factory u)) < 2 ^ 64"
  shows "\<exists>w'. udp_send_packet socket_send u w = (Inr (heads (w_net w) (udp_connections u)), w') \<and>
    udp_inv env F (u, w') \<and> net_conns (w_net w') = net_conns (take_heads (udp_connections u) (w_net w)) \<and>
    net_sems (w_net w') (cf_number (udp_factory u)) = of_nat (counted (w_net w') (cf_number (udp_factory u)))"
proof -
  obtain n' where n': "udp_send_packet socket_send u w = (Inr (heads (w_net w) (udp_connections u)), w\<lparr>w_net := n'\<rparr>)"
      "n' = (take_heads (udp_connections u) (w_net w))\<lparr>net_sems := net_sems n'\<rparr>"
      "udp_inv env F (u, w\<lparr>w_net := n'\<rparr>)"
    using udp_send_ok [OF assms] by blast
  have "accounted n'" using n'(3) by (simp add: udp_inv_def world_inv_def Let_def)
  moreover have "net_conns n' = net_conns (take_heads (udp_connections u) (w_net w))"
    by (subst n'(2)) simp
  ultimately show ?thesis using n'(1,3) accounted_sems by (intro exI [of _ "w\<lparr>w_net := n'\<rparr>"]) simp
qed

text \<open>C12: no connection of a UDP interface starves: after \<open>k\<close> calls of \<open>send_packet\<close> the datagrams
  sent to an address are the first \<open>k\<close> packets of its connection in the order its queue serves them,
  however much waits on the other connections, and after as many calls as packets wait on it, its queue
  is empty.\<close>

theorem udp_sends_fairly:
  assumes "udp_inv env F (u, w)" "\<forall>d ip. socket_send d ip = Inr ()"
    "counted (w_net w) (cf_number (udp_factory u)) < 2 ^ 64"
    "map_of (udp_connections u) ip = Some c" "net_conns (w_net w) c = Some conn"
  shows "\<exists>out w'. udp_send_all socket_send k u w = (Inr out, w') \<and>
    sent_to ip out = map pkt_data (pop_all k (conn_queue conn)) \<and>
    length (sender_queue ip (u, w')) = length (pq_queue (conn_queue conn)) - k"
proof -
  obtain out w' where out: "udp_send_all socket_send k u w = (Inr out, w')"
      "sent_to ip out = map pkt_data (pop_all k (conn_queue conn))"
      "net_conns (w_net w') c = Some ((popped ^^ k) conn)"
    using udp_send_all_ok [OF assms] by blast
  have "pq_running (conn_queue conn)"
    using map_of_SomeD [OF assms(4)] assms(1,5) by (fastforce simp: udp_inv_def Let_def)
  then show ?thesis
    using out popped_times [of conn k] assms(4) by (simp add: sender_queue_def)
qed

lemma serial_receive_ok:
  assumes "serial_inv env F (s, w)" "parser_inv (env_mavlink env) (ser_parser s)" "\<forall>i. readings_ok (clk i)"
    "routable (env_mavlink env) (fst (spec_run (env_mavlink env) buffer (pp_buffer (ser_parser s))))"
  shows "\<exists>s' w'. serial_receive_packet env clk buffer s w = (Inr (), s', w') \<and>
    serial_inv env F (s', w') \<and> parser_inv (env_mavlink env) (ser_parser s') \<and>
    pp_buffer (ser_parser s') = snd (spec_run (env_mavlink env) buffer (pp_buffer (ser_parser s))) \<and>
    serial_queue (s', w') = serial_queue (s, w) \<and>
    ser_connection s' = ser_connection s \<and> net_keeps w w' \<and> owners_kept {} w w' \<and>
    gains env F (packets_of (env_mavlink env)
      (fst (spec_run (env_mavlink env) buffer (pp_buffer (ser_parser s))))) w w'"
proof -
  obtain y where "serial_bytes env clk 0 buffer s w = (Inr (), y)" "serial_inv env F y"
      "serial_step env F (packets_of (env_mavlink env)
         (fst (spec_run (env_mavlink env) buffer (pp_buffer (ser_parser s))))) (s, w) y" "parser_inv (env_mavlink env) (ser_parser (fst y))"
      "pp_buffer (ser_parser (fst y)) = snd (spec_run (env_mavlink env) buffer (pp_buffer (ser_parser s)))"
    using ser.loop_ok [OF assms(1), of clk buffer 0] assms(2-4)
    by (auto simp: routable_def ser.frames_def)
  then show ?thesis
    by (cases y) (cases "buffer = []", auto simp: serial_receive_packet_def serial_step_def)
qed

section \<open>A concrete interface\<close>

definition sample_factory :: ConnectionFactory where
  "sample_factory = \<lparr>cf_number = 0, cf_filter = sample_filter, cf_mirror = False\<rparr>"

definition sample_udp :: UDPInterface where
  "sample_udp = \<lparr>udp_factory = sample_factory, udp_last_ip = MkIPAddress 0 0, udp_connections = [],
     udp_parser = parser_initial\<rparr>"

definition empty_world :: world where
  "empty_world = \<lparr>w_net = \<lparr>net_conns = (\<lambda>_. None), net_guards = (\<lambda>_. {}), net_log = [],
      net_owner = (\<lambda>_. None), net_sems = (\<lambda>_. 0)\<rparr>, w_pool = [], w_next = 0, w_cerr = []\<rparr>"

definition sample_clock :: "nat \<Rightarrow> readings" where
  "sample_clock i = \<lparr>rd_contains = 0, rd_add = 0, rd_send = (\<lambda>_. (0, 0, 0))\<rparr>"

lemma sample_filter_total: "filter_total sample_env sample_filter (\<lambda>_. {})"
  using sample_decision by (auto simp: filter_total_def)

lemma sample_udp_inv: "udp_inv sample_env sample_filter (sample_udp, empty_world)"
  using sample_filter_total
  by (simp add: udp_inv_def world_inv_def sample_udp_def sample_factory_def empty_world_def
      accounted_def owned_def counted_def)

lemma sample_scan:
  "scan common_mavlink sample_heartbeat = ([(V1, sample_heartbeat)], [])"
  using scan_segments [of "[([], heartbeat)]" common_mavlink "[]"] heartbeat_wf
  by (simp add: is_garbage_def)

lemma sample_run: "spec_run common_mavlink sample_heartbeat [] = ([(V1, sample_heartbeat)], [])"
  using spec_run_scan [of common_mavlink "[]" sample_heartbeat] sample_scan by (simp add: pending_def)

lemma heartbeat_frames: "packets_of common_mavlink [(V1, sample_heartbeat)] = [heartbeat]"
  "errors_of common_mavlink [(V1, sample_heartbeat)] = []"
  using packet_wf_frame(2) [OF heartbeat_wf] by (simp_all add: packets_of_def errors_of_def)

lemma sample_routable: "routable common_mavlink [(V1, sample_heartbeat)]"
  unfolding routable_def heartbeat_frames by (simp add: heartbeat_queries)

lemma sample_env_mavlink [simp]: "env_mavlink sample_env = common_mavlink"
  by (simp add: sample_env_def)

lemma sample_readings: "readings_ok (sample_clock i)"
  by (simp add: readings_ok_def sample_clock_def)

theorem udp_history_separates_witness:
  "\<exists>u' w'. udp_receive_all sample_env
      [(sample_clock, take 5 sample_heartbeat, MkIPAddress 1 1), (sample_clock, sample_heartbeat, MkIPAddress 2 1)]
      sample_udp empty_world = (Inr (), u', w') \<and>
      history_handled sample_env
        [(sample_clock, take 5 sample_heartbeat, MkIPAddress 1 1), (sample_clock, sample_heartbeat, MkIPAddress 2 1)]
        sample_udp empty_world = [(MkIPAddress 2 1, heartbeat)] \<and> udp_known (u', w') = {MkIPAddress 2 1}"
proof -
  have five: "scan common_mavlink (take 5 sample_heartbeat) = ([], take 5 sample_heartbeat)"
    by (rule scan_pending) (auto simp: pending_def sample_heartbeat_def frame_start_def v1_START_BYTE_def
        frame_header_def intro!: exI [of _ V1])
  have some: "sample_heartbeat \<noteq> []" by (simp add: sample_heartbeat_def)
  let ?ds = "[(sample_clock, take 5 sample_heartbeat, MkIPAddress 1 1), (sample_clock, sample_heartbeat, MkIPAddress 2 1)]"
  have rs: "runs (udp_last_ip sample_udp) [] (map snd ?ds) =
      [(MkIPAddress 0 0, []), (MkIPAddress 1 1, take 5 sample_heartbeat), (MkIPAddress 2 1, sample_heartbeat)]"
    using some by (simp add: sample_udp_def)
  have ps: "run_packets common_mavlink [] = []" "run_packets common_mavlink (take 5 sample_heartbeat) = []"
      "run_packets common_mavlink sample_heartbeat = [heartbeat]"
    by (simp_all add: run_packets_def five sample_scan heartbeat_frames packets_of_def [of _ "[]"])
  have "\<not> v1_too_short common_mavlink heartbeat"
    using dest_or_short [OF heartbeat_wf common_tables_agree] by (simp add: heartbeat_queries)
  then have "\<forall>(ip, run) \<in> set (runs (udp_last_ip sample_udp) [] (map snd ?ds)).
       \<forall>p \<in> set (run_packets (env_mavlink sample_env) run). \<not> v1_too_short (env_mavlink sample_env) p"
    unfolding rs by (simp add: ps)
  moreover have "udp_parser sample_udp = parser_initial" by (simp add: sample_udp_def)
  moreover have "\<forall>(clk, d) \<in> set ?ds. \<forall>i. readings_ok (clk i)" by (simp add: sample_readings)
  moreover have "mavlink_tables_agree (env_mavlink sample_env)" using common_tables_agree by simp
  ultimately obtain u' w' where u': "udp_receive_all sample_env ?ds sample_udp empty_world = (Inr (), u', w')"
      "history_handled sample_env ?ds sample_udp empty_world =
        concat (map (\<lambda>(ip, run). map (Pair ip) (run_packets common_mavlink run)) (runs (udp_last_ip sample_udp) [] (map snd ?ds)))"
      "udp_known (u', w') = udp_known (sample_udp, empty_world) \<union>
        heard common_mavlink (runs (udp_last_ip sample_udp) [] (map snd ?ds))"
    using udp_history_separates [OF sample_udp_inv, of ?ds] unfolding Let_def sample_env_mavlink by blast
  have "heard common_mavlink (runs (udp_last_ip sample_udp) [] (map snd ?ds)) = {MkIPAddress 2 1}"
    unfolding rs by (simp add: heard_Cons ps) (simp add: heard_def)
  then show ?thesis using u' unfolding rs by (simp add: udp_known_def sample_udp_def ps)
qed

text \<open>An interface with one connection on which one packet waits.\<close>

definition busy_udp :: UDPInterface where
  "busy_udp = sample_udp\<lparr>udp_connections := [(MkIPAddress 1 1, 0)]\<rparr>"

definition busy_connection :: Connection where
  "busy_connection =
     (new_connection sample_udp (MkIPAddress 1 1))\<lparr>conn_queue := queue_enq (heartbeat, 5) (PacketQueue_construct True)\<rparr>"

definition busy_world :: world where
  "busy_world = empty_world\<lparr>w_net := (w_net empty_world)\<lparr>net_conns := [0 \<mapsto> busy_connection],
      net_owner := [0 \<mapsto> 0], net_sems := (\<lambda>_. 0)(0 := 1)\<rparr>, w_pool := [0], w_next := 1\<rparr>"

lemma busy_simps:
  "net_conns (w_net busy_world) = [0 \<mapsto> busy_connection]" "net_owner (w_net busy_world) = [0 \<mapsto> 0]"
  "net_sems (w_net busy_world) = (\<lambda>_. 0)(0 := 1)" "net_guards (w_net busy_world) = (\<lambda>_. {})"
  "w_pool busy_world = [0]" "w_next busy_world = 1"
  "pq_queue (conn_queue busy_connection) = [\<lparr>qp_packet = heartbeat, qp_priority = 5, qp_ticket = 0\<rparr>]"
  "pq_running (conn_queue busy_connection)" "pq_callback (conn_queue busy_connection)"
  "udp_connections busy_udp = [(MkIPAddress 1 1, 0)]" "udp_factory busy_udp = sample_factory"
  by (simp_all add: busy_world_def empty_world_def busy_connection_def busy_udp_def new_connection_def
      queue_enq_eq PacketQueue_construct_def sample_udp_def)

lemma busy_counted: "owned (w_net busy_world) f = (if f = 0 then {0} else {})"
  "counted (w_net busy_world) f = (if f = 0 then 1 else 0)"
  by (auto simp: owned_def counted_def queued_def busy_simps)

lemma busy_inv: "udp_inv sample_env sample_filter (busy_udp, busy_world)"
proof -
  have "conn_inv sample_filter busy_connection"
    by (simp add: conn_inv_def busy_connection_def new_connection_def sample_udp_def sample_factory_def
        AddressPool_construct_def pool_wf_def)
  moreover have "accounted (w_net busy_world)"
    by (simp add: accounted_def busy_counted busy_simps)
  ultimately have "world_inv sample_env sample_filter busy_world"
    using sample_filter_total by (simp add: world_inv_def busy_simps)
  moreover have "conn_name busy_connection = show_IPAddress (MkIPAddress 1 1)" "\<not> conn_mirror busy_connection"
    by (simp_all add: busy_connection_def new_connection_def sample_udp_def sample_factory_def)
  ultimately show ?thesis
    by (simp add: udp_inv_def busy_counted busy_simps sample_factory_def)
qed

lemma busy_head: "head_of (w_net busy_world) 0 = Some heartbeat"
  by (simp add: head_of_def busy_simps pq_top_def)

theorem udp_send_accounts_witness:
  "\<exists>w'. udp_send_packet (\<lambda>_ _. Inr ()) busy_udp busy_world = (Inr [(sample_heartbeat, MkIPAddress 1 1)], w') \<and>
    udp_inv sample_env sample_filter (busy_udp, w') \<and>
    net_conns (w_net w') = net_conns (take_heads (udp_connections busy_udp) (w_net busy_world)) \<and>
    net_sems (w_net w') (cf_number (udp_factory busy_udp)) =
      of_nat (counted (w_net w') (cf_number (udp_factory busy_udp)))"
proof -
  have "heads (w_net busy_world) (udp_connections busy_udp) = [(sample_heartbeat, MkIPAddress 1 1)]"
    by (simp add: busy_simps heads_Cons busy_head)
  then show ?thesis
    using udp_send_accounts [OF busy_inv, of "\<lambda>_ _. Inr ()"] by (simp add: busy_counted)
qed

theorem udp_sends_fairly_witness:
  "\<exists>out w'. udp_send_all (\<lambda>_ _. Inr ()) 3 busy_udp busy_world = (Inr out, w') \<and>
    sent_to (MkIPAddress 1 1) out = [sample_heartbeat] \<and> sender_queue (MkIPAddress 1 1) (busy_udp, w') = []"
proof -
  have "pop_all 3 (conn_queue busy_connection) = [heartbeat]"
    by (simp add: numeral_3_eq_3 pq_get_packet_def busy_simps pq_top_def pq_pop_def)
  then show ?thesis
    using udp_sends_fairly [OF busy_inv, of "\<lambda>_ _. Inr ()" "MkIPAddress 1 1" 0 busy_connection 3]
    by (simp add: busy_counted busy_simps)
qed

end
