(* ===== verification/Threader.thy ===== *)
theory Threader
  imports MtPrelude
begin

text \<open>
  \<open>InterfaceThreader\<close>: the two worker threads of an interface and the thread that starts and stops
  them, as a step relation whose steps are the atomic accesses to \<open>running_\<close>, the ends of the calls of
  the interface, and the two joins.
\<close>

section \<open>The threads\<close>

text \<open>
  A worker is about to load \<open>running_\<close>, inside a call of its interface, or has left its loop.  An
  exception that leaves a thread function ends the program (\<open>std::terminate\<close>), as does starting a
  thread on a \<open>std::thread\<close> that has not been joined: \<open>Crashed\<close>.
\<close>

datatype worker = No_thread | Checking | Calling | Finished | Crashed

datatype call_end = Returned | Partial_send | Other_error

definition tx_runner_check :: "bool \<Rightarrow> worker" where
  "tx_runner_check running = (if running then Calling else Finished)"

text \<open>The catch clause loads \<open>running_\<close> again and swallows the partial send error on shutdown.\<close>

definition tx_runner_return :: "bool \<Rightarrow> call_end \<Rightarrow> worker" where
  "tx_runner_return running e =
     (case e of
        Returned \<Rightarrow> Checking
      | Partial_send \<Rightarrow> if running then Crashed else Checking
      | Other_error \<Rightarrow> Crashed)"

definition rx_runner_check :: "bool \<Rightarrow> worker" where
  "rx_runner_check running = (if running then Calling else Finished)"

definition rx_runner_return :: "call_end \<Rightarrow> worker" where
  "rx_runner_return e = (if e = Returned then Checking else Crashed)"

text \<open>What the owner of the threader is doing.\<close>

datatype owner = Idle | Joining_tx | Joining_rx

record threader =
  th_running :: bool
  th_tx :: worker
  th_rx :: worker
  th_owner :: owner

definition launch :: "worker \<Rightarrow> worker" where
  "launch t = (if t = No_thread then Checking else Crashed)"

definition threader_start :: "threader \<Rightarrow> threader" where
  "threader_start s = s\<lparr>th_running := True, th_tx := launch (th_tx s), th_rx := launch (th_rx s)\<rparr>"

text \<open>The first half of \<open>shutdown\<close>; the joins are steps of their own.\<close>

definition threader_shutdown :: "threader \<Rightarrow> threader" where
  "threader_shutdown s = (if th_running s then s\<lparr>th_running := False, th_owner := Joining_tx\<rparr> else s)"

definition InterfaceThreader_construct :: "bool \<Rightarrow> threader" where
  "InterfaceThreader_construct start_threads =
     (let s = \<lparr>th_running = False, th_tx = No_thread, th_rx = No_thread, th_owner = Idle\<rparr>
      in if start_threads then threader_start s else s)"

inductive threader_step :: "threader \<Rightarrow> threader \<Rightarrow> bool" where
  start: "th_owner s = Idle \<Longrightarrow> \<not> th_running s \<Longrightarrow> threader_step s (threader_start s)"
| shutdown: "th_owner s = Idle \<Longrightarrow> th_running s \<Longrightarrow> threader_step s (threader_shutdown s)"
| tx_check: "th_tx s = Checking \<Longrightarrow> threader_step s (s\<lparr>th_tx := tx_runner_check (th_running s)\<rparr>)"
| tx_return: "th_tx s = Calling \<Longrightarrow> threader_step s (s\<lparr>th_tx := tx_runner_return (th_running s) e\<rparr>)"
| rx_check: "th_rx s = Checking \<Longrightarrow> threader_step s (s\<lparr>th_rx := rx_runner_check (th_running s)\<rparr>)"
| rx_return: "th_rx s = Calling \<Longrightarrow> threader_step s (s\<lparr>th_rx := rx_runner_return e\<rparr>)"
| join_tx: "th_owner s = Joining_tx \<Longrightarrow> th_tx s = Finished \<Longrightarrow>
     threader_step s (s\<lparr>th_tx := No_thread, th_owner := Joining_rx\<rparr>)"
| join_rx: "th_owner s = Joining_rx \<Longrightarrow> th_rx s = Finished \<Longrightarrow>
     threader_step s (s\<lparr>th_rx := No_thread, th_owner := Idle\<rparr>)"

inductive_cases threader_stepE: "threader_step s s'"

text \<open>The states reached when the threads are only started while they are stopped.\<close>

inductive threader_reach :: "threader \<Rightarrow> bool" where
  made: "threader_reach (InterfaceThreader_construct b)"
| step: "threader_reach s \<Longrightarrow> threader_step s s' \<Longrightarrow> threader_reach s'"

section \<open>The invariant\<close>

definition at_work :: "bool \<Rightarrow> worker \<Rightarrow> bool" where
  "at_work running t \<longleftrightarrow> t \<noteq> No_thread \<and> (t = Finished \<longrightarrow> \<not> running)"

definition threader_inv :: "threader \<Rightarrow> bool" where
  "threader_inv s \<longleftrightarrow>
     (case th_owner s of
        Idle \<Rightarrow> if th_running s then at_work True (th_tx s) \<and> at_work True (th_rx s)
                else th_tx s = No_thread \<and> th_rx s = No_thread
      | Joining_tx \<Rightarrow> \<not> th_running s \<and> at_work False (th_tx s) \<and> at_work False (th_rx s)
      | Joining_rx \<Rightarrow> \<not> th_running s \<and> th_tx s = No_thread \<and> at_work False (th_rx s))"

lemmas threader_defs = threader_inv_def at_work_def threader_start_def threader_shutdown_def launch_def
  tx_runner_check_def tx_runner_return_def rx_runner_check_def rx_runner_return_def

lemma threader_inv_step: "threader_step s s' \<Longrightarrow> threader_inv s \<Longrightarrow> threader_inv s'"
  by (induction rule: threader_step.induct)
    (auto simp: threader_defs split: owner.splits if_splits call_end.splits)

lemma threader_inv_reach: "threader_reach s \<Longrightarrow> threader_inv s"
  by (induction rule: threader_reach.induct)
    (auto simp: InterfaceThreader_construct_def Let_def threader_inv_step, simp_all add: threader_defs)

section \<open>Shutting down\<close>

text \<open>How many steps are left at most until both threads are joined.\<close>

definition worker_steps :: "worker \<Rightarrow> nat" where
  "worker_steps t = (case t of Calling \<Rightarrow> 2 | Checking \<Rightarrow> 1 | _ \<Rightarrow> 0)"

definition owner_steps :: "owner \<Rightarrow> nat" where
  "owner_steps p = (case p of Joining_tx \<Rightarrow> 2 | Joining_rx \<Rightarrow> 1 | Idle \<Rightarrow> 0)"

definition steps_left :: "threader \<Rightarrow> nat" where
  "steps_left s = worker_steps (th_tx s) + worker_steps (th_rx s) + owner_steps (th_owner s)"

definition crashed :: "threader \<Rightarrow> bool" where
  "crashed s \<longleftrightarrow> th_tx s = Crashed \<or> th_rx s = Crashed"

lemma shutdown_decreases:
  assumes "threader_step s s'" "th_owner s \<noteq> Idle" "threader_inv s" "\<not> crashed s'"
  shows "steps_left s' < steps_left s"
  using assms
  by (induction rule: threader_step.induct)
    (auto simp: threader_defs steps_left_def worker_steps_def owner_steps_def crashed_def
      split: owner.splits if_splits call_end.splits)

lemma shutdown_progress:
  assumes "th_owner s \<noteq> Idle" "threader_inv s" "\<not> crashed s"
  shows "\<exists>s'. threader_step s s' \<and> \<not> crashed s'"
proof -
  let ?works = "\<lambda>t. t = Checking \<or> t = Calling \<or> t = Finished"
  have rx: "?works (th_rx s)" and stopped: "\<not> th_running s"
    using assms by (cases "th_rx s"; cases "th_owner s"; auto simp: threader_defs crashed_def)+
  show ?thesis
  proof (cases "th_owner s")
    case Joining_tx
    then have "?works (th_tx s)" using assms by (cases "th_tx s") (auto simp: threader_defs crashed_def)
    then show ?thesis
    proof (elim disjE)
      assume t: "th_tx s = Checking"
      show ?thesis using tx_check [OF t] assms(3) stopped
        by (intro exI [of _ "s\<lparr>th_tx := Finished\<rparr>"]) (auto simp: tx_runner_check_def crashed_def)
    next
      assume t: "th_tx s = Calling"
      show ?thesis using tx_return [OF t, of Returned] assms(3)
        by (intro exI [of _ "s\<lparr>th_tx := Checking\<rparr>"]) (auto simp: tx_runner_return_def crashed_def)
    next
      assume t: "th_tx s = Finished"
      show ?thesis using join_tx [OF Joining_tx t] assms(3)
        by (intro exI [of _ "s\<lparr>th_tx := No_thread, th_owner := Joining_rx\<rparr>"]) (auto simp: crashed_def)
    qed
  next
    case Joining_rx
    from rx show ?thesis
    proof (elim disjE)
      assume t: "th_rx s = Checking"
      show ?thesis using rx_check [OF t] assms(3) stopped
        by (intro exI [of _ "s\<lparr>th_rx := Finished\<rparr>"]) (auto simp: rx_runner_check_def crashed_def)
    next
      assume t: "th_rx s = Calling"
      show ?thesis using rx_return [OF t, of Returned] assms(3)
        by (intro exI [of _ "s\<lparr>th_rx := Checking\<rparr>"]) (auto simp: rx_runner_return_def crashed_def)
    next
      assume t: "th_rx s = Finished"
      show ?thesis using join_rx [OF Joining_rx t] assms(3)
        by (intro exI [of _ "s\<lparr>th_rx := No_thread, th_owner := Idle\<rparr>"]) (auto simp: crashed_def)
    qed
  qed (use assms(1) in simp)
qed

section \<open>Properties\<close>

text \<open>C15: in every state that is reached when the threads are only started while they are stopped,
  there are worker threads exactly while the threader runs or is being shut down, so starting never
  hits a thread that is still there, and shutting down leaves none behind.\<close>

theorem threader_threads:
  assumes "threader_reach s" "th_owner s = Idle"
  shows "(th_tx s = No_thread \<longleftrightarrow> \<not> th_running s) \<and> (th_rx s = No_thread \<longleftrightarrow> \<not> th_running s)"
  using threader_inv_reach [OF assms(1)] assms(2) by (auto simp: threader_inv_def at_work_def)

text \<open>C14: \<open>shutdown\<close> always comes to an end.  While it waits, some step is possible that is no
  fatal exception; every step, whichever thread makes it, brings the end nearer, and with that at most
  six steps are left, a partial send error in the transmitting thread included.\<close>

theorem threader_shutdown_ends:
  assumes "threader_reach s" "th_owner s \<noteq> Idle" "\<not> crashed s"
  shows "steps_left s \<le> 6 \<and> (\<exists>s'. threader_step s s' \<and> \<not> crashed s') \<and>
    (\<forall>s'. threader_step s s' \<and> \<not> crashed s' \<longrightarrow> steps_left s' < steps_left s)"
proof -
  have "steps_left s \<le> 6"
    by (cases "th_tx s"; cases "th_rx s"; cases "th_owner s")
      (simp_all add: steps_left_def worker_steps_def owner_steps_def)
  then show ?thesis
    using shutdown_progress [OF assms(2) _ assms(3)] shutdown_decreases [OF _ assms(2)]
      threader_inv_reach [OF assms(1)] by blast
qed

definition sample_threader :: threader where
  "sample_threader = threader_shutdown
     ((InterfaceThreader_construct True)\<lparr>th_tx := tx_runner_check True\<rparr>)"

lemma sample_threader_reach: "threader_reach sample_threader"
  unfolding sample_threader_def
proof (rule threader_reach.step [OF threader_reach.step [OF made [of True]]])
  show "threader_step (InterfaceThreader_construct True)
      ((InterfaceThreader_construct True)\<lparr>th_tx := tx_runner_check True\<rparr>)"
    using tx_check [of "InterfaceThreader_construct True"]
    by (simp add: InterfaceThreader_construct_def threader_start_def launch_def)
  show "threader_step ((InterfaceThreader_construct True)\<lparr>th_tx := tx_runner_check True\<rparr>)
      (threader_shutdown ((InterfaceThreader_construct True)\<lparr>th_tx := tx_runner_check True\<rparr>))"
    by (rule threader_step.shutdown) (simp_all add: InterfaceThreader_construct_def threader_start_def)
qed

theorem threader_threads_witness:
  "th_tx (InterfaceThreader_construct False) = No_thread \<longleftrightarrow> \<not> th_running (InterfaceThreader_construct False)"
  using threader_threads [OF made, of False] by (simp add: InterfaceThreader_construct_def)

theorem threader_shutdown_ends_witness:
  "steps_left sample_threader \<le> 6 \<and> (\<exists>s'. threader_step sample_threader s' \<and> \<not> crashed s')"
proof -
  have "th_owner sample_threader \<noteq> Idle" "\<not> crashed sample_threader"
    by (simp_all add: sample_threader_def threader_shutdown_def InterfaceThreader_construct_def
        threader_start_def launch_def tx_runner_check_def crashed_def)
  then show ?thesis using threader_shutdown_ends [OF sample_threader_reach] by blast
qed

end
