(* ===== verification/UnixDevices.thy ===== *)
theory UnixDevices
  imports IpAddress
begin

text \<open>
  \<open>UnixUDPSocket\<close> and \<open>UnixSerialPort\<close>: the devices under the interfaces.  The system calls are the
  record \<open>unix_calls\<close> over an arbitrary state \<open>'s\<close> of the operating system; every method passes
  that state on, so a definition shows which calls it makes and in which order.
\<close>

section \<open>The system calls\<close>

text \<open>
  Addresses and ports are passed in host order, because the code converts them at every call.
  \<open>sys_poll\<close> gives the result and whether \<open>POLLERR\<close> and \<open>POLLIN\<close> are set, \<open>sys_fionread\<close> the result and
  the number \<open>ioctl\<close> stores, \<open>sys_read\<close> the result and the bytes stored.
\<close>

record termios =
  c_iflag :: u32
  c_oflag :: u32
  c_cflag :: u32
  c_lflag :: u32
  c_vmin :: u8
  c_vtime :: u8
  c_ispeed :: u32
  c_ospeed :: u32

record datagram =
  dg_size :: int
  dg_data :: "u8 list"
  dg_addrlen :: nat
  dg_inet :: bool
  dg_addr :: u32
  dg_port :: u16

record 's unix_calls =
  sys_errno :: "'s \<Rightarrow> int"
  sys_close :: "int \<Rightarrow> 's \<Rightarrow> int \<times> 's"
  sys_poll :: "int \<Rightarrow> int \<Rightarrow> 's \<Rightarrow> (int \<times> bool \<times> bool) \<times> 's"
  sys_socket :: "'s \<Rightarrow> int \<times> 's"
  sys_bind :: "int \<Rightarrow> u16 \<Rightarrow> u32 \<Rightarrow> 's \<Rightarrow> int \<times> 's"
  sys_fionread :: "int \<Rightarrow> 's \<Rightarrow> (int \<times> int) \<times> 's"
  sys_recvfrom :: "int \<Rightarrow> nat \<Rightarrow> 's \<Rightarrow> datagram \<times> 's"
  sys_sendto :: "int \<Rightarrow> u8 list \<Rightarrow> u16 \<Rightarrow> u32 \<Rightarrow> 's \<Rightarrow> int \<times> 's"
  sys_open :: "string \<Rightarrow> 's \<Rightarrow> int \<times> 's"
  sys_read :: "int \<Rightarrow> nat \<Rightarrow> 's \<Rightarrow> (int \<times> u8 list) \<times> 's"
  sys_write :: "int \<Rightarrow> u8 list \<Rightarrow> 's \<Rightarrow> int \<times> 's"
  sys_tcgetattr :: "int \<Rightarrow> 's \<Rightarrow> (int \<times> termios) \<times> 's"
  sys_tcsetattr :: "int \<Rightarrow> termios \<Rightarrow> 's \<Rightarrow> int \<times> 's"
  sys_now :: "'s \<Rightarrow> int \<times> 's"
  sys_sleep :: "int \<Rightarrow> 's \<Rightarrow> 's"

text \<open>\<open>std::system_error\<close> with the current \<open>errno\<close>.\<close>

definition system_error :: "'s unix_calls \<Rightarrow> string \<Rightarrow> 's \<Rightarrow> cpp_error" where
  "system_error sys what s = System_error (sys_errno sys s) what"

text \<open>The timeout of \<open>poll\<close>: nanoseconds are cut to milliseconds towards zero, then to an \<open>int\<close>.\<close>

definition poll_timeout :: "int \<Rightarrow> int" where
  "poll_timeout ns = signed_take_bit 31 (if ns < 0 then - ((- ns) div 1000000) else ns div 1000000)"

section \<open>UnixUDPSocket\<close>

record UnixUDPSocket =
  us_port :: u32
  us_address :: "IPAddress option"
  us_max_bitrate :: u64
  us_socket :: int
  us_next_time :: int

definition create_socket ::
  "'s unix_calls \<Rightarrow> UnixUDPSocket \<Rightarrow> 's \<Rightarrow> (cpp_error + unit) \<times> UnixUDPSocket \<times> 's" where
  "create_socket sys u s =
     (let (fd, s1) = sys_socket sys s; u1 = u\<lparr>us_socket := fd\<rparr> in
      if fd < 0 then (Inl (system_error sys [] s1), u1, s1)
      else
        (let (r, s2) = sys_bind sys fd (ucast (us_port u))
               (case us_address u of Some a \<Rightarrow> ucast (ip_address a) | None \<Rightarrow> 0) s1
         in if r < 0 then (Inl (system_error sys [] s2), u1, s2) else (Inr (), u1, s2)))"

definition UnixUDPSocket_construct ::
  "'s unix_calls \<Rightarrow> u32 \<Rightarrow> IPAddress option \<Rightarrow> u64 \<Rightarrow> 's \<Rightarrow> (cpp_error + UnixUDPSocket) \<times> 's" where
  "UnixUDPSocket_construct sys port address max_bitrate s =
     (let (now, s1) = sys_now sys s;
          (r, u, s2) = create_socket sys \<lparr>us_port = port, us_address = address, us_max_bitrate = max_bitrate,
                         us_socket = -1, us_next_time = now\<rparr> s1
      in case r of Inl e \<Rightarrow> (Inl e, s2) | Inr _ \<Rightarrow> (Inr u, s2))"

definition UnixUDPSocket_destroy :: "'s unix_calls \<Rightarrow> UnixUDPSocket \<Rightarrow> 's \<Rightarrow> 's" where
  "UnixUDPSocket_destroy sys u s = snd (sys_close sys (us_socket u) s)"

text \<open>
  The cost of a packet in nanoseconds.  \<open>1000 * 1000 * data.size() * 8\<close> is computed in \<open>size_t\<close>
  and wraps; the division is one of unsigned numbers of microseconds.
\<close>

definition send_cost :: "u64 \<Rightarrow> nat \<Rightarrow> int" where
  "send_cost max_bitrate bytes = int (unat ((1000 * 1000 * of_nat bytes * 8 :: u64) div max_bitrate)) * 1000"

text \<open>
  The rate limiter: how long to sleep, and the time from which on the next packet may be sent, from
  the reading of the clock before the sleep.
\<close>

definition rate_limit :: "int \<Rightarrow> nat \<Rightarrow> UnixUDPSocket \<Rightarrow> int option \<times> UnixUDPSocket" where
  "rate_limit now bytes u =
     (if now < us_next_time u then Some (us_next_time u - now) else None,
      u\<lparr>us_next_time := now + send_cost (us_max_bitrate u) bytes\<rparr>)"

definition udp_socket_send ::
  "'s unix_calls \<Rightarrow> u8 list \<Rightarrow> IPAddress \<Rightarrow> UnixUDPSocket \<Rightarrow> 's \<Rightarrow> (cpp_error + unit) \<times> UnixUDPSocket \<times> 's" where
  "udp_socket_send sys data address u s =
     (let (u1, s1) =
            (if us_max_bitrate u \<noteq> 0
             then (let (now, s0) = sys_now sys s; (sleep, u') = rate_limit now (length data) u in
                   (u', case sleep of Some d \<Rightarrow> sys_sleep sys d s0 | None \<Rightarrow> s0))
             else (u, s));
          (err, s2) = sys_sendto sys (us_socket u1) data (ucast (ip_port address)) (ucast (ip_address address)) s1
      in if err < 0 then (Inl (system_error sys [] s2), u1, s2) else (Inr (), u1, s2))"

abbreviation no_datagram :: "u8 list \<times> IPAddress" where
  "no_datagram \<equiv> ([], MkIPAddress 0 0)"

text \<open>
  \<open>receive_\<close>.  A negative size from \<open>ioctl\<close> becomes a huge \<open>size_t\<close>, which \<open>resize\<close> refuses.  The
  buffer keeps the size \<open>ioctl\<close> gave; bytes \<open>recvfrom\<close> does not store are zero.
\<close>

definition udp_receive_datagram ::
  "'s unix_calls \<Rightarrow> UnixUDPSocket \<Rightarrow> 's \<Rightarrow> (cpp_error + u8 list \<times> IPAddress) \<times> 's" where
  "udp_receive_datagram sys u s =
     (let ((r, packet_size), s1) = sys_fionread sys (us_socket u) s in
      if r < 0 then (Inl (system_error sys [] s1), s1)
      else if packet_size < 0 then (Inl (Length_error ''vector::_M_default_append''), s1)
      else
        (let n = nat packet_size; (d, s2) = sys_recvfrom sys (us_socket u) n s1;
             buffer = take n (dg_data d) @ replicate (n - length (dg_data d)) 0
         in if dg_size d < 0 then (Inl (system_error sys [] s2), s2)
            else if dg_size d > 0 \<and> dg_addrlen d \<le> 16 \<and> dg_inet d
            then (map_sum id (Pair buffer) (IPAddress_construct (ucast (dg_addr d)) (ucast (dg_port d))), s2)
            else (Inr no_datagram, s2)))"

definition udp_socket_receive ::
  "'s unix_calls \<Rightarrow> int \<Rightarrow> UnixUDPSocket \<Rightarrow> 's \<Rightarrow> (cpp_error + u8 list \<times> IPAddress) \<times> UnixUDPSocket \<times> 's" where
  "udp_socket_receive sys timeout u s =
     (let ((result, pollerr, pollin), s1) = sys_poll sys (us_socket u) (poll_timeout timeout) s in
      if result < 0 then (Inl (system_error sys [] s1), u, s1)
      else if result > 0 \<and> pollerr
      then (let s2 = snd (sys_close sys (us_socket u) s1); (r, u', s3) = create_socket sys u s2
            in (map_sum id (\<lambda>_. no_datagram) r, u', s3))
      else if result > 0 \<and> pollin
      then (let (r, s2) = udp_receive_datagram sys u s1 in (r, u, s2))
      else (Inr no_datagram, u, s1))"

text \<open>\<open>print_\<close>; a line ends with \<open>std::endl\<close>.\<close>

definition endl :: string where
  "endl = [CHR 0x0A]"

definition show_UnixUDPSocket :: "UnixUDPSocket \<Rightarrow> string" where
  "show_UnixUDPSocket u =
     ''udp {'' @ endl @ ''    port '' @ show_nat (unat (us_port u)) @ '';'' @ endl @
     (case us_address u of
        Some a \<Rightarrow> ''    address '' @ show_IPAddress a @ '';'' @ endl
      | None \<Rightarrow> []) @
     (if us_max_bitrate u \<noteq> 0
      then ''    max_bitrate '' @ show_nat (unat (us_max_bitrate u)) @ '';'' @ endl else []) @
     ''}''"

section \<open>UnixSerialPort\<close>

text \<open>The feature flag, and the flags of \<open>termios\<close> as Linux defines them.\<close>

definition FLOW_CONTROL :: u32 where
  "FLOW_CONTROL = 1"

definition CLOCAL :: u32 where "CLOCAL = 0x800"
definition CREAD :: u32 where "CREAD = 0x80"
definition PARENB :: u32 where "PARENB = 0x100"
definition CSTOPB :: u32 where "CSTOPB = 0x40"
definition CSIZE :: u32 where "CSIZE = 0x30"
definition CS8 :: u32 where "CS8 = 0x30"
definition CRTSCTS :: u32 where "CRTSCTS = 0x80000000"
definition ICANON :: u32 where "ICANON = 2"
definition ECHO :: u32 where "ECHO = 8"
definition ECHOE :: u32 where "ECHOE = 16"
definition ISIG :: u32 where "ISIG = 1"
definition IGNBRK :: u32 where "IGNBRK = 1"
definition BRKINT :: u32 where "BRKINT = 2"
definition PARMRK :: u32 where "PARMRK = 8"
definition ISTRIP :: u32 where "ISTRIP = 0x20"
definition INLCR :: u32 where "INLCR = 0x40"
definition IGNCR :: u32 where "IGNCR = 0x80"
definition ICRNL :: u32 where "ICRNL = 0x100"
definition IXON :: u32 where "IXON = 0x400"
definition IXOFF :: u32 where "IXOFF = 0x1000"
definition IXANY :: u32 where "IXANY = 0x800"
definition OPOST :: u32 where "OPOST = 1"

lemmas termios_flags = FLOW_CONTROL_def CLOCAL_def CREAD_def PARENB_def CSTOPB_def CSIZE_def CS8_def
  CRTSCTS_def ICANON_def ECHO_def ECHOE_def ISIG_def IGNBRK_def BRKINT_def PARMRK_def ISTRIP_def
  INLCR_def IGNCR_def ICRNL_def IXON_def IXOFF_def IXANY_def OPOST_def

record UnixSerialPort =
  sp_device :: string
  sp_baud_rate :: u64
  sp_features :: u32
  sp_port :: int

text \<open>\<open>speed_constant_\<close>, with the constants of Linux.\<close>

definition speed_table :: "(u64 \<times> u32) list" where
  "speed_table =
     [(0, 0), (50, 1), (75, 2), (110, 3), (134, 4), (135, 4), (150, 5), (200, 6), (300, 7), (600, 8),
      (1200, 9), (1800, 10), (2400, 11), (4800, 12), (9600, 13), (19200, 14), (38400, 15),
      (57600, 0x1001), (115200, 0x1002), (230400, 0x1003)]"

definition speed_constant :: "u64 \<Rightarrow> cpp_error + u32" where
  "speed_constant baud_rate =
     (case map_of speed_table baud_rate of
        Some b \<Rightarrow> Inr b
      | None \<Rightarrow> Inl (Invalid_argument (show_nat (unat baud_rate) @ '' bps is not a valid baud rate.'')))"

text \<open>
  The attributes \<open>configure_port_\<close> sets, one assignment after the other.  The two speeds are the fields
  that \<open>cfsetispeed\<close> and \<open>cfsetospeed\<close> set; a C library that also encodes the speed in spare bits of the
  other flags does so in bits that the code below does not touch.
\<close>

definition raw_attributes :: "u32 \<Rightarrow> u32 \<Rightarrow> termios \<Rightarrow> termios" where
  "raw_attributes speed features tty0 =
     (let tty = tty0\<lparr>c_ispeed := speed, c_ospeed := speed\<rparr>;
          cflag = c_cflag tty OR (CLOCAL OR CREAD);
          cflag = cflag AND NOT PARENB;
          cflag = cflag AND NOT CSTOPB;
          cflag = cflag AND NOT CSIZE;
          cflag = cflag OR CS8;
          cflag = (if features AND FLOW_CONTROL \<noteq> 0 then cflag OR CRTSCTS else cflag AND NOT CRTSCTS);
          lflag = c_lflag tty AND NOT (ICANON OR ECHO OR ECHOE OR ISIG);
          iflag = c_iflag tty AND NOT (IGNBRK OR BRKINT OR PARMRK OR ISTRIP);
          iflag = iflag AND NOT (INLCR OR IGNCR OR ICRNL);
          iflag = iflag AND NOT (IXON OR IXOFF OR IXANY);
          oflag = c_oflag tty AND NOT OPOST
      in tty\<lparr>c_cflag := cflag, c_lflag := lflag, c_iflag := iflag, c_oflag := oflag, c_vmin := 0, c_vtime := 0\<rparr>)"

text \<open>\<open>cfsetispeed\<close> and \<open>cfsetospeed\<close> fail only for a speed that is no constant.\<close>

definition configure_port ::
  "'s unix_calls \<Rightarrow> u64 \<Rightarrow> u32 \<Rightarrow> UnixSerialPort \<Rightarrow> 's \<Rightarrow> (cpp_error + unit) \<times> 's" where
  "configure_port sys baud_rate features p s =
     (let ((r, tty), s1) = sys_tcgetattr sys (sp_port p) s in
      if r < 0 then (Inl (system_error sys [] s1), s1)
      else
        (case speed_constant baud_rate of
           Inl e \<Rightarrow> (Inl e, s1)
         | Inr speed \<Rightarrow>
             (let (r, s2) = sys_tcsetattr sys (sp_port p) (raw_attributes speed features tty) s1
              in if r < 0 then (Inl (system_error sys [] s2), s2) else (Inr (), s2))))"

definition open_port ::
  "'s unix_calls \<Rightarrow> UnixSerialPort \<Rightarrow> 's \<Rightarrow> (cpp_error + unit) \<times> UnixSerialPort \<times> 's" where
  "open_port sys p s =
     (let (fd, s1) = sys_open sys (sp_device p) s; p1 = p\<lparr>sp_port := fd\<rparr> in
      if fd < 0
      then (Inl (system_error sys (''Failed to open '' @ [CHR 0x22] @ sp_device p @ [CHR 0x22, CHR ''.'']) s1), p1, s1)
      else
        (case configure_port sys (sp_baud_rate p) (sp_features p) p1 s1 of
           (Inl e, s2) \<Rightarrow> (Inl e, p1, snd (sys_close sys fd s2))
         | (Inr _, s2) \<Rightarrow> (Inr (), p1, s2)))"

definition UnixSerialPort_construct ::
  "'s unix_calls \<Rightarrow> string \<Rightarrow> u64 \<Rightarrow> u32 \<Rightarrow> 's \<Rightarrow> (cpp_error + UnixSerialPort) \<times> 's" where
  "UnixSerialPort_construct sys device baud_rate features s =
     (case open_port sys \<lparr>sp_device = device, sp_baud_rate = baud_rate, sp_features = features, sp_port = -1\<rparr> s of
        (Inl e, p, s1) \<Rightarrow> (Inl e, s1)
      | (Inr _, p, s1) \<Rightarrow> (Inr p, s1))"

definition UnixSerialPort_destroy :: "'s unix_calls \<Rightarrow> UnixSerialPort \<Rightarrow> 's \<Rightarrow> 's" where
  "UnixSerialPort_destroy sys p s = snd (sys_close sys (sp_port p) s)"

text \<open>\<open>read_\<close>: at most 1024 bytes, cut or filled with zeros to the number \<open>read\<close> returned.\<close>

definition serial_read_available :: "'s unix_calls \<Rightarrow> UnixSerialPort \<Rightarrow> 's \<Rightarrow> (cpp_error + u8 list) \<times> 's" where
  "serial_read_available sys p s =
     (let ((n, data), s1) = sys_read sys (sp_port p) 1024 s in
      if n < 0 then (Inl (system_error sys [] s1), s1)
      else (Inr (take (nat n) (data @ replicate (nat n - length data) 0)), s1))"

definition serial_port_read ::
  "'s unix_calls \<Rightarrow> int \<Rightarrow> UnixSerialPort \<Rightarrow> 's \<Rightarrow> (cpp_error + u8 list) \<times> UnixSerialPort \<times> 's" where
  "serial_port_read sys timeout p s =
     (let ((result, pollerr, pollin), s1) = sys_poll sys (sp_port p) (poll_timeout timeout) s in
      if result < 0 then (Inl (system_error sys [] s1), p, s1)
      else if result > 0 \<and> pollerr
      then (let s2 = snd (sys_close sys (sp_port p) s1); (r, p', s3) = open_port sys p s2
            in (map_sum id (\<lambda>_. []) r, p', s3))
      else if result > 0 \<and> pollin
      then (let (r, s2) = serial_read_available sys p s1 in (r, p, s2))
      else (Inr [], p, s1))"

definition serial_port_write ::
  "'s unix_calls \<Rightarrow> u8 list \<Rightarrow> UnixSerialPort \<Rightarrow> 's \<Rightarrow> (cpp_error + unit) \<times> 's" where
  "serial_port_write sys data p s =
     (let (err, s1) = sys_write sys (sp_port p) data s in
      if err < 0 then (Inl (system_error sys [] s1), s1)
      else if nat err < length data
      then (Inl (PartialSendError (word_of_int err) (of_nat (length data))), s1)
      else (Inr (), s1))"

definition PartialSendError_what :: "u64 \<Rightarrow> u64 \<Rightarrow> string" where
  "PartialSendError_what bytes_sent total_bytes =
     ''Could only write '' @ show_nat (unat bytes_sent) @ '' of '' @ show_nat (unat total_bytes) @ '' bytes.''"

definition show_UnixSerialPort :: "UnixSerialPort \<Rightarrow> string" where
  "show_UnixSerialPort p =
     ''serial {'' @ endl @ ''    device '' @ sp_device p @ '';'' @ endl @
     ''    baudrate '' @ show_nat (unat (sp_baud_rate p)) @ '';'' @ endl @
     (if sp_features p AND FLOW_CONTROL \<noteq> 0
      then ''    flow_control yes;'' @ endl else ''    flow_control no;'' @ endl) @
     ''}''"


section \<open>The rate limiter over a history\<close>

text \<open>
  A history of calls of \<open>send\<close>: when each call reads the clock and how many bytes it sends.  The
  packets leave when the sleep is over; no call begins before the packet of the one before it left.
\<close>

definition departure :: "int \<Rightarrow> nat \<Rightarrow> UnixUDPSocket \<Rightarrow> int" where
  "departure now n u = now + (case fst (rate_limit now n u) of Some d \<Rightarrow> d | None \<Rightarrow> 0)"

fun departures :: "UnixUDPSocket \<Rightarrow> (int \<times> nat) list \<Rightarrow> int list" where
  "departures u [] = []"
| "departures u ((now, n) # h) = departure now n u # departures (snd (rate_limit now n u)) h"

fun paced :: "UnixUDPSocket \<Rightarrow> (int \<times> nat) list \<Rightarrow> bool" where
  "paced u ((now, n) # (now', n') # h) \<longleftrightarrow>
     departure now n u \<le> now' \<and> paced (snd (rate_limit now n u)) ((now', n') # h)"
| "paced u h \<longleftrightarrow> True"

definition total_cost :: "u64 \<Rightarrow> (int \<times> nat) list \<Rightarrow> int" where
  "total_cost r h = sum_list (map (\<lambda>(now, n). send_cost r n) h)"

lemma departure_max: "departure now n u = max now (us_next_time u)"
  by (simp add: departure_def rate_limit_def)

lemma rate_limit_simps [simp]:
  "us_next_time (snd (rate_limit now n u)) = now + send_cost (us_max_bitrate u) n"
  "us_max_bitrate (snd (rate_limit now n u)) = us_max_bitrate u"
  by (simp_all add: rate_limit_def)

lemma departures_bound:
  assumes "paced u ((now, n) # h)"
  shows "total_cost (us_max_bitrate u) (butlast ((now, n) # h)) + departure now n u + now
    \<le> 2 * last (departures u ((now, n) # h))"
  using assms
proof (induction h arbitrary: u now n)
  case Nil
  then show ?case by (simp add: total_cost_def departure_max)
next
  case (Cons x h)
  obtain now' n' where x: "x = (now', n')" by (cases x)
  let ?u = "snd (rate_limit now n u)"
  have "total_cost (us_max_bitrate u) (butlast (x # h)) + departure now' n' ?u + now'
      \<le> 2 * last (departures ?u (x # h))"
    using Cons.IH [of ?u now' n'] Cons.prems by (simp add: x)
  moreover have "now + send_cost (us_max_bitrate u) n \<le> departure now' n' ?u"
    by (simp add: departure_max)
  moreover have "departure now n u \<le> now'" using Cons.prems by (simp add: x)
  moreover have "total_cost (us_max_bitrate u) (butlast ((now, n) # x # h)) =
      send_cost (us_max_bitrate u) n + total_cost (us_max_bitrate u) (butlast (x # h))"
    by (simp add: total_cost_def)
  ultimately show ?case by (simp add: x)
qed

text \<open>A sender that always has a packet of \<open>n\<close> bytes: it calls again as soon as the last packet left.\<close>

fun saturated :: "UnixUDPSocket \<Rightarrow> int \<Rightarrow> nat \<Rightarrow> nat \<Rightarrow> int list" where
  "saturated u now n 0 = []"
| "saturated u now n (Suc k) =
     departure now n u # saturated (snd (rate_limit now n u)) (departure now n u) n k"

lemma send_cost_nonneg: "0 \<le> send_cost r n"
  by (simp add: send_cost_def)

lemma saturated_nth:
  assumes "us_next_time u \<le> now" "i < k"
  shows "saturated u now n k ! i = now + int ((i + 1) div 2) * send_cost (us_max_bitrate u) n"
  using assms
proof (induction k arbitrary: u now i rule: less_induct)
  case (less k)
  let ?d = "send_cost (us_max_bitrate u) n"
  note d = send_cost_nonneg [of "us_max_bitrate u" n]
  let ?u1 = "snd (rate_limit now n u)"
  let ?u2 = "snd (rate_limit now n ?u1)"
  consider "k = 1" | m where "k = Suc (Suc m)"
    using less.prems(2) by (cases k; cases "k - 1") auto
  then show ?case
  proof cases
    case 1
    then show ?thesis using less.prems by (simp add: departure_max)
  next
    case 2
    have step: "saturated u now n k = now # (now + ?d) # saturated ?u2 (now + ?d) n m"
      using less.prems(1) d by (simp add: 2 departure_max max_absorb1 max_absorb2)
    consider "i = 0" | "i = 1" | j where "i = Suc (Suc j)" "j < m"
      using less.prems(2) 2 by (cases i; cases "i - 1") auto
    then show ?thesis
    proof cases
      case 3
      have "saturated ?u2 (now + ?d) n m ! j = (now + ?d) + int ((j + 1) div 2) * ?d"
        using less.IH [of m ?u2 "now + ?d" j] 2 3 by simp
      moreover have "int ((i + 1) div 2) * ?d = ?d + int ((j + 1) div 2) * ?d"
        using 3(1) by (simp add: algebra_simps)
      ultimately show ?thesis unfolding step using 3(1) by simp
    qed (use step in simp_all)
  qed
qed

section \<open>Properties\<close>

text \<open>The bytes of a history, and how much of the time they take the division cuts off: less than a microsecond each.\<close>

definition total_bytes :: "(int \<times> nat) list \<Rightarrow> nat" where
  "total_bytes h = sum_list (map snd h)"

lemma send_cost_bits:
  assumes "r \<noteq> 0" "8000000 * n < 2 ^ 64"
  shows "8000000000 * int n \<le> int (unat r) * (send_cost r n + 1000)"
proof -
  let ?x = "8000000 * n" and ?r = "unat r"
  have r: "0 < ?r" using assms(1) by (simp add: unat_gt_0)
  have "unat (1000 * 1000 * of_nat n * 8 :: u64) = ?x"
  proof -
    have "(1000 * 1000 * of_nat n * 8 :: u64) = of_nat ?x" by (simp add: mult.commute mult.left_commute)
    also have "unat \<dots> = ?x" using assms(2) by (simp add: unsigned_of_nat take_bit_nat_eq_self del: of_nat_mult)
    finally show ?thesis .
  qed
  then have cost: "send_cost r n = int (?x div ?r) * 1000" by (simp add: send_cost_def unat_div)
  have "?x \<le> ?r * (?x div ?r + 1)"
  proof -
    have "?r * (?x div ?r) + ?x mod ?r = ?x" by (rule mult_div_mod_eq)
    then show ?thesis using mod_less_divisor [OF r, of ?x] unfolding distrib_left by linarith
  qed
  then have "int ?x \<le> int ?r * (int (?x div ?r) + 1)" by (metis of_nat_1 of_nat_add of_nat_le_iff of_nat_mult)
  then show ?thesis unfolding cost by (simp add: algebra_simps)
qed

lemma total_cost_bits:
  assumes "r \<noteq> 0" "\<forall>(now, n) \<in> set h. 8000000 * n < 2 ^ 64"
  shows "8000000000 * int (total_bytes h) \<le> int (unat r) * (total_cost r h + 1000 * int (length h))"
  using assms(2)
proof (induction h)
  case (Cons x h)
  obtain now n where x: "x = (now, n)" by (cases x)
  have "8000000 * n < 2 ^ 64" using Cons.prems by (simp add: x)
  from send_cost_bits [OF assms(1) this] Cons.IH Cons.prems show ?case
    by (simp add: x total_bytes_def total_cost_def algebra_simps)
qed (simp add: total_bytes_def total_cost_def)

text \<open>C34: whatever is sent, and whenever, the rate limiter lets through at most twice the configured
  bit rate: the bits of all packets (8 for each byte; times in nanoseconds) are at most what the bit
  rate allows for twice the time between the first call and the departure of the last packet, with the
  bits of that packet and those of one more microsecond for each packet before it, which
  the division cuts off.  The bit rate is set, and no packet is so long that the product wraps.\<close>

theorem rate_limit_bound:
  assumes "paced u h" "h \<noteq> []" "us_max_bitrate u \<noteq> 0" "\<forall>(now, n) \<in> set h. 8000000 * n < 2 ^ 64"
  shows "1000000000 * (8 * int (total_bytes h)) \<le>
    int (unat (us_max_bitrate u)) *
      (2 * (last (departures u h) - fst (hd h)) + 1000 * (int (length h) - 1)) +
    1000000000 * (8 * int (snd (last h)))"
proof -
  let ?r = "us_max_bitrate u" and ?t = "last (departures u h) - fst (hd h)"
  obtain now n h' where h: "h = (now, n) # h'" using assms(2) by (cases h) auto
  have "now \<le> departure now n u" by (simp add: departure_max)
  then have cost: "total_cost ?r (butlast h) \<le> 2 * ?t" using departures_bound [of u now n h'] assms(1) by (simp add: h)
  have split: "total_bytes h = total_bytes (butlast h) + snd (last h)"
    using arg_cong [OF append_butlast_last_id [OF assms(2)], of total_bytes] by (simp add: total_bytes_def)
  have "\<forall>(now, n) \<in> set (butlast h). 8000000 * n < 2 ^ 64" using assms(4) in_set_butlastD by fastforce
  from total_cost_bits [OF assms(3) this]
  have "8000000000 * int (total_bytes (butlast h)) \<le> int (unat ?r) * (total_cost ?r (butlast h) + 1000 * (int (length h) - 1))"
    using assms(2) by (simp add: of_nat_diff Suc_leI)
  also have "\<dots> \<le> int (unat ?r) * (2 * ?t + 1000 * (int (length h) - 1))"
    using cost by (intro mult_left_mono) simp_all
  finally show ?thesis using split by (simp add: algebra_simps)
qed

text \<open>C37: and it does let through twice the bit rate: \<open>next_time_\<close> is counted from the reading of the
  clock before the sleep, so a sender that always has a packet waiting sends two packets in the
  time one may take.\<close>

theorem rate_limit_doubled:
  assumes "us_next_time u \<le> now" "i < k"
  shows "saturated u now n k ! i = now + int ((i + 1) div 2) * send_cost (us_max_bitrate u) n"
  by (rule saturated_nth [OF assms])

text \<open>
  A serial port that was configured without an error is in raw mode with eight data bits, no
  parity and one stop bit, does not block, runs at the speed of the configured baud rate in both
  directions, and has hardware flow control exactly when the feature is set, whatever its attributes
  were before.\<close>

lemma serial_raw_mode:
  assumes "configure_port sys baud features p s = (Inr (), s')"
  shows "\<exists>r old s0 r' tty speed. sys_tcgetattr sys (sp_port p) s = ((r, old), s0) \<and> 0 \<le> r \<and>
    sys_tcsetattr sys (sp_port p) tty s0 = (r', s') \<and> 0 \<le> r' \<and>
    map_of speed_table baud = Some speed \<and> c_ispeed tty = speed \<and> c_ospeed tty = speed \<and>
    c_cflag tty AND CSIZE = CS8 \<and> c_cflag tty AND (PARENB OR CSTOPB) = 0 \<and>
    c_cflag tty AND (CLOCAL OR CREAD) = CLOCAL OR CREAD \<and>
    (c_cflag tty AND CRTSCTS \<noteq> 0 \<longleftrightarrow> features AND FLOW_CONTROL \<noteq> 0) \<and>
    c_lflag tty AND (ICANON OR ECHO OR ECHOE OR ISIG) = 0 \<and>
    c_iflag tty AND (IGNBRK OR BRKINT OR PARMRK OR ISTRIP OR INLCR OR IGNCR OR ICRNL OR IXON OR IXOFF OR IXANY) = 0 \<and>
    c_oflag tty AND OPOST = 0 \<and> c_vmin tty = 0 \<and> c_vtime tty = 0"
proof -
  obtain r old s0 where g: "sys_tcgetattr sys (sp_port p) s = ((r, old), s0)"
    by (metis prod.exhaust)
  obtain speed r' where speed: "map_of speed_table baud = Some speed"
      and set: "0 \<le> r" "sys_tcsetattr sys (sp_port p) (raw_attributes speed features old) s0 = (r', s')" "0 \<le> r'"
    using assms g
    by (cases "map_of speed_table baud")
      (auto simp: configure_port_def speed_constant_def split: if_splits prod.splits)
  let ?tty = "raw_attributes speed features old"
  have cflag: "c_cflag ?tty AND CSIZE = CS8" "c_cflag ?tty AND (PARENB OR CSTOPB) = 0"
      "c_cflag ?tty AND (CLOCAL OR CREAD) = CLOCAL OR CREAD"
      "c_cflag ?tty AND CRTSCTS \<noteq> 0 \<longleftrightarrow> features AND FLOW_CONTROL \<noteq> 0"
    by (simp_all add: raw_attributes_def termios_flags Let_def bit.conj_disj_distrib2 and.assoc)
  have others: "c_lflag ?tty AND (ICANON OR ECHO OR ECHOE OR ISIG) = 0"
      "c_iflag ?tty AND (IGNBRK OR BRKINT OR PARMRK OR ISTRIP OR INLCR OR IGNCR OR ICRNL OR IXON OR IXOFF OR IXANY) = 0"
      "c_oflag ?tty AND OPOST = 0" "c_vmin ?tty = 0" "c_vtime ?tty = 0" "c_ispeed ?tty = speed" "c_ospeed ?tty = speed"
    by (simp_all add: raw_attributes_def termios_flags Let_def and.assoc)
  show ?thesis
    using g speed set cflag others
    by (intro exI [of _ r] exI [of _ old] exI [of _ s0] exI [of _ r'] exI [of _ ?tty] exI [of _ speed]) simp
qed

text \<open>When a serial port is opened again after an error and cannot be configured, the new
  descriptor is closed but stays in \<open>port_\<close>, so the destructor closes the same number a second time,
  by when another thread may have opened something under it.\<close>

theorem serial_reopen_closes_twice:
  assumes "sys_poll sys (sp_port p) (poll_timeout timeout) s = ((r, True, pollin), s1)" "r > 0"
    "sys_open sys (sp_device p) (snd (sys_close sys (sp_port p) s1)) = (fd, s2)" "0 \<le> fd"
    "configure_port sys (sp_baud_rate p) (sp_features p) (p\<lparr>sp_port := fd\<rparr>) s2 = (Inl e, s3)"
  shows "\<exists>p' s'. serial_port_read sys timeout p s = (Inl e, p', s') \<and> s' = snd (sys_close sys fd s3) \<and>
    UnixSerialPort_destroy sys p' s' = snd (sys_close sys fd s')"
  using assms by (simp add: serial_port_read_def open_port_def UnixSerialPort_destroy_def Let_def)

text \<open>A datagram of which the system call takes only a part counts as sent: unlike
  \<open>UnixSerialPort::write\<close>, which throws \<open>PartialSendError\<close> for every short write,
  \<open>UnixUDPSocket::send\<close> does not look at the number of bytes.\<close>

theorem udp_send_partial_silent:
  assumes "us_max_bitrate u = 0"
    "sys_sendto sys (us_socket u) data (ucast (ip_port a)) (ucast (ip_address a)) s = (n, s1)"
    "sys_write sys (sp_port p) data s = (n, s2)" "0 \<le> n" "nat n < length data"
  shows "udp_socket_send sys data a u s = (Inr (), u, s1) \<and>
    serial_port_write sys data p s = (Inl (PartialSendError (word_of_int n) (of_nat (length data))), s2)"
  using assms by (simp add: udp_socket_send_def serial_port_write_def)

section \<open>A concrete operating system\<close>

text \<open>Its state is the list of the descriptors closed; reading the attributes of a port fails.\<close>

definition sample_os :: "int list unix_calls" where
  "sample_os = \<lparr>sys_errno = (\<lambda>_. 5), sys_close = (\<lambda>fd s. (0, s @ [fd])),
     sys_poll = (\<lambda>fd t s. ((1, True, False), s)), sys_socket = (\<lambda>s. (3, s)),
     sys_bind = (\<lambda>fd p a s. (0, s)), sys_fionread = (\<lambda>fd s. ((0, 0), s)),
     sys_recvfrom = (\<lambda>fd n s. (\<lparr>dg_size = 0, dg_data = [], dg_addrlen = 16, dg_inet = True,
        dg_addr = 0, dg_port = 0\<rparr>, s)),
     sys_sendto = (\<lambda>fd d p a s. (1, s)), sys_open = (\<lambda>f s. (7, s)), sys_read = (\<lambda>fd n s. ((0, []), s)),
     sys_write = (\<lambda>fd d s. (1, s)),
     sys_tcgetattr = (\<lambda>fd s. ((-1, \<lparr>c_iflag = 0, c_oflag = 0, c_cflag = 0, c_lflag = 0, c_vmin = 0,
        c_vtime = 0, c_ispeed = 0, c_ospeed = 0\<rparr>), s)),
     sys_tcsetattr = (\<lambda>fd t s. (0, s)), sys_now = (\<lambda>s. (0, s)), sys_sleep = (\<lambda>d s. s)\<rparr>"

definition sample_port :: UnixSerialPort where
  "sample_port = \<lparr>sp_device = ''/dev/ttyUSB0'', sp_baud_rate = 57600, sp_features = 0, sp_port = 4\<rparr>"

definition sample_socket :: "u64 \<Rightarrow> UnixUDPSocket" where
  "sample_socket max_bitrate =
     \<lparr>us_port = 14500, us_address = None, us_max_bitrate = max_bitrate, us_socket = 3, us_next_time = 0\<rparr>"

lemma sample_cost: "send_cost 8000000 100 = 100000"
  by (simp add: send_cost_def)

theorem rate_limit_bound_witness:
  "1000000000 * (8 * int 300) \<le> 8000000 * (2 * (100000 - 0) + 1000 * (int 3 - 1)) + 1000000000 * (8 * int 100) \<and>
     last (departures (sample_socket 8000000) [(0, 100), (0, 100), (100000, 100)]) = 100000"
  using rate_limit_bound [of "sample_socket 8000000" "[(0, 100), (0, 100), (100000, 100)]"]
  by (simp add: departure_max sample_cost sample_socket_def rate_limit_def total_bytes_def)

theorem rate_limit_doubled_witness:
  "saturated (sample_socket 8000000) 0 100 9 ! 8 = 4 * 100000"
  using rate_limit_doubled [of "sample_socket 8000000" 0 8 9 100]
  by (simp add: sample_socket_def sample_cost)

theorem serial_raw_mode_witness:
  "\<exists>tty. snd (sys_tcsetattr (sample_os\<lparr>sys_tcgetattr := (\<lambda>fd s. ((0, snd (fst (sys_tcgetattr sample_os fd s))), s))\<rparr>) 4 tty [])
      = [] \<and> c_cflag tty AND CSIZE = CS8 \<and> c_cflag tty AND CRTSCTS = 0"
proof -
  let ?os = "sample_os\<lparr>sys_tcgetattr := (\<lambda>fd s. ((0, snd (fst (sys_tcgetattr sample_os fd s))), s))\<rparr>"
  have "configure_port ?os 57600 0 sample_port [] = (Inr (), [])"
    by (simp add: configure_port_def speed_constant_def speed_table_def sample_os_def)
  from serial_raw_mode [OF this] show ?thesis
    by (auto simp: sample_port_def sample_os_def)
qed

theorem serial_reopen_closes_twice_witness:
  "\<exists>p'. serial_port_read sample_os 0 sample_port [] = (Inl (System_error 5 []), p', [4, 7]) \<and>
    UnixSerialPort_destroy sample_os p' [4, 7] = [4, 7, 7]"
proof -
  have os: "sys_poll sample_os (sp_port sample_port) (poll_timeout 0) [] = ((1, True, False), [])"
      "sys_open sample_os (sp_device sample_port) (snd (sys_close sample_os (sp_port sample_port) [])) = (7, [4])"
      "configure_port sample_os (sp_baud_rate sample_port) (sp_features sample_port) (sample_port\<lparr>sp_port := 7\<rparr>) [4] =
         (Inl (System_error 5 []), [4])"
      "snd (sys_close sample_os 7 [4]) = [4, 7]" "snd (sys_close sample_os 7 [4, 7]) = [4, 7, 7]"
    by (simp_all add: sample_os_def sample_port_def configure_port_def system_error_def)
  show ?thesis using serial_reopen_closes_twice [OF os(1) _ os(2) _ os(3)] os(4,5) by auto
qed

theorem udp_send_partial_silent_witness:
  "udp_socket_send sample_os [1, 2, 3] (MkIPAddress 0x7F000001 14500) (sample_socket 0) [] = (Inr (), sample_socket 0, []) \<and>
   serial_port_write sample_os [1, 2, 3] sample_port [] = (Inl (PartialSendError 1 3), [])"
  using udp_send_partial_silent [of "sample_socket 0" sample_os "[1, 2, 3]" "MkIPAddress 0x7F000001 14500" "[]" 1 "[]"
      sample_port "[]"]
  by (simp add: sample_os_def sample_socket_def)


end
