(* ===== verification/ConfigFilter.thy ===== *)
theory ConfigFilter
  imports FilterRules
begin

text \<open>
  The syntax tree of a configuration file and the firewall that \<open>ConfigParser\<close> builds from it:
  \<open>init_chains\<close>, \<open>parse_condition\<close>, \<open>parse_action\<close>, \<open>parse_chain\<close>, \<open>parse_filter\<close>, and the printing of the
  tree.  The chains live in a list, as in the theory of the filter; the default chain has the
  number 0, and the \<open>std::map\<close> of the other chains is a map from names to numbers.
\<close>

section \<open>Steps that may throw\<close>

definition sum_bind :: "'e + 'a \<Rightarrow> ('a \<Rightarrow> 'e + 'b) \<Rightarrow> 'e + 'b" where
  "sum_bind m f = (case m of Inl e \<Rightarrow> Inl e | Inr x \<Rightarrow> f x)"

lemma sum_bind_simps [simp]: "sum_bind (Inl e) f = Inl e" "sum_bind (Inr x) f = f x"
  by (simp_all add: sum_bind_def)

lemma sum_bind_Inr: "sum_bind m f = Inr y \<longleftrightarrow> (\<exists>x. m = Inr x \<and> f x = Inr y)"
  by (cases m) simp_all

lemma sum_bind_assoc: "sum_bind (sum_bind m f) g = sum_bind m (\<lambda>x. sum_bind (f x) g)"
  by (cases m) simp_all

section \<open>The syntax tree\<close>

text \<open>
  A node other than the root: the name of its grammar rule, the line it begins at, its content,
  which \<open>remove_content\<close> takes away, and its children.  The root is the list of its children.
\<close>

datatype node = Node (node_name: string) (node_line: nat) (node_text: "string option") (node_children: "node list")

text \<open>\<open>content()\<close> of a node without content builds a string from a null pointer.\<close>

definition content :: "node \<Rightarrow> cpp_error + string" where
  "content n =
     (case node_text n of
        Some t \<Rightarrow> Inr t
      | None \<Rightarrow> Inl (Undefined_behaviour ''content of a node without content''))"

section \<open>Rules\<close>

text \<open>The loop of \<open>parse_condition\<close>; \<open>tok\<close> is the tokenizer behind \<open>MAVSubnet\<close>.\<close>

fun condition_options :: "mavlink_lib \<Rightarrow> (string \<Rightarrow> string list) \<Rightarrow> node list \<Rightarrow> If \<Rightarrow> cpp_error + If" where
  "condition_options ml tok [] c = Inr c"
| "condition_options ml tok (child # ns) c =
     sum_bind
       (if node_name child = ''config::packet_type''
        then sum_bind (content child) (\<lambda>t. If_type_name ml t c)
        else if node_name child = ''config::source''
        then sum_bind (content child) (\<lambda>t. If_from_string tok t c)
        else if node_name child = ''config::dest''
        then sum_bind (content child) (\<lambda>t. If_to_string tok t c)
        else Inr c)
       (condition_options ml tok ns)"

definition parse_condition :: "mavlink_lib \<Rightarrow> (string \<Rightarrow> string list) \<Rightarrow> node \<Rightarrow> cpp_error + If" where
  "parse_condition ml tok root =
     sum_bind (If_construct ml None None None) (condition_options ml tok (node_children root))"

text \<open>\<open>chains.at(name)\<close>\<close>

definition map_at :: "(string \<rightharpoonup> 'a) \<Rightarrow> string \<Rightarrow> cpp_error + 'a" where
  "map_at m k = (case m k of Some v \<Rightarrow> Inr v | None \<Rightarrow> Inl (Out_of_range ''map::at''))"

definition parse_action ::
  "node \<Rightarrow> int option \<Rightarrow> If option \<Rightarrow> (string \<rightharpoonup> chain_ref) \<Rightarrow> cpp_error + Rule" where
  "parse_action root priority condition chs =
     (if node_name root = ''config::accept''
      then (case priority of
              Some p \<Rightarrow> Inr (Accept (Some p) condition)
            | None \<Rightarrow> Inr (Accept None condition))
      else if node_name root = ''config::reject''
      then Inr (Reject condition)
      else if node_name root = ''config::call''
      then sum_bind (content root) (\<lambda>t.
             if t = ''default'' then Inl (Invalid_argument ''cannot 'call' the default chain'')
             else
               (case priority of
                  Some p \<Rightarrow> sum_bind (map_at chs t) (\<lambda>r. Call_construct (Some r) (Some p) condition)
                | None \<Rightarrow> sum_bind (map_at chs t) (\<lambda>r. Call_construct (Some r) None condition)))
      else if node_name root = ''config::goto_''
      then sum_bind (content root) (\<lambda>t.
             if t = ''default'' then Inl (Invalid_argument ''cannot 'goto' the default chain'')
             else
               (case priority of
                  Some p \<Rightarrow> sum_bind (map_at chs t) (\<lambda>r. GoTo_construct (Some r) (Some p) condition)
                | None \<Rightarrow> sum_bind (map_at chs t) (\<lambda>r. GoTo_construct (Some r) None condition)))
      else Inl (Runtime_error (''unknown action '' @ node_name root)))"

text \<open>The inner loop of \<open>parse_chain\<close>: the priority and the condition of one rule.\<close>

fun rule_options ::
  "mavlink_lib \<Rightarrow> (string \<Rightarrow> string list) \<Rightarrow> node list \<Rightarrow> int option \<Rightarrow> If option \<Rightarrow>
   cpp_error + (int option \<times> If option)" where
  "rule_options ml tok [] priority condition = Inr (priority, condition)"
| "rule_options ml tok (child # ns) priority condition =
     (if node_name child = ''config::priority''
      then sum_bind (sum_bind (content child) stoi) (\<lambda>p. rule_options ml tok ns (Some p) condition)
      else if node_name child = ''config::condition''
      then sum_bind (parse_condition ml tok child) (\<lambda>c. rule_options ml tok ns priority (Some c))
      else rule_options ml tok ns priority condition)"

text \<open>
  \<open>parse_chain\<close>: the chain is the one with the number \<open>r\<close> in the list; each rule is appended as soon
  as it is made.
\<close>

fun parse_rules ::
  "mavlink_lib \<Rightarrow> (string \<Rightarrow> string list) \<Rightarrow> (string \<rightharpoonup> chain_ref) \<Rightarrow> chain_ref \<Rightarrow> node list \<Rightarrow> Chain list \<Rightarrow>
   cpp_error + Chain list" where
  "parse_rules ml tok chs r [] cs = Inr cs"
| "parse_rules ml tok chs r (n # ns) cs =
     sum_bind (rule_options ml tok (node_children n) None None) (\<lambda>(priority, condition).
       sum_bind (parse_action n priority condition chs) (\<lambda>rule.
         parse_rules ml tok chs r ns (cs[r := chain_append rule (cs ! r)])))"

definition parse_chain ::
  "mavlink_lib \<Rightarrow> (string \<Rightarrow> string list) \<Rightarrow> (string \<rightharpoonup> chain_ref) \<Rightarrow> chain_ref \<Rightarrow> node \<Rightarrow> Chain list \<Rightarrow>
   cpp_error + Chain list" where
  "parse_chain ml tok chs r root cs = parse_rules ml tok chs r (node_children root) cs"

section \<open>The filter\<close>

text \<open>
  \<open>init_chains\<close> makes an empty chain for every named block.  A second block of the same name makes a
  new chain, to which the name refers from then on; no rule has referred to the old one.
\<close>

fun init_chains ::
  "node list \<Rightarrow> (string \<rightharpoonup> chain_ref) \<Rightarrow> Chain list \<Rightarrow> cpp_error + ((string \<rightharpoonup> chain_ref) \<times> Chain list)" where
  "init_chains [] chs cs = Inr (chs, cs)"
| "init_chains (n # ns) chs cs =
     (case node_text n of
        Some t \<Rightarrow>
          if node_name n = ''config::chain'' \<and> t \<noteq> ''default''
          then sum_bind (Chain_construct t []) (\<lambda>c.
                 init_chains ns (chs(t \<mapsto> length cs)) (cs @ [c]))
          else init_chains ns chs cs
      | None \<Rightarrow> init_chains ns chs cs)"

text \<open>The loop of \<open>parse_filter\<close>; \<open>children[0]\<close> is not checked.\<close>

fun filter_blocks ::
  "mavlink_lib \<Rightarrow> (string \<Rightarrow> string list) \<Rightarrow> (string \<rightharpoonup> chain_ref) \<Rightarrow> node list \<Rightarrow> Chain list \<Rightarrow> bool \<Rightarrow>
   cpp_error + (Chain list \<times> bool)" where
  "filter_blocks ml tok chs [] cs default_action = Inr (cs, default_action)"
| "filter_blocks ml tok chs (n # ns) cs default_action =
     (if node_name n = ''config::chain''
      then sum_bind (content n) (\<lambda>t.
             sum_bind (if t = ''default'' then parse_chain ml tok chs 0 n cs
                       else sum_bind (map_at chs t) (\<lambda>r. parse_chain ml tok chs r n cs)) (\<lambda>cs'.
               filter_blocks ml tok chs ns cs' default_action))
      else if node_name n = ''config::default_action''
      then (case node_children n of
              [] \<Rightarrow> Inl (Undefined_behaviour ''operator[] past the end of a vector'')
            | child # _ \<Rightarrow> filter_blocks ml tok chs ns cs (node_name child = ''config::accept''))
      else filter_blocks ml tok chs ns cs default_action)"

text \<open>The constructor of \<open>Filter\<close> takes the default chain by value and copies it into its member.\<close>

definition Filter_construct :: "Chain list \<Rightarrow> bool \<Rightarrow> cpp_error + Filter" where
  "Filter_construct cs accept =
     sum_bind (chain_copy (cs ! 0)) (\<lambda>c1.
       sum_bind (chain_copy c1) (\<lambda>c2.
         Inr \<lparr>filter_chains = cs[0 := c2], default_chain = 0, accept_by_default = accept\<rparr>))"

definition parse_filter ::
  "mavlink_lib \<Rightarrow> (string \<Rightarrow> string list) \<Rightarrow> node list \<Rightarrow> cpp_error + Filter" where
  "parse_filter ml tok root =
     sum_bind (Chain_construct ''default'' []) (\<lambda>d.
       sum_bind (init_chains root (\<lambda>_. None) [d]) (\<lambda>(chs, cs).
         sum_bind (filter_blocks ml tok chs root cs False) (\<lambda>(cs', accept).
           Filter_construct cs' accept)))"

section \<open>Printing the tree\<close>

text \<open>
  \<open>print_node\<close>.  The first eight characters of the name go (\<open>erase\<close>), then underscores at both
  ends; \<open>substr\<close> throws when nothing is left, as \<open>begin\<close> is \<open>npos\<close> then.  Line numbers have at least
  three digits.
\<close>

definition printed_name :: "string \<Rightarrow> cpp_error + string" where
  "printed_name name =
     (let t = drop 8 name; u = dropWhile (\<lambda>c. c = CHR ''_'') t in
      if u = [] then Inl (Out_of_range ''basic_string::substr'')
      else Inr (rev (dropWhile (\<lambda>c. c = CHR ''_'') (rev u))))"

definition show_line :: "nat \<Rightarrow> string" where
  "show_line n = (let s = show_nat n in replicate (3 - length s) (CHR ''0'') @ s)"

primrec print_node :: "bool \<Rightarrow> string \<Rightarrow> node \<Rightarrow> cpp_error + string"
  and print_nodes :: "bool \<Rightarrow> string \<Rightarrow> node list \<Rightarrow> cpp_error + string" where
  "print_node print_location prefix (Node name line txt children) =
     sum_bind (printed_name name) (\<lambda>t.
       sum_bind (print_nodes print_location (prefix @ ''|  '') children) (\<lambda>below.
         Inr ((if print_location then '':'' @ show_line line @ '':  '' else []) @ prefix @ t @
              (case txt of Some u \<Rightarrow> '' '' @ u | None \<Rightarrow> []) @ newline @ below)))"
| "print_nodes print_location prefix [] = Inr []"
| "print_nodes print_location prefix (n # ns) =
     sum_bind (print_node print_location prefix n) (\<lambda>s.
       sum_bind (print_nodes print_location prefix ns) (\<lambda>s'. Inr (s @ s')))"

text \<open>The root prints its children without a prefix.\<close>

definition show_tree :: "node list \<Rightarrow> cpp_error + string" where
  "show_tree root = print_nodes True [] root"

section \<open>What a configuration means\<close>

text \<open>
  The rule a node stands for, the nodes of all blocks of one chain in the order of the file, and the
  names that \<open>call\<close> and \<open>goto\<close> may use.
\<close>

definition rule_of :: "mavlink_lib \<Rightarrow> (string \<Rightarrow> string list) \<Rightarrow> (string \<rightharpoonup> chain_ref) \<Rightarrow> node \<Rightarrow> cpp_error + Rule" where
  "rule_of ml tok chs n =
     sum_bind (rule_options ml tok (node_children n) None None) (\<lambda>(priority, condition).
       parse_action n priority condition chs)"

definition is_block :: "string \<Rightarrow> node \<Rightarrow> bool" where
  "is_block name n \<longleftrightarrow> node_name n = ''config::chain'' \<and> node_text n = Some name"

definition block_rules :: "node list \<Rightarrow> string \<Rightarrow> node list" where
  "block_rules root name = concat (map node_children (filter (is_block name) root))"

lemma block_rules_Cons:
  "block_rules (n # ns) t = (if is_block t n then node_children n @ block_rules ns t else block_rules ns t)"
  by (simp add: block_rules_def)

definition declared :: "node list \<Rightarrow> string set" where
  "declared root = {t. t \<noteq> ''default'' \<and> (\<exists>n \<in> set root. is_block t n)}"

text \<open>The default action is the one of the last \<open>default_action\<close> statement, and to reject without one.\<close>

fun default_of :: "bool \<Rightarrow> node list \<Rightarrow> bool" where
  "default_of d [] = d"
| "default_of d (n # ns) =
     default_of (if node_name n = ''config::default_action''
                 then node_name (hd (node_children n)) = ''config::accept'' else d) ns"

fun collect :: "('a \<Rightarrow> 'e + 'b) \<Rightarrow> 'a list \<Rightarrow> 'e + 'b list" where
  "collect f [] = Inr []"
| "collect f (x # xs) = sum_bind (f x) (\<lambda>y. sum_bind (collect f xs) (\<lambda>ys. Inr (y # ys)))"

lemma collect_Inr: "collect f xs = Inr ys \<longleftrightarrow> map f xs = map Inr ys"
  by (induction xs arbitrary: ys) (auto simp: sum_bind_Inr Cons_eq_map_conv)

lemma collect_ok: "is_ok (collect f xs) \<longleftrightarrow> (\<forall>x \<in> set xs. is_ok (f x))"
proof (induction xs)
  case (Cons x xs)
  then show ?case by (cases "f x"; cases "collect f xs") auto
qed simp

lemma sum_bind_ok: "is_ok (sum_bind m f) \<longleftrightarrow> (\<exists>x. m = Inr x \<and> is_ok (f x))"
  by (cases m) simp_all

section \<open>The chains\<close>

definition append_rules :: "Rule list \<Rightarrow> Chain \<Rightarrow> Chain" where
  "append_rules rs c = c\<lparr>chain_rules := chain_rules c @ rs\<rparr>"

lemma append_rules_simps [simp]:
  "chain_name (append_rules rs c) = chain_name c"
  "chain_rules (append_rules rs c) = chain_rules c @ rs"
  "append_rules [] c = c"
  "append_rules rs (chain_append r c) = append_rules (r # rs) c"
  by (simp_all add: append_rules_def chain_append_def)

lemma parse_rules_eq:
  "r < length cs \<Longrightarrow> parse_rules ml tok chs r ns cs =
     sum_bind (collect (rule_of ml tok chs) ns) (\<lambda>rs. Inr (cs[r := append_rules rs (cs ! r)]))"
proof (induction ns arbitrary: cs)
  case (Cons n ns)
  show ?case
  proof (cases "rule_of ml tok chs n")
    case (Inl e)
    then show ?thesis by (auto simp: rule_of_def sum_bind_def split: sum.splits)
  next
    case (Inr rule)
    then have "parse_rules ml tok chs r (n # ns) cs =
        parse_rules ml tok chs r ns (cs[r := chain_append rule (cs ! r)])"
      by (auto simp: rule_of_def sum_bind_def split: sum.splits)
    also have "\<dots> = sum_bind (collect (rule_of ml tok chs) ns) (\<lambda>rs. Inr (cs[r := append_rules (rule # rs) (cs ! r)]))"
      using Cons by simp
    finally show ?thesis using Inr by (simp add: sum_bind_assoc)
  qed
qed simp

text \<open>
  Every name refers to a chain that bears it; the default chain is number 0 and has no name that a
  rule could use.
\<close>

definition chains_named :: "(string \<rightharpoonup> chain_ref) \<Rightarrow> Chain list \<Rightarrow> bool" where
  "chains_named chs cs \<longleftrightarrow>
     cs \<noteq> [] \<and> chain_name (cs ! 0) = ''default'' \<and> ''default'' \<notin> dom chs \<and>
     (\<forall>t r. chs t = Some r \<longrightarrow> 0 < r \<and> r < length cs \<and> chain_name (cs ! r) = t)"

definition name_ref :: "(string \<rightharpoonup> chain_ref) \<Rightarrow> string \<rightharpoonup> chain_ref" where
  "name_ref chs = chs(''default'' \<mapsto> 0)"

lemma name_ref_valid:
  assumes "chains_named chs cs" "name_ref chs t = Some r"
  shows "r < length cs" "chain_name (cs ! r) = t"
  using assms by (auto simp: chains_named_def name_ref_def split: if_splits)

lemma chains_named_mono:
  assumes "chains_named chs cs" "length cs' = length cs" "\<forall>i < length cs. chain_name (cs' ! i) = chain_name (cs ! i)"
  shows "chains_named chs cs'"
  using assms unfolding chains_named_def by (metis length_0_conv length_greater_0_conv)

lemma init_chains_named:
  assumes "init_chains ns chs cs = Inr (chs', cs')" "chains_named chs cs" "\<forall>c \<in> set cs. chain_rules c = []"
  shows "chains_named chs' cs' \<and> (\<forall>c \<in> set cs'. chain_rules c = []) \<and> dom chs' = dom chs \<union> declared ns"
  using assms
proof (induction ns arbitrary: chs cs)
  case Nil
  then show ?case by (simp add: declared_def)
next
  case (Cons n ns)
  show ?case
  proof (cases "\<exists>t. is_block t n \<and> t \<noteq> ''default''")
    case True
    then obtain t where t: "is_block t n" "t \<noteq> ''default''" by blast
    then obtain c where c: "Chain_construct t [] = Inr c"
        "init_chains ns (chs(t \<mapsto> length cs)) (cs @ [c]) = Inr (chs', cs')"
      using Cons.prems(1) by (auto simp: is_block_def sum_bind_Inr)
    have new: "c = \<lparr>chain_name = t, chain_rules = []\<rparr>"
      using c(1) by (simp add: Chain_construct_def split: if_splits)
    have named: "chains_named (chs(t \<mapsto> length cs)) (cs @ [c])"
      using Cons.prems(2) t(2) by (auto simp: chains_named_def nth_append new intro: less_SucI)
    have decl: "declared (n # ns) = insert t (declared ns)"
      using t by (auto simp: declared_def is_block_def)
    have empty: "\<forall>c \<in> set (cs @ [c]). chain_rules c = []" using Cons.prems(3) by (simp add: new)
    show ?thesis
      using Cons.IH [OF c(2) named empty] unfolding decl dom_fun_upd by simp
  next
    case False
    then have "init_chains ns chs cs = Inr (chs', cs')" "declared (n # ns) = declared ns"
      using Cons.prems(1) by (auto simp: is_block_def declared_def split: option.splits)
    then show ?thesis using Cons by simp
  qed
qed

lemma parse_block_eq:
  assumes "chains_named chs cs" "is_block t n" "t = ''default'' \<or> t \<in> dom chs"
  obtains r where "name_ref chs t = Some r" "r < length cs"
    "filter_blocks ml tok chs (n # ns) cs d =
       sum_bind (collect (rule_of ml tok chs) (node_children n)) (\<lambda>rs.
         filter_blocks ml tok chs ns (cs[r := append_rules rs (cs ! r)]) d)"
proof -
  obtain r where r: "name_ref chs t = Some r"
    using assms(3) by (cases "t = ''default''") (auto simp: name_ref_def)
  then have "r < length cs" using name_ref_valid [OF assms(1)] by blast
  moreover have "filter_blocks ml tok chs (n # ns) cs d =
      sum_bind (parse_chain ml tok chs r n cs) (\<lambda>cs'. filter_blocks ml tok chs ns cs' d)"
    using assms(2,3) r
    by (auto simp: is_block_def content_def name_ref_def map_at_def split: if_splits)
  ultimately show ?thesis
    using that r by (simp add: parse_chain_def parse_rules_eq sum_bind_assoc)
qed

text \<open>What the blocks add to the chains that are there.\<close>

definition filled ::
  "mavlink_lib \<Rightarrow> (string \<Rightarrow> string list) \<Rightarrow> (string \<rightharpoonup> chain_ref) \<Rightarrow> node list \<Rightarrow> Chain list \<Rightarrow> Chain list \<Rightarrow> bool" where
  "filled ml tok chs root cs cs' \<longleftrightarrow>
     length cs' = length cs \<and>
     (\<forall>i < length cs. chain_name (cs' ! i) = chain_name (cs ! i) \<and>
        (\<exists>rs. chain_rules (cs' ! i) = chain_rules (cs ! i) @ rs \<and>
              map Inr rs = (if name_ref chs (chain_name (cs ! i)) = Some i
                            then map (rule_of ml tok chs) (block_rules root (chain_name (cs ! i))) else [])))"

lemma filled_skip:
  "filled ml tok chs ns cs cs' \<Longrightarrow> \<not> (\<exists>t. is_block t n) \<Longrightarrow> filled ml tok chs (n # ns) cs cs'"
proof -
  assume a: "filled ml tok chs ns cs cs'" "\<not> (\<exists>t. is_block t n)"
  then have "block_rules (n # ns) = block_rules ns" by (simp add: fun_eq_iff block_rules_Cons)
  then show ?thesis using a(1) unfolding filled_def by metis
qed

lemma filled_block:
  assumes "chains_named chs cs" "name_ref chs t = Some r" "is_block t n"
    "collect (rule_of ml tok chs) (node_children n) = Inr rs"
    "filled ml tok chs ns (cs[r := append_rules rs (cs ! r)]) cs'"
  shows "filled ml tok chs (n # ns) cs cs'"
proof -
  have r: "r < length cs" "chain_name (cs ! r) = t" using name_ref_valid [OF assms(1,2)] by auto
  have only: "is_block u n \<longleftrightarrow> u = t" for u using assms(3) by (auto simp: is_block_def)
  have rs: "map Inr rs = map (rule_of ml tok chs) (node_children n)" using assms(4) by (simp add: collect_Inr)
  show ?thesis
    unfolding filled_def
  proof (intro conjI allI impI)
    show "length cs' = length cs" using assms(5) by (simp add: filled_def)
    fix i assume i: "i < length cs"
    obtain us where us: "chain_rules (cs' ! i) = chain_rules (cs[r := append_rules rs (cs ! r)] ! i) @ us"
        "map Inr us = (if name_ref chs (chain_name (cs ! i)) = Some i
           then map (rule_of ml tok chs) (block_rules ns (chain_name (cs ! i))) else [])"
        "chain_name (cs' ! i) = chain_name (cs ! i)"
      using assms(5) i r by (cases "i = r") (auto simp: filled_def)
    show "chain_name (cs' ! i) = chain_name (cs ! i)" by (rule us(3))
    show "\<exists>vs. chain_rules (cs' ! i) = chain_rules (cs ! i) @ vs \<and>
        map Inr vs = (if name_ref chs (chain_name (cs ! i)) = Some i
          then map (rule_of ml tok chs) (block_rules (n # ns) (chain_name (cs ! i))) else [])"
    proof (cases "i = r")
      case True
      then show ?thesis using us r assms(2) rs only by (intro exI [of _ "rs @ us"]) (simp add: block_rules_Cons)
    next
      case False
      then have "name_ref chs (chain_name (cs ! i)) = Some i \<Longrightarrow> chain_name (cs ! i) \<noteq> t"
        using assms(2) by auto
      then show ?thesis
        using us False only by (intro exI [of _ us]) (auto simp: block_rules_Cons)
    qed
  qed
qed

lemma filter_blocks_filled:
  assumes "filter_blocks ml tok chs ns cs d = Inr (cs', d')" "chains_named chs cs" "declared ns \<subseteq> dom chs"
  shows "filled ml tok chs ns cs cs' \<and> d' = default_of d ns"
  using assms
proof (induction ns arbitrary: cs d)
  case Nil
  then show ?case by (auto simp: filled_def block_rules_def)
next
  case (Cons n ns)
  have sub: "declared ns \<subseteq> dom chs" using Cons.prems(3) by (auto simp: declared_def)
  show ?case
  proof (cases "\<exists>t. is_block t n")
    case True
    then obtain t where t: "is_block t n" by blast
    then have "t = ''default'' \<or> t \<in> dom chs" using Cons.prems(3) by (auto simp: declared_def)
    from parse_block_eq [OF Cons.prems(2) t this, of ml tok ns d] obtain r where
        ref: "name_ref chs t = Some r" "r < length cs" and
        eq: "filter_blocks ml tok chs (n # ns) cs d =
          sum_bind (collect (rule_of ml tok chs) (node_children n)) (\<lambda>rs.
            filter_blocks ml tok chs ns (cs[r := append_rules rs (cs ! r)]) d)" by blast
    obtain rs where rs: "collect (rule_of ml tok chs) (node_children n) = Inr rs"
        "filter_blocks ml tok chs ns (cs[r := append_rules rs (cs ! r)]) d = Inr (cs', d')"
      using Cons.prems(1) unfolding eq sum_bind_Inr by blast
    have "chains_named chs (cs[r := append_rules rs (cs ! r)])"
      using ref(2) by (intro chains_named_mono [OF Cons.prems(2)]) (auto simp: nth_list_update)
    from Cons.IH [OF rs(2) this sub] show ?thesis
      using filled_block [OF Cons.prems(2) ref(1) t rs(1)] t by (simp add: is_block_def)
  next
    case False
    then have "filter_blocks ml tok chs ns cs
        (if node_name n = ''config::default_action''
         then node_name (hd (node_children n)) = ''config::accept'' else d) = Inr (cs', d')"
      using Cons.prems(1)
      by (auto simp: is_block_def content_def split: if_splits option.splits list.splits)
    from Cons.IH [OF this Cons.prems(2) sub] show ?thesis
      using filled_skip [OF _ False] by simp
  qed
qed

lemma chain_copy_same: "chain_copy c = Inr c"
proof -
  have "rule_clone r = Inr r" for r by (cases r) (auto simp: clone_defs split: option.splits)
  then have "clone_rules rs = Inr rs" for rs by (induction rs) simp_all
  then show ?thesis by (simp add: chain_copy_def)
qed

lemma Filter_construct_eq:
  "Filter_construct cs accept = Inr \<lparr>filter_chains = cs, default_chain = 0, accept_by_default = accept\<rparr>"
  by (simp add: Filter_construct_def chain_copy_same)

lemma Chain_construct_default:
  "Chain_construct ''default'' [] = Inr \<lparr>chain_name = ''default'', chain_rules = []\<rparr>"
  by (simp add: Chain_construct_def)

lemma parse_filter_filled:
  assumes "parse_filter ml tok root = Inr f"
  obtains chs cs where "chains_named chs cs" "\<forall>c \<in> set cs. chain_rules c = []" "dom chs = declared root"
    "filled ml tok chs root cs (filter_chains f)" "default_chain f = 0"
    "accept_by_default f = default_of False root"
proof -
  let ?d = "\<lparr>chain_name = ''default'', chain_rules = []\<rparr>"
  obtain chs cs cs' d where run: "init_chains root (\<lambda>_. None) [?d] = Inr (chs, cs)"
      "filter_blocks ml tok chs root cs False = Inr (cs', d)"
      "f = \<lparr>filter_chains = cs', default_chain = 0, accept_by_default = d\<rparr>"
    using assms by (auto simp: parse_filter_def Chain_construct_default Filter_construct_eq sum_bind_Inr)
  have named: "chains_named (\<lambda>_. None) [?d]" by (simp add: chains_named_def)
  from init_chains_named [OF run(1) named] have init:
      "chains_named chs cs" "\<forall>c \<in> set cs. chain_rules c = []" "dom chs = declared root" by auto
  from filter_blocks_filled [OF run(2) init(1)] init(3) show ?thesis
    using that [OF init] run(3) by simp
qed

lemma chain_of_name:
  assumes "chains_named chs cs" "i < length cs" "name_ref chs (chain_name (cs ! i)) \<noteq> Some i"
    "filled ml tok chs root cs cs'" "\<forall>c \<in> set cs. chain_rules c = []"
  shows "chain_rules (cs' ! i) = []"
  using assms by (auto simp: filled_def)

lemma rule_of_refs:
  assumes "rule_of ml tok chs n = Inr r" "s \<in> rule_refs r"
  shows "\<exists>t. chs t = Some s"
  using assms
  by (auto simp: rule_of_def parse_action_def sum_bind_Inr map_at_def Call_construct_def GoTo_construct_def
      split: if_splits option.splits prod.splits)

lemma filled_rule:
  assumes "filled ml tok chs root cs cs'" "\<forall>c \<in> set cs. chain_rules c = []" "c \<in> set cs'" "r \<in> set (chain_rules c)"
  shows "\<exists>n. rule_of ml tok chs n = Inr r"
proof -
  obtain i where i: "i < length cs" "c = cs' ! i"
    using assms(1,3) by (metis filled_def in_set_conv_nth)
  then obtain rs where rs: "chain_rules c = rs" "map Inr rs = (if name_ref chs (chain_name (cs ! i)) = Some i
      then map (rule_of ml tok chs) (block_rules root (chain_name (cs ! i))) else [])"
    using assms(1,2) by (auto simp: filled_def)
  then have "Inr r \<in> rule_of ml tok chs ` set (block_rules root (chain_name (cs ! i)))"
    using assms(4) by (metis imageI image_set list.set(1) empty_iff)
  then show ?thesis by auto
qed

lemma parse_filter_refs:
  assumes "parse_filter ml tok root = Inr f" "c \<in> set (filter_chains f)" "r \<in> set (chain_rules c)" "s \<in> rule_refs r"
  shows "0 < s \<and> s < length (filter_chains f)"
proof -
  obtain chs cs where f: "chains_named chs cs" "\<forall>c \<in> set cs. chain_rules c = []"
      "filled ml tok chs root cs (filter_chains f)"
    using parse_filter_filled [OF assms(1)] by metis
  obtain n where "rule_of ml tok chs n = Inr r" using filled_rule [OF f(3,2) assms(2,3)] by blast
  then obtain t where "chs t = Some s" using rule_of_refs assms(4) by blast
  then show ?thesis using f(1,3) by (auto simp: chains_named_def filled_def)
qed

lemma parse_filter_wf: "parse_filter ml tok root = Inr f \<Longrightarrow> filter_wf f"
proof -
  assume f: "parse_filter ml tok root = Inr f"
  obtain chs cs where "chains_named chs cs" "filled ml tok chs root cs (filter_chains f)" "default_chain f = 0"
    using parse_filter_filled [OF f] by metis
  then have "default_chain f < length (filter_chains f)" by (auto simp: chains_named_def filled_def)
  then show ?thesis using parse_filter_refs [OF f] by (auto simp: filter_wf_def chains_wf_def)
qed

section \<open>When a configuration is accepted\<close>

text \<open>What every condition, rule and block has to satisfy.\<close>

definition condition_valid :: "mavlink_lib \<Rightarrow> (string \<Rightarrow> string list) \<Rightarrow> node \<Rightarrow> bool" where
  "condition_valid ml tok n \<longleftrightarrow>
     (\<forall>child \<in> set (node_children n).
        (node_name child = ''config::packet_type'' \<longrightarrow>
           (\<exists>t. node_text child = Some t \<and> is_ok (mavlink_id ml t))) \<and>
        (node_name child \<in> {''config::source'', ''config::dest''} \<longrightarrow>
           (\<exists>t. node_text child = Some t \<and> is_ok (MAVSubnet_of_string tok t))))"

definition action_valid :: "string set \<Rightarrow> node \<Rightarrow> bool" where
  "action_valid names n \<longleftrightarrow>
     node_name n \<in> {''config::accept'', ''config::reject''} \<or>
     node_name n \<in> {''config::call'', ''config::goto_''} \<and>
       (\<exists>t. node_text n = Some t \<and> t \<noteq> ''default'' \<and> t \<in> names)"

definition rule_valid :: "mavlink_lib \<Rightarrow> (string \<Rightarrow> string list) \<Rightarrow> string set \<Rightarrow> node \<Rightarrow> bool" where
  "rule_valid ml tok names n \<longleftrightarrow>
     action_valid names n \<and>
     (\<forall>child \<in> set (node_children n).
        (node_name child = ''config::priority'' \<longrightarrow> (\<exists>t. node_text child = Some t \<and> is_ok (stoi t))) \<and>
        (node_name child = ''config::condition'' \<longrightarrow> condition_valid ml tok child))"

definition config_valid :: "mavlink_lib \<Rightarrow> (string \<Rightarrow> string list) \<Rightarrow> node list \<Rightarrow> bool" where
  "config_valid ml tok root \<longleftrightarrow>
     (\<forall>n \<in> set root.
        (node_name n = ''config::chain'' \<longrightarrow>
           (\<exists>t. node_text n = Some t \<and> is_ok (Chain_construct t [])) \<and>
           (\<forall>r \<in> set (node_children n). rule_valid ml tok (declared root) r)) \<and>
        (node_name n = ''config::default_action'' \<longrightarrow> node_children n \<noteq> []))"

lemma is_ok_content: "is_ok (sum_bind (content n) f) \<longleftrightarrow> (\<exists>t. node_text n = Some t \<and> is_ok (f t))"
  by (cases "node_text n") (simp_all add: content_def)

lemma condition_step_ok:
  "is_ok (If_type_name ml t c) = is_ok (mavlink_id ml t)"
  "is_ok (If_from_string tok t c) = is_ok (MAVSubnet_of_string tok t)"
  "is_ok (If_to_string tok t c) = is_ok (MAVSubnet_of_string tok t)"
  by (simp_all add: If_type_name_def If_from_string_def If_to_string_def split: sum.split)

lemma sum_bind_ok_all: "(\<And>x. is_ok (f x) = P) \<Longrightarrow> is_ok (sum_bind m f) \<longleftrightarrow> is_ok m \<and> P"
  by (cases m) simp_all

lemma condition_options_ok:
  "is_ok (condition_options ml tok ns c) \<longleftrightarrow>
     (\<forall>child \<in> set ns.
        (node_name child = ''config::packet_type'' \<longrightarrow>
           (\<exists>t. node_text child = Some t \<and> is_ok (mavlink_id ml t))) \<and>
        (node_name child \<in> {''config::source'', ''config::dest''} \<longrightarrow>
           (\<exists>t. node_text child = Some t \<and> is_ok (MAVSubnet_of_string tok t))))"
proof (induction ns arbitrary: c)
  case (Cons n ns)
  have "is_ok (condition_options ml tok (n # ns) c) \<longleftrightarrow>
      is_ok (if node_name n = ''config::packet_type''
        then sum_bind (content n) (\<lambda>t. If_type_name ml t c)
        else if node_name n = ''config::source''
        then sum_bind (content n) (\<lambda>t. If_from_string tok t c)
        else if node_name n = ''config::dest''
        then sum_bind (content n) (\<lambda>t. If_to_string tok t c)
        else Inr c) \<and> is_ok (condition_options ml tok ns c)"
    unfolding condition_options.simps by (rule sum_bind_ok_all) (simp only: Cons.IH)
  then show ?case unfolding Cons.IH by (auto simp: is_ok_content condition_step_ok)
qed simp

lemma parse_condition_ok: "is_ok (parse_condition ml tok n) \<longleftrightarrow> condition_valid ml tok n"
  by (simp add: parse_condition_def If_construct_def condition_options_ok condition_valid_def)

lemma rule_options_ok:
  "is_ok (rule_options ml tok ns p c) \<longleftrightarrow>
     (\<forall>child \<in> set ns.
        (node_name child = ''config::priority'' \<longrightarrow> (\<exists>t. node_text child = Some t \<and> is_ok (stoi t))) \<and>
        (node_name child = ''config::condition'' \<longrightarrow> condition_valid ml tok child))"
proof (induction ns arbitrary: p c)
  case (Cons n ns)
  have "is_ok (rule_options ml tok (n # ns) p c) \<longleftrightarrow>
      (node_name n = ''config::priority'' \<longrightarrow> (\<exists>t. node_text n = Some t \<and> is_ok (stoi t))) \<and>
      (node_name n = ''config::condition'' \<longrightarrow> condition_valid ml tok n) \<and>
      is_ok (rule_options ml tok ns p c)"
    by (simp add: Cons.IH sum_bind_ok_all [OF Cons.IH] sum_bind_assoc is_ok_content parse_condition_ok del: ball_simps)
      blast
  then show ?case unfolding Cons.IH by auto
qed simp

lemma parse_action_ok: "is_ok (parse_action n p c chs) \<longleftrightarrow> action_valid (dom chs) n"
proof -
  have at: "is_ok (sum_bind (map_at chs t) f) \<longleftrightarrow> t \<in> dom chs" if "\<And>r. is_ok (f r)" for t and f :: "nat \<Rightarrow> cpp_error + Rule"
    using that by (cases "chs t") (auto simp: map_at_def)
  show ?thesis
    by (cases p)
      (auto simp: parse_action_def action_valid_def is_ok_content at Call_construct_def GoTo_construct_def
        split: if_splits)
qed

lemma rule_of_ok: "is_ok (rule_of ml tok chs n) \<longleftrightarrow> rule_valid ml tok (dom chs) n"
proof -
  have "is_ok (rule_of ml tok chs n) \<longleftrightarrow>
      is_ok (rule_options ml tok (node_children n) None None) \<and> action_valid (dom chs) n"
    unfolding rule_of_def by (rule sum_bind_ok_all) (simp add: parse_action_ok split: prod.split)
  then show ?thesis by (auto simp: rule_options_ok rule_valid_def)
qed

lemma init_chains_ok:
  "is_ok (init_chains ns chs cs) \<longleftrightarrow>
     (\<forall>n \<in> set ns. \<forall>t. is_block t n \<and> t \<noteq> ''default'' \<longrightarrow> is_ok (Chain_construct t []))"
proof (induction ns arbitrary: chs cs)
  case (Cons n ns)
  show ?case
    by (cases "node_text n")
      (auto simp: Cons.IH sum_bind_ok_all [OF Cons.IH] is_block_def)
qed simp

lemma filter_blocks_ok:
  assumes "chains_named chs cs" "declared ns \<subseteq> dom chs"
  shows "is_ok (filter_blocks ml tok chs ns cs d) \<longleftrightarrow>
     (\<forall>n \<in> set ns.
        (node_name n = ''config::chain'' \<longrightarrow>
           node_text n \<noteq> None \<and> (\<forall>r \<in> set (node_children n). rule_valid ml tok (dom chs) r)) \<and>
        (node_name n = ''config::default_action'' \<longrightarrow> node_children n \<noteq> []))"
  using assms
proof (induction ns arbitrary: cs d)
  case (Cons n ns)
  have sub: "declared ns \<subseteq> dom chs" using Cons.prems(2) by (auto simp: declared_def)
  show ?case
  proof (cases "\<exists>t. is_block t n")
    case True
    then obtain t where t: "is_block t n" by blast
    then have "t = ''default'' \<or> t \<in> dom chs" using Cons.prems(2) by (auto simp: declared_def)
    from parse_block_eq [OF Cons.prems(1) t this, of ml tok ns d] obtain r where
        ref: "name_ref chs t = Some r" "r < length cs" and
        eq: "filter_blocks ml tok chs (n # ns) cs d =
          sum_bind (collect (rule_of ml tok chs) (node_children n)) (\<lambda>rs.
            filter_blocks ml tok chs ns (cs[r := append_rules rs (cs ! r)]) d)" by blast
    have "chains_named chs (cs[r := append_rules rs (cs ! r)])" for rs
      using ref(2) by (intro chains_named_mono [OF Cons.prems(1)]) (auto simp: nth_list_update)
    then have each: "is_ok (filter_blocks ml tok chs ns (cs[r := append_rules rs (cs ! r)]) d) \<longleftrightarrow>
        is_ok (filter_blocks ml tok chs ns cs d)" for rs
      using Cons.IH [OF _ sub] Cons.prems(1) by blast
    have "is_ok (filter_blocks ml tok chs (n # ns) cs d) \<longleftrightarrow>
        (\<forall>x \<in> set (node_children n). rule_valid ml tok (dom chs) x) \<and> is_ok (filter_blocks ml tok chs ns cs d)"
      unfolding eq by (simp add: sum_bind_ok_all [OF each] collect_ok rule_of_ok)
    then show ?thesis unfolding Cons.IH [OF Cons.prems(1) sub] using t by (auto simp: is_block_def)
  next
    case False
    have IH: "is_ok (filter_blocks ml tok chs ns cs d') = is_ok (filter_blocks ml tok chs ns cs d)" for d'
      using Cons.IH [OF Cons.prems(1) sub] by blast
    have "is_ok (filter_blocks ml tok chs (n # ns) cs d) \<longleftrightarrow>
        node_name n \<noteq> ''config::chain'' \<and> (node_name n = ''config::default_action'' \<longrightarrow> node_children n \<noteq> []) \<and>
        is_ok (filter_blocks ml tok chs ns cs d)"
      using False IH by (auto simp: is_block_def content_def split: option.split list.split)
    then show ?thesis unfolding Cons.IH [OF Cons.prems(1) sub] using False by (auto simp: is_block_def)
  qed
qed simp

lemma parse_filter_ok: "is_ok (parse_filter ml tok root) \<longleftrightarrow> config_valid ml tok root"
proof -
  let ?d = "\<lparr>chain_name = ''default'', chain_rules = []\<rparr>"
  let ?ok = "\<lambda>n. node_name n = ''config::chain'' \<longrightarrow>
           node_text n \<noteq> None \<and> (\<forall>r \<in> set (node_children n). rule_valid ml tok (declared root) r)"
  have named: "chains_named (\<lambda>_. None) [?d]" by (simp add: chains_named_def)
  have start: "parse_filter ml tok root =
      sum_bind (init_chains root (\<lambda>_. None) [?d]) (\<lambda>(chs, cs).
        sum_bind (filter_blocks ml tok chs root cs False) (\<lambda>(cs', accept). Filter_construct cs' accept))"
    by (simp add: parse_filter_def Chain_construct_default)
  have "is_ok (sum_bind m (\<lambda>(cs', accept). Filter_construct cs' accept)) = is_ok m" for m
    by (cases m) (auto simp: Filter_construct_eq)
  moreover have "is_ok (filter_blocks ml tok chs root cs False) \<longleftrightarrow>
      (\<forall>n \<in> set root. ?ok n \<and> (node_name n = ''config::default_action'' \<longrightarrow> node_children n \<noteq> []))"
    if "init_chains root (\<lambda>_. None) [?d] = Inr (chs, cs)" for chs cs
  proof -
    from init_chains_named [OF that named] have "chains_named chs cs" "dom chs = declared root" by auto
    then show ?thesis using filter_blocks_ok [of chs cs root ml tok False] by simp
  qed
  ultimately have "is_ok (parse_filter ml tok root) \<longleftrightarrow>
      is_ok (init_chains root (\<lambda>_. None) [?d]) \<and>
      (\<forall>n \<in> set root. ?ok n \<and> (node_name n = ''config::default_action'' \<longrightarrow> node_children n \<noteq> []))"
    unfolding start by (cases "init_chains root (\<lambda>_. None) [?d]") (auto split: prod.splits)
  moreover have "(\<forall>t. is_block t n \<and> t \<noteq> ''default'' \<longrightarrow> is_ok (Chain_construct t [])) \<and> ?ok n \<longleftrightarrow>
      (node_name n = ''config::chain'' \<longrightarrow>
         (\<exists>t. node_text n = Some t \<and> is_ok (Chain_construct t [])) \<and>
         (\<forall>r \<in> set (node_children n). rule_valid ml tok (declared root) r))" for n
  proof (cases "node_text n")
    case (Some t)
    then show ?thesis
      using Chain_construct_default by (cases "t = ''default''") (auto simp: is_block_def)
  qed (auto simp: is_block_def)
  ultimately show ?thesis
    unfolding init_chains_ok config_valid_def by blast
qed

section \<open>Acyclic configurations\<close>

text \<open>A block of one chain calls another, or jumps to it; \<open>rank\<close> shows that this ends.\<close>

definition uses_chain :: "node list \<Rightarrow> string \<Rightarrow> string \<Rightarrow> bool" where
  "uses_chain root t u \<longleftrightarrow>
     (\<exists>n \<in> set (block_rules root t). node_name n \<in> {''config::call'', ''config::goto_''} \<and> node_text n = Some u)"

definition config_ranked :: "(string \<Rightarrow> nat) \<Rightarrow> node list \<Rightarrow> bool" where
  "config_ranked rank root \<longleftrightarrow> (\<forall>t u. uses_chain root t u \<longrightarrow> rank u < rank t)"

definition rule_priority :: "Rule \<Rightarrow> int option" where
  "rule_priority r = (case r of Accept p c \<Rightarrow> p | Reject c \<Rightarrow> None | Call ch p c \<Rightarrow> p | GoTo ch p c \<Rightarrow> p)"

definition priority_ok :: "int option \<Rightarrow> bool" where
  "priority_ok p \<longleftrightarrow> (\<forall>k. p = Some k \<longrightarrow> int_range k)"

definition priorities_ok :: "Chain list \<Rightarrow> bool" where
  "priorities_ok chs \<longleftrightarrow> (\<forall>ch \<in> set chs. \<forall>r \<in> set (chain_rules ch). priority_ok (rule_priority r))"

lemma rule_priority_simps [simp]:
  "rule_priority (Accept p c) = p" "rule_priority (Reject c) = None"
  "rule_priority (Call ch p c) = p" "rule_priority (GoTo ch p c) = p"
  by (simp_all add: rule_priority_def)

lemma priority_ok_simps [simp]: "priority_ok None" "priority_ok (Some k) = int_range k"
  by (simp_all add: priority_ok_def)

lemma apply_priority_ok:
  "priority_ok p \<Longrightarrow> priority_ok (act_priority a) \<Longrightarrow> priority_ok (act_priority (apply_priority p a))"
  by (cases p) (auto simp: apply_priority_def action_set_priority_def)

lemma eval_priority:
  assumes "priorities_ok chs"
  shows "chain_eval chs packet addr r a \<Longrightarrow> priority_ok (act_priority a)"
    and "rules_eval chs packet addr rs a \<Longrightarrow> \<forall>x \<in> set rs. priority_ok (rule_priority x) \<Longrightarrow> priority_ok (act_priority a)"
proof (induction rule: chain_eval_rules_eval.inducts)
  case (enter r ch a)
  then show ?case using assms nth_mem by (fastforce simp: priorities_ok_def chain_at_Some)
qed (auto simp: make_continue_def make_accept_def make_reject_def make_default_def intro: apply_priority_ok)

lemma verdict_priority: "priority_ok (act_priority a) \<Longrightarrow> int_range (snd (verdict f a))"
  by (auto simp: verdict_def int_range_def split: option.split)

lemma rule_options_priority:
  "rule_options ml tok ns p c = Inr (p', c') \<Longrightarrow> priority_ok p \<Longrightarrow> priority_ok p'"
proof (induction ns arbitrary: p c)
  case (Cons n ns)
  then show ?case
    using stoi_range by (fastforce simp: sum_bind_Inr split: if_splits)
qed simp

lemma rule_of_priority: "rule_of ml tok chs n = Inr r \<Longrightarrow> priority_ok (rule_priority r)"
  by (auto simp: rule_of_def parse_action_def sum_bind_Inr Call_construct_def GoTo_construct_def
      dest!: rule_options_priority split: if_splits option.splits prod.splits)

lemma parse_filter_priorities:
  assumes "parse_filter ml tok root = Inr f"
  shows "priorities_ok (filter_chains f)"
proof -
  obtain chs cs where f: "\<forall>c \<in> set cs. chain_rules c = []" "filled ml tok chs root cs (filter_chains f)"
    using parse_filter_filled [OF assms] by metis
  then show ?thesis
    using filled_rule [OF f(2,1)] rule_of_priority unfolding priorities_ok_def by blast
qed

lemma rule_of_target:
  assumes "rule_of ml tok chs n = Inr r" "s \<in> rule_refs r"
  obtains u where "chs u = Some s" "node_name n \<in> {''config::call'', ''config::goto_''}" "node_text n = Some u"
  using assms
  by (auto simp: rule_of_def parse_action_def sum_bind_Inr map_at_def content_def
      Call_construct_def GoTo_construct_def split: if_splits option.splits prod.splits)

lemma parse_filter_ranked:
  assumes "parse_filter ml tok root = Inr f" "config_ranked rank root"
  shows "ranked (\<lambda>i. rank (chain_name (filter_chains f ! i))) (filter_chains f)"
proof -
  obtain chs cs where f: "chains_named chs cs" "\<forall>c \<in> set cs. chain_rules c = []"
      "filled ml tok chs root cs (filter_chains f)"
    using parse_filter_filled [OF assms(1)] by metis
  have named: "chains_named chs (filter_chains f)"
    by (rule chains_named_mono [OF f(1)]) (use f(3) in \<open>auto simp: filled_def\<close>)
  have "rank (chain_name (filter_chains f ! s)) < rank (chain_name (filter_chains f ! i))"
    if i: "i < length (filter_chains f)" and x: "x \<in> set (chain_rules (filter_chains f ! i))"
      and s: "s \<in> rule_refs x" for i x s
  proof -
    let ?t = "chain_name (filter_chains f ! i)"
    have rules: "map Inr (chain_rules (filter_chains f ! i)) =
        (if name_ref chs ?t = Some i then map (rule_of ml tok chs) (block_rules root ?t) else [])"
      using f(2,3) i by (auto simp: filled_def)
    have "(Inr x :: cpp_error + Rule) \<in> set (map Inr (chain_rules (filter_chains f ! i)))" using x by simp
    then have "Inr x \<in> rule_of ml tok chs ` set (block_rules root ?t)"
      unfolding rules by (auto split: if_splits)
    then obtain n where n: "n \<in> set (block_rules root ?t)" "rule_of ml tok chs n = Inr x" by auto
    obtain u where u: "chs u = Some s" "uses_chain root ?t u"
      using rule_of_target [OF n(2) s] n(1) unfolding uses_chain_def by blast
    have "chain_name (filter_chains f ! s) = u" using named u(1) by (simp add: chains_named_def)
    then show ?thesis using assms(2) u(2) by (simp add: config_ranked_def)
  qed
  then show ?thesis by (simp add: ranked_def)
qed

lemma parse_filter_total:
  assumes "parse_filter ml tok root = Inr f" "config_ranked rank root" "packet_wf ml packet" "\<forall>s. t \<notin> g s"
  shows "\<exists>accept priority. int_range priority \<and> will_accept f t packet addr g = Some (Inr (accept, priority), g)"
proof -
  have wf: "filter_wf f" by (rule parse_filter_wf [OF assms(1)])
  have "\<exists>a. chain_eval (filter_chains f) packet addr (default_chain f) a"
    using chain_eval_total [OF _ parse_filter_ranked [OF assms(1,2)]] wf by (auto simp: filter_wf_def)
  then obtain a where a: "chain_eval (filter_chains f) packet addr (default_chain f) a" by blast
  then obtain res where "chain_action (filter_chains f) t (nesting f) packet addr (default_chain f) g = Some (Inr a, g)"
    using chain_decides [of "filter_chains f" packet "default_chain f" t g addr] assms(3,4) wf
    by (auto simp: filter_wf_def nesting_def readable_wf)
  from will_accept_chain [OF this] have "will_accept f t packet addr g = Some (Inr (verdict f a), g)" by simp
  moreover have "int_range (snd (verdict f a))"
    using verdict_priority eval_priority(1) [OF parse_filter_priorities [OF assms(1)] a] by blast
  ultimately show ?thesis by (metis prod.collapse)
qed

section \<open>Properties\<close>

text \<open>C17: the filter of a configuration.  Each chain has the rules of all the blocks of its name, in the
  order of the file, every name that is declared has exactly one chain, and the packets that no rule
  decides get the last default action, or are rejected when there is none.\<close>

theorem parse_filter_chains:
  assumes "parse_filter ml tok root = Inr f"
  shows "default_chain f = 0 \<and> accept_by_default f = default_of False root \<and>
    (\<exists>chs. dom chs = declared root \<and>
       (\<forall>t r. name_ref chs t = Some r \<longrightarrow>
          r < length (filter_chains f) \<and> chain_name (filter_chains f ! r) = t \<and>
          map Inr (chain_rules (filter_chains f ! r)) = map (rule_of ml tok chs) (block_rules root t)))"
proof -
  obtain chs cs where f: "chains_named chs cs" "\<forall>c \<in> set cs. chain_rules c = []" "dom chs = declared root"
      "filled ml tok chs root cs (filter_chains f)" "default_chain f = 0"
      "accept_by_default f = default_of False root"
    using parse_filter_filled [OF assms] by metis
  have "r < length (filter_chains f) \<and> chain_name (filter_chains f ! r) = t \<and>
      map Inr (chain_rules (filter_chains f ! r)) = map (rule_of ml tok chs) (block_rules root t)"
    if "name_ref chs t = Some r" for t r
    using f(2,4) name_ref_valid [OF f(1) that] that by (auto simp: filled_def)
  then show ?thesis using f(3,5,6) by (intro conjI exI [of _ chs]) simp_all
qed

text \<open>C35: the filter of a configuration is well formed: its rules only refer to chains that exist,
  never to the default chain, and all their priorities fit an \<open>int\<close>.\<close>

theorem parse_filter_typed:
  assumes "parse_filter ml tok root = Inr f"
  shows "filter_wf f \<and> priorities_ok (filter_chains f) \<and>
    (\<forall>c \<in> set (filter_chains f). \<forall>r \<in> set (chain_rules c). default_chain f \<notin> rule_refs r)"
proof -
  obtain chs cs where "default_chain f = 0" using parse_filter_filled [OF assms] by metis
  then show ?thesis
    using parse_filter_wf [OF assms] parse_filter_priorities [OF assms] parse_filter_refs [OF assms] by auto
qed

text \<open>A default chain is not needed: without one the default action decides every packet.\<close>

lemma default_chain_optional:
  "parse_filter ml tok [Node ''config::default_action'' 1 None [Node ''config::accept'' 1 None []]] =
     Inr \<lparr>filter_chains = [\<lparr>chain_name = ''default'', chain_rules = []\<rparr>], default_chain = 0, accept_by_default = True\<rparr>"
  by (simp add: parse_filter_def Chain_construct_def sum_bind_def parse_chain_def Filter_construct_eq)

section \<open>A sample configuration\<close>

definition sample_tree :: "node list" where
  "sample_tree =
     [Node ''config::default_action'' 1 None [Node ''config::accept'' 1 None []],
      Node ''config::chain'' 3 (Some ''default'')
        [Node ''config::call'' 4 (Some ''known'')
           [Node ''config::condition'' 4 None [Node ''config::source'' 4 (Some ''1.1'') []]],
         Node ''config::reject'' 5 None []],
      Node ''config::chain'' 8 (Some ''known'')
        [Node ''config::accept'' 9 None [Node ''config::priority'' 9 (Some ''5'') []]]]"

definition sample_condition :: If where
  "sample_condition =
     \<lparr>if_id = None, if_source = Some (MkMAVSubnet (projr (MAVAddress_construct 1 1)) 0xFFFF), if_dest = None\<rparr>"

lemma sample_address: "MAVAddress_of_string ''1.1'' = Inr (projr (MAVAddress_construct 1 1))"
  by (simp add: MAVAddress_of_string_def stream_eval MAVAddress_construct_def)

lemma sample_tree_filter:
  "parse_filter ml tok sample_tree =
     Inr \<lparr>filter_chains =
            [\<lparr>chain_name = ''default'', chain_rules = [Call 1 None (Some sample_condition), Reject None]\<rparr>,
             \<lparr>chain_name = ''known'', chain_rules = [Accept (Some 5) None]\<rparr>],
          default_chain = 0, accept_by_default = True\<rparr>"
proof -
  have "stoi ''5'' = Inr 5"
    by (simp add: stoi_def sto_signed_def stream_eval)
  then show ?thesis
    by (simp add: parse_filter_def sample_tree_def Chain_construct_def sum_bind_def parse_chain_def
        parse_condition_def If_construct_def If_from_string_def If_from_def MAVSubnet_of_string_def sample_address
        sample_condition_def parse_action_def map_at_def content_def Call_construct_def Filter_construct_eq
        chain_append_def)
qed

lemma sample_tree_ok: "parse_filter ml tok sample_tree = Inr (projr (parse_filter ml tok sample_tree))"
  by (simp add: sample_tree_filter)

theorem parse_filter_chains_witness:
  "\<forall>ml tok. accept_by_default (projr (parse_filter ml tok sample_tree)) = default_of False sample_tree \<and>
     (\<exists>chs. dom chs = {''known''} \<and>
        map Inr (chain_rules (filter_chains (projr (parse_filter ml tok sample_tree)) ! 0)) =
          map (rule_of ml tok chs) (block_rules sample_tree ''default''))"
proof (intro allI)
  fix ml tok
  have "declared sample_tree = {''known''}" by (auto simp: declared_def sample_tree_def is_block_def)
  moreover have "name_ref chs ''default'' = Some 0" for chs by (simp add: name_ref_def)
  ultimately show "accept_by_default (projr (parse_filter ml tok sample_tree)) = default_of False sample_tree \<and>
     (\<exists>chs. dom chs = {''known''} \<and>
        map Inr (chain_rules (filter_chains (projr (parse_filter ml tok sample_tree)) ! 0)) =
          map (rule_of ml tok chs) (block_rules sample_tree ''default''))"
    using parse_filter_chains [OF sample_tree_ok [of ml tok]] by metis
qed

theorem parse_filter_typed_witness:
  "\<forall>ml tok. filter_wf (projr (parse_filter ml tok sample_tree)) \<and>
     priorities_ok (filter_chains (projr (parse_filter ml tok sample_tree)))"
  using parse_filter_typed [OF sample_tree_ok] by blast

end
