(* ===== verification/ConfigBuild.thy ===== *)
theory ConfigBuild
  imports ConfigFilter Interfaces UnixDevices Threader
begin

text \<open>
  How \<open>ConfigParser::make_app\<close> turns the syntax tree into a running program: \<open>parse_serial\<close>,
  \<open>parse_udp\<close>, \<open>parse_interfaces\<close>, \<open>make_app\<close> and \<open>App\<close>.  The operating system is the parameter of the
  theory of the devices; the connections live in the world of the interfaces.
\<close>

section \<open>Utilities\<close>

text \<open>\<open>to_lower\<close> in the C locale.\<close>

definition to_lower :: "string \<Rightarrow> string" where
  "to_lower = map (\<lambda>c. if 65 \<le> (of_char c :: nat) \<and> (of_char c :: nat) \<le> 90 then char_of (of_char c + 32 :: nat) else c)"

section \<open>Settings\<close>

record serial_settings =
  ss_device :: "string option"
  ss_baud_rate :: u64
  ss_features :: u32
  ss_preload :: "MAVAddress list"

definition serial_defaults :: serial_settings where
  "serial_defaults = \<lparr>ss_device = None, ss_baud_rate = 9600, ss_features = 0, ss_preload = []\<rparr>"

fun serial_options :: "node list \<Rightarrow> serial_settings \<Rightarrow> cpp_error + serial_settings" where
  "serial_options [] o1 = Inr o1"
| "serial_options (n # ns) o1 =
     sum_bind
       (if node_name n = ''config::device''
        then sum_bind (content n) (\<lambda>t. Inr (o1\<lparr>ss_device := Some t\<rparr>))
        else if node_name n = ''config::baudrate''
        then sum_bind (sum_bind (content n) stol) (\<lambda>v. Inr (o1\<lparr>ss_baud_rate := word_of_int v\<rparr>))
        else if node_name n = ''config::flow_control''
        then sum_bind (content n) (\<lambda>t.
               Inr (if to_lower t = ''yes'' then o1\<lparr>ss_features := FLOW_CONTROL\<rparr> else o1))
        else if node_name n = ''config::preload''
        then sum_bind (sum_bind (content n) MAVAddress_of_string) (\<lambda>a. Inr (o1\<lparr>ss_preload := ss_preload o1 @ [a]\<rparr>))
        else Inr o1)
       (serial_options ns)"

record udp_settings =
  su_port :: u32
  su_address :: "IPAddress option"
  su_max_bitrate :: u64

definition udp_defaults :: udp_settings where
  "udp_defaults = \<lparr>su_port = 14500, su_address = None, su_max_bitrate = 0\<rparr>"

fun udp_options :: "(string \<Rightarrow> string list) \<Rightarrow> node list \<Rightarrow> udp_settings \<Rightarrow> cpp_error + udp_settings" where
  "udp_options split_colon [] o1 = Inr o1"
| "udp_options split_colon (n # ns) o1 =
     sum_bind
       (if node_name n = ''config::port''
        then sum_bind (sum_bind (content n) stol) (\<lambda>v. Inr (o1\<lparr>su_port := word_of_int v\<rparr>))
        else if node_name n = ''config::address''
        then sum_bind (sum_bind (content n) (IPAddress_of_string split_colon)) (\<lambda>a. Inr (o1\<lparr>su_address := Some a\<rparr>))
        else if node_name n = ''config::max_bitrate''
        then sum_bind (sum_bind (content n) stoll) (\<lambda>v. Inr (o1\<lparr>su_max_bitrate := word_of_int v\<rparr>))
        else Inr o1)
       (udp_options split_colon ns)"

section \<open>Interfaces\<close>

datatype Interface =
    SerialLink UnixSerialPort SerialInterface
  | UDPLink UnixUDPSocket UDPInterface

text \<open>The destructor of an interface runs the one of its device.\<close>

fun destroy_interface :: "'s unix_calls \<Rightarrow> Interface \<Rightarrow> 's \<Rightarrow> 's" where
  "destroy_interface sys (SerialLink port i) s = UnixSerialPort_destroy sys port s"
| "destroy_interface sys (UDPLink socket i) s = UnixUDPSocket_destroy sys socket s"

text \<open>\<open>connection->add_address(addr)\<close> for every preloaded address.\<close>

fun preload_addresses ::
  "environment \<Rightarrow> (nat \<Rightarrow> readings) \<Rightarrow> nat \<Rightarrow> nat \<Rightarrow> MAVAddress list \<Rightarrow> world \<Rightarrow> (cpp_error + unit) \<times> world" where
  "preload_addresses env clk i c [] w = (Inr (), w)"
| "preload_addresses env clk i c (a # addrs) w =
     (case call_add_address env (clk i) c a w of
        (Inl e, w') \<Rightarrow> (Inl e, w')
      | (Inr _, w') \<Rightarrow> preload_addresses env clk (Suc i) c addrs w')"

definition drop_connection :: "nat \<Rightarrow> world \<Rightarrow> world" where
  "drop_connection c w = w\<lparr>w_net := (w_net w)\<lparr>net_conns := (net_conns (w_net w))(c := None)\<rparr>\<rparr>"

text \<open>
  The second half of \<open>parse_serial\<close>: the connection, which is in the network as soon as it is made,
  its preloaded addresses, and the interface, which registers it with the pool.
\<close>

definition attach_serial ::
  "environment \<Rightarrow> (nat \<Rightarrow> readings) \<Rightarrow> string \<Rightarrow> Filter \<Rightarrow> MAVAddress list \<Rightarrow> world \<Rightarrow>
   (cpp_error + SerialInterface) \<times> world" where
  "attach_serial env clk name F preload w =
     (case Connection_construct name (Some F) False (Some (AddressPool_construct 120000))
             (Some (PacketQueue_construct False)) of
        Inl e \<Rightarrow> (Inl e, w)
      | Inr conn \<Rightarrow>
          (let c = w_next w;
               w1 = w\<lparr>w_net := (w_net w)\<lparr>net_conns := (net_conns (w_net w))(c \<mapsto> conn)\<rparr>, w_next := Suc c\<rparr>
           in case preload_addresses env clk 0 c preload w1 of
                (Inl e, w2) \<Rightarrow> (Inl e, drop_connection c w2)
              | (Inr _, w2) \<Rightarrow>
                  (case SerialInterface_construct True True (Some c) w2 of
                     (Inl e, w3) \<Rightarrow> (Inl e, drop_connection c w3)
                   | (Inr i, w3) \<Rightarrow> (Inr i, w3))))"

definition parse_serial ::
  "'s unix_calls \<Rightarrow> environment \<Rightarrow> (nat \<Rightarrow> readings) \<Rightarrow> Filter \<Rightarrow> node \<Rightarrow> 's \<Rightarrow> world \<Rightarrow>
   (cpp_error + Interface) \<times> 's \<times> world" where
  "parse_serial sys env clk F root s w =
     (case serial_options (node_children root) serial_defaults of
        Inl e \<Rightarrow> (Inl e, s, w)
      | Inr settings \<Rightarrow>
          (case ss_device settings of
             None \<Rightarrow> (Inl (Invalid_argument ''missing device string''), s, w)
           | Some device \<Rightarrow>
               (case UnixSerialPort_construct sys device (ss_baud_rate settings) (ss_features settings) s of
                  (Inl e, s1) \<Rightarrow> (Inl e, s1, w)
                | (Inr port, s1) \<Rightarrow>
                    (case attach_serial env clk device F (ss_preload settings) w of
                       (Inl e, w1) \<Rightarrow> (Inl e, UnixSerialPort_destroy sys port s1, w1)
                     | (Inr i, w1) \<Rightarrow> (Inr (SerialLink port i), s1, w1)))))"

text \<open>\<open>parse_udp\<close>; \<open>number\<close> is the number of the factory.\<close>

definition parse_udp ::
  "'s unix_calls \<Rightarrow> (string \<Rightarrow> string list) \<Rightarrow> nat \<Rightarrow> Filter \<Rightarrow> node \<Rightarrow> 's \<Rightarrow> world \<Rightarrow>
   (cpp_error + Interface) \<times> 's \<times> world" where
  "parse_udp sys split_colon number F root s w =
     (case udp_options split_colon (node_children root) udp_defaults of
        Inl e \<Rightarrow> (Inl e, s, w)
      | Inr settings \<Rightarrow>
          (case UnixUDPSocket_construct sys (su_port settings) (su_address settings) (su_max_bitrate settings) s of
             (Inl e, s1) \<Rightarrow> (Inl e, s1, w)
           | (Inr socket, s1) \<Rightarrow>
               (case ConnectionFactory_construct number (Some F) False (w_net w) of
                  (Inl e, n) \<Rightarrow> (Inl e, UnixUDPSocket_destroy sys socket s1, w\<lparr>w_net := n\<rparr>)
                | (Inr cf, n) \<Rightarrow>
                    (case UDPInterface_construct True True (Some cf) of
                       Inl e \<Rightarrow> (Inl e, UnixUDPSocket_destroy sys socket s1, w\<lparr>w_net := n\<rparr>)
                     | Inr i \<Rightarrow> (Inr (UDPLink socket i), s1, w\<lparr>w_net := n\<rparr>)))))"

text \<open>
  The loop of \<open>parse_interfaces\<close>.  When a statement throws, the vector destroys the interfaces made
  so far, the first one first.  \<open>clk k\<close> has the clock readings made for the \<open>k\<close>-th interface.
\<close>

fun interface_loop ::
  "'s unix_calls \<Rightarrow> (string \<Rightarrow> string list) \<Rightarrow> environment \<Rightarrow> (nat \<Rightarrow> nat \<Rightarrow> readings) \<Rightarrow> Filter \<Rightarrow>
   node list \<Rightarrow> Interface list \<Rightarrow> 's \<Rightarrow> world \<Rightarrow> (cpp_error + Interface list) \<times> 's \<times> world" where
  "interface_loop sys split_colon env clk F [] made s w = (Inr made, s, w)"
| "interface_loop sys split_colon env clk F (n # ns) made s w =
     (if node_name n = ''config::udp''
      then
        (case parse_udp sys split_colon (length made) F n s w of
           (Inl e, s', w') \<Rightarrow> (Inl e, fold (destroy_interface sys) made s', w')
         | (Inr i, s', w') \<Rightarrow> interface_loop sys split_colon env clk F ns (made @ [i]) s' w')
      else if node_name n = ''config::serial''
      then
        (case parse_serial sys env (clk (length made)) F n s w of
           (Inl e, s', w') \<Rightarrow> (Inl e, fold (destroy_interface sys) made s', w')
         | (Inr i, s', w') \<Rightarrow> interface_loop sys split_colon env clk F ns (made @ [i]) s' w')
      else interface_loop sys split_colon env clk F ns made s w)"

definition new_world :: world where
  "new_world =
     \<lparr>w_net = \<lparr>net_conns = (\<lambda>_. None), net_guards = (\<lambda>_. {}), net_log = [], net_owner = (\<lambda>_. None),
        net_sems = (\<lambda>_. 0)\<rparr>, w_pool = [], w_next = 0, w_cerr = []\<rparr>"

definition parse_interfaces ::
  "'s unix_calls \<Rightarrow> (string \<Rightarrow> string list) \<Rightarrow> environment \<Rightarrow> (nat \<Rightarrow> nat \<Rightarrow> readings) \<Rightarrow> Filter \<Rightarrow> node list \<Rightarrow> 's \<Rightarrow>
   (cpp_error + Interface list) \<times> 's \<times> world" where
  "parse_interfaces sys split_colon env clk F root s =
     interface_loop sys split_colon env clk F root [] s new_world"

section \<open>The application\<close>

text \<open>Every interface with its threader, which is not started yet.\<close>

type_synonym App = "(Interface \<times> threader) list"

definition App_construct :: "Interface list \<Rightarrow> App" where
  "App_construct interfaces = map (\<lambda>i. (i, InterfaceThreader_construct False)) interfaces"

definition make_app ::
  "'s unix_calls \<Rightarrow> (string \<Rightarrow> string list) \<Rightarrow> (string \<Rightarrow> string list) \<Rightarrow> environment \<Rightarrow>
   (nat \<Rightarrow> nat \<Rightarrow> readings) \<Rightarrow> node list \<Rightarrow> 's \<Rightarrow> (cpp_error + App) \<times> 's \<times> world" where
  "make_app sys tok split_colon env clk root s =
     (case parse_filter (env_mavlink env) tok root of
        Inl e \<Rightarrow> (Inl e, s, new_world)
      | Inr F \<Rightarrow>
          (case parse_interfaces sys split_colon env clk F root s of
             (Inl e, s', w) \<Rightarrow> (Inl e, s', w)
           | (Inr interfaces, s', w) \<Rightarrow> (Inr (App_construct interfaces), s', w)))"



section \<open>The network that is built\<close>

text \<open>
  While the program is built no connection belongs to a factory, no chain is being evaluated, and
  nothing is queued.
\<close>

lemma accounted_unowned: "net_owner n = (\<lambda>_. None) \<Longrightarrow> accounted n \<longleftrightarrow> (\<forall>f. net_sems n f = 0)"
  by (simp add: accounted_def owned_def counted_def)

lemma world_inv_empty: "filter_total env F (\<lambda>_. {}) \<Longrightarrow> world_inv env F new_world"
  by (simp add: world_inv_def new_world_def accounted_unowned)

lemma preload_addresses_ok:
  assumes "world_inv env F w" "net_conns (w_net w) c = Some conn" "\<forall>i. readings_ok (clk i)"
  shows "\<exists>w'. preload_addresses env clk i c addrs w = (Inr (), w') \<and> passes env F c [] w w' \<and> w_pool w' = w_pool w"
  using assms
proof (induction addrs arbitrary: i w conn)
  case Nil
  then show ?case by (simp add: passes_def gains_queues)
next
  case (Cons a addrs)
  obtain w1 conn1 where w1: "call_add_address env (clk i) c a w = (Inr (), w1)" "passes env F c [] w w1"
      "net_conns (w_net w1) c = Some conn1" "w_pool w1 = w_pool w"
    using call_add_address_ok [OF Cons.prems(1,2), of "clk i" a] Cons.prems(3) by blast
  have "world_inv env F w1" using w1(2) by (simp add: passes_def)
  from Cons.IH [OF this w1(3) Cons.prems(3), of "Suc i"] show ?case
    using w1 passes_trans by fastforce
qed

definition idle :: "world \<Rightarrow> bool" where
  "idle w \<longleftrightarrow>
     net_guards (w_net w) = (\<lambda>_. {}) \<and>
     (\<forall>c conn. net_conns (w_net w) c = Some conn \<longrightarrow> pq_queue (conn_queue conn) = [])"

lemma passes_idle:
  assumes "passes env F c [] w w'" "idle w"
  shows "idle w'"
proof -
  have "pq_queue (conn_queue conn') = []" if c: "net_conns (w_net w') d = Some conn'" for d conn'
  proof -
    obtain conn where "net_conns (w_net w) d = Some conn" using assms(1) c by (auto simp: passes_def)
    then show ?thesis
      using assms c by (fastforce simp: passes_def gains_def idle_def queue_data_def)
  qed
  then show ?thesis using assms by (simp add: passes_def gains_def idle_def)
qed

definition unowned :: "environment \<Rightarrow> Filter \<Rightarrow> world \<Rightarrow> bool" where
  "unowned env F w \<longleftrightarrow> world_inv env F w \<and> net_owner (w_net w) = (\<lambda>_. None) \<and> idle w"

lemma attach_serial_ok:
  assumes "unowned env F w" "\<forall>i. readings_ok (clk i)"
  shows "\<exists>i w' conn. attach_serial env clk name F addrs w = (Inr i, w') \<and> unowned env F w' \<and> net_keeps w w' \<and>
    ser_connection i = w_next w \<and> ser_parser i = parser_initial \<and> w_next w' = Suc (w_next w) \<and>
    w_next w \<in> set (w_pool w') \<and> net_conns (w_net w') (w_next w) = Some conn \<and> conn_name conn = name \<and>
    pq_running (conn_queue conn)"
proof -
  let ?c = "w_next w"
  let ?conn = "\<lparr>conn_name = name, conn_filter = F, conn_mirror = False, conn_pool = AddressPool_construct 120000,
      conn_queue = PacketQueue_construct False\<rparr>"
  let ?n = "(w_net w)\<lparr>net_conns := (net_conns (w_net w))(?c \<mapsto> ?conn)\<rparr>"
  let ?w1 = "w\<lparr>w_net := ?n, w_next := Suc ?c\<rparr>"
  have inv: "world_inv env F w" and own: "net_owner (w_net w) = (\<lambda>_. None)" using assms(1) by (auto simp: unowned_def)
  have free: "net_conns (w_net w) ?c = None" "?c \<notin> set (w_pool w)"
  proof -
    show "net_conns (w_net w) ?c = None"
      using inv by (cases "net_conns (w_net w) ?c") (auto simp: world_inv_def)
    show "?c \<notin> set (w_pool w)" using inv by (auto simp: world_inv_def)
  qed
  have "accounted ?n" using inv own by (simp add: world_inv_def accounted_unowned)
  then have inv1: "world_inv env F ?w1"
    using inv by (auto simp: world_inv_def conn_inv_def AddressPool_construct_def pool_wf_def less_Suc_eq)
  obtain w2 where w2: "preload_addresses env clk 0 ?c addrs ?w1 = (Inr (), w2)" "passes env F ?c [] ?w1 w2"
      "w_pool w2 = w_pool w"
    using preload_addresses_ok [OF inv1 _ assms(2), of ?c ?conn 0 addrs] by auto
  let ?w3 = "w2\<lparr>w_pool := conn_pool_add ?c (w_pool w)\<rparr>"
  have run: "attach_serial env clk name F addrs w = (Inr \<lparr>ser_connection = ?c, ser_parser = parser_initial\<rparr>, ?w3)"
    using w2(1,3) by (simp add: attach_serial_def Connection_construct_def SerialInterface_construct_def Let_def)
  have nxt: "w_next w2 = Suc ?c" using w2(2) by (simp add: passes_def)
  have inv2: "world_inv env F w2" using w2(2) by (simp add: passes_def)
  have pool: "set (conn_pool_add ?c (w_pool w)) = insert ?c (set (w_pool w))" "distinct (conn_pool_add ?c (w_pool w))"
    using pool_add_set [of ?c "w_pool w"] free(2) inv by (auto simp: world_inv_def)
  have inv3: "world_inv env F ?w3"
    using inv2 pool inv nxt by (auto simp: world_inv_def w2(3) less_Suc_eq)
  have "idle ?w1" using assms(1) by (simp add: unowned_def idle_def PacketQueue_construct_def)
  then have "idle w2" by (rule passes_idle [OF w2(2)])
  then have "unowned env F ?w3" using inv3 w2(2) own by (simp add: unowned_def passes_def idle_def)
  moreover have "net_keeps w ?w3"
  proof -
    have "net_keeps w ?w1" using free(1) by (auto simp: net_keeps_def keeps_def)
    moreover have "net_keeps ?w1 w2" using w2(2) by (simp add: passes_def)
    moreover have "net_keeps w2 ?w3" using pool(1) w2(3) by (auto simp: net_keeps_def keeps_def)
    ultimately show ?thesis using net_keeps_trans by blast
  qed
  moreover obtain conn where "net_conns (w_net w2) ?c = Some conn" "conn_name conn = name"
      "pq_running (conn_queue conn)"
  proof -
    have "net_keeps ?w1 w2" using w2(2) by (simp add: passes_def)
    then have "\<exists>conn. net_conns (w_net w2) ?c = Some conn \<and> keeps ?conn conn"
      unfolding net_keeps_def by (elim allE [of _ ?c] allE [of _ ?conn]) auto
    then show ?thesis using that by (auto simp: keeps_def PacketQueue_construct_def)
  qed
  ultimately show ?thesis using run nxt pool(1) by auto
qed


text \<open>What holds of the interfaces made so far.\<close>

definition link_built :: "Filter \<Rightarrow> world \<Rightarrow> nat \<Rightarrow> Interface \<Rightarrow> bool" where
  "link_built F w k l =
     (case l of
        SerialLink port i \<Rightarrow>
          (\<exists>conn. net_conns (w_net w) (ser_connection i) = Some conn \<and> conn_name conn = sp_device port \<and>
             pq_running (conn_queue conn)) \<and>
          ser_connection i \<in> set (w_pool w) \<and> ser_parser i = parser_initial
      | UDPLink socket i \<Rightarrow>
          udp_connections i = [] \<and> udp_parser i = parser_initial \<and>
          cf_filter (udp_factory i) = F \<and> cf_number (udp_factory i) = k)"

fun serial_numbers :: "Interface list \<Rightarrow> nat list" where
  "serial_numbers [] = []"
| "serial_numbers (SerialLink port i # ls) = ser_connection i # serial_numbers ls"
| "serial_numbers (UDPLink socket i # ls) = serial_numbers ls"

lemma serial_numbers_append [simp]: "serial_numbers (xs @ ys) = serial_numbers xs @ serial_numbers ys"
  by (induction xs rule: serial_numbers.induct) simp_all

definition built :: "environment \<Rightarrow> Filter \<Rightarrow> Interface list \<Rightarrow> world \<Rightarrow> bool" where
  "built env F made w \<longleftrightarrow>
     unowned env F w \<and> (\<forall>k < length made. link_built F w k (made ! k)) \<and>
     distinct (serial_numbers made) \<and> (\<forall>c \<in> set (serial_numbers made). c < w_next w)"

lemma link_built_keeps: "link_built F w k l \<Longrightarrow> net_keeps w w' \<Longrightarrow> link_built F w' k l"
proof (cases l)
  case (SerialLink port i)
  moreover assume "link_built F w k l" "net_keeps w w'"
  ultimately show ?thesis unfolding link_built_def net_keeps_def keeps_def by fastforce
qed (simp add: link_built_def)

lemma built_step:
  assumes "built env F made w" "unowned env F w'" "net_keeps w w'" "w_next w \<le> w_next w'"
    "link_built F w' (length made) l" "\<forall>c \<in> set (serial_numbers [l]). w_next w \<le> c \<and> c < w_next w'"
  shows "built env F (made @ [l]) w'"
proof -
  have "link_built F w' k ((made @ [l]) ! k)" if "k < length (made @ [l])" for k
    using that assms(1,3,5) link_built_keeps by (auto simp: built_def nth_append less_Suc_eq)
  moreover have "distinct (serial_numbers (made @ [l]))"
    using assms(1,6) by (cases l) (auto simp: built_def)
  moreover have "\<forall>c \<in> set (serial_numbers (made @ [l])). c < w_next w'"
    using assms(1,4,6) by (auto simp: built_def)
  ultimately show ?thesis using assms(2) by (simp add: built_def)
qed

lemma serial_construct_device:
  "UnixSerialPort_construct sys device baud features s = (Inr port, s') \<Longrightarrow> sp_device port = device"
  by (auto simp: UnixSerialPort_construct_def open_port_def Let_def split: prod.splits sum.splits if_splits)

lemma parse_serial_built:
  assumes "parse_serial sys env clk F n s w = (Inr l, s', w')" "built env F made w" "\<forall>i. readings_ok (clk i)"
  shows "built env F (made @ [l]) w' \<and> (\<exists>port i. l = SerialLink port i)"
proof -
  obtain settings device port s1 where dev: "serial_options (node_children n) serial_defaults = Inr settings"
      "UnixSerialPort_construct sys device (ss_baud_rate settings) (ss_features settings) s = (Inr port, s1)"
      "ss_device settings = Some device"
    using assms(1) by (auto simp: parse_serial_def split: sum.splits option.splits prod.splits)
  have "unowned env F w" using assms(2) by (simp add: built_def)
  from attach_serial_ok [OF this assms(3), of device "ss_preload settings"]
  obtain i w2 conn where i: "attach_serial env clk device F (ss_preload settings) w = (Inr i, w2)"
      "unowned env F w2" "net_keeps w w2" "ser_connection i = w_next w" "ser_parser i = parser_initial"
      "w_next w2 = Suc (w_next w)" "w_next w \<in> set (w_pool w2)"
      "net_conns (w_net w2) (w_next w) = Some conn" "conn_name conn = device" "pq_running (conn_queue conn)" by blast
  have l: "l = SerialLink port i" "w' = w2"
    using assms(1) dev i(1) by (simp_all add: parse_serial_def)
  have "link_built F w2 (length made) l"
    using i serial_construct_device [OF dev(2)] by (simp add: link_built_def l)
  then show ?thesis using built_step [OF assms(2) i(2,3), of l] i(4,6) by (simp add: l)
qed

lemma parse_udp_built:
  assumes "parse_udp sys split_colon (length made) F n s w = (Inr l, s', w')" "built env F made w"
  shows "built env F (made @ [l]) w' \<and> (\<exists>socket i. l = UDPLink socket i)"
proof -
  let ?k = "length made"
  let ?w = "w\<lparr>w_net := (w_net w)\<lparr>net_sems := (net_sems (w_net w))(?k := 0)\<rparr>\<rparr>"
  obtain socket i where l: "l = UDPLink socket i" "w' = ?w"
      "udp_connections i = []" "udp_parser i = parser_initial" "cf_filter (udp_factory i) = F"
      "cf_number (udp_factory i) = ?k"
    using assms(1)
    by (auto simp: parse_udp_def ConnectionFactory_construct_def UDPInterface_construct_def
        split: sum.splits option.splits prod.splits)
  have u: "unowned env F w" using assms(2) by (simp add: built_def)
  then have own: "net_owner (w_net w) = (\<lambda>_. None)" "accounted (w_net w)"
    by (auto simp: unowned_def world_inv_def)
  then have "\<forall>f. net_sems (w_net w) f = 0" using accounted_unowned by blast
  then have "accounted (w_net ?w)" using own(1) by (simp add: accounted_unowned)
  then have "unowned env F ?w" using u by (auto simp: unowned_def world_inv_def idle_def)
  moreover have "net_keeps w ?w" by (auto simp: net_keeps_def keeps_def)
  ultimately show ?thesis using built_step [OF assms(2), of ?w l] l by (simp add: link_built_def)
qed

definition link_kind :: "Interface \<Rightarrow> string" where
  "link_kind l = (case l of SerialLink port i \<Rightarrow> ''config::serial'' | UDPLink socket i \<Rightarrow> ''config::udp'')"

definition is_link :: "node \<Rightarrow> bool" where
  "is_link n \<longleftrightarrow> node_name n \<in> {''config::udp'', ''config::serial''}"

lemma interface_loop_built:
  assumes "interface_loop sys split_colon env clk F ns made s w = (Inr made', s', w')" "built env F made w"
    "\<forall>k i. readings_ok (clk k i)"
  shows "built env F made' w' \<and> map link_kind made' = map link_kind made @ map node_name (filter is_link ns)"
  using assms(1,2)
proof (induction ns arbitrary: made s w)
  case (Cons n ns)
  consider "node_name n = ''config::udp''" | "node_name n = ''config::serial''" | "\<not> is_link n"
    by (auto simp: is_link_def)
  then show ?case
  proof cases
    case 1
    then obtain l s1 w1 where l: "parse_udp sys split_colon (length made) F n s w = (Inr l, s1, w1)"
        "interface_loop sys split_colon env clk F ns (made @ [l]) s1 w1 = (Inr made', s', w')"
      using Cons.prems(1) by (auto split: sum.splits prod.splits)
    then show ?thesis
      using Cons.IH [OF l(2)] parse_udp_built [OF l(1) Cons.prems(2)] 1 by (auto simp: link_kind_def is_link_def)
  next
    case 2
    then obtain l s1 w1 where l: "parse_serial sys env (clk (length made)) F n s w = (Inr l, s1, w1)"
        "interface_loop sys split_colon env clk F ns (made @ [l]) s1 w1 = (Inr made', s', w')"
      using Cons.prems(1) by (auto split: sum.splits prod.splits)
    then show ?thesis
      using Cons.IH [OF l(2)] parse_serial_built [OF l(1) Cons.prems(2)] assms(3) 2
      by (auto simp: link_kind_def is_link_def)
  next
    case 3
    then show ?thesis using Cons by (auto simp: is_link_def)
  qed
qed simp


lemma filter_total_config:
  assumes "parse_filter (env_mavlink env) tok root = Inr F" "config_ranked rank root"
  shows "filter_total env F (\<lambda>_. {})"
  unfolding filter_total_def
proof (intro allI impI)
  fix p addr
  assume "packet_wf (env_mavlink env) p"
  from parse_filter_total [OF assms this, of "env_thread env" "\<lambda>_. {}" addr]
  show "\<exists>accept priority. int_min \<le> priority \<and>
      will_accept F (env_thread env) p addr (\<lambda>_. {}) = Some (Inr (accept, priority), \<lambda>_. {})"
    by (auto simp: int_range_def)
qed

lemma built_link_inv:
  assumes "built env F made w" "k < length made"
  shows "case made ! k of
      SerialLink port i \<Rightarrow> serial_inv env F (i, w) \<and> ser_parser i = parser_initial \<and> ser_connection i \<in> set (w_pool w)
    | UDPLink socket i \<Rightarrow> udp_inv env F (i, w) \<and> udp_parser i = parser_initial \<and> cf_number (udp_factory i) = k"
proof -
  have inv: "world_inv env F w" "net_owner (w_net w) = (\<lambda>_. None)" "link_built F w k (made ! k)"
    using assms by (auto simp: built_def unowned_def)
  then show ?thesis
    by (cases "made ! k") (auto simp: link_built_def serial_inv_def udp_inv_def owned_def map_wf_def)
qed

lemma make_app_built:
  assumes "make_app sys tok split_colon env clk root s = (Inr app, s', w)" "config_ranked rank root"
    "\<forall>k i. readings_ok (clk k i)"
  obtains F where "parse_filter (env_mavlink env) tok root = Inr F" "built env F (map fst app) w"
    "map link_kind (map fst app) = map node_name (filter is_link root)"
    "\<forall>x \<in> set app. snd x = InterfaceThreader_construct False"
proof -
  obtain F made where F: "parse_filter (env_mavlink env) tok root = Inr F"
      "interface_loop sys split_colon env clk F root [] s new_world = (Inr made, s', w)"
      "app = map (\<lambda>i. (i, InterfaceThreader_construct False)) made"
    using assms(1) by (auto simp: make_app_def parse_interfaces_def App_construct_def split: sum.splits prod.splits)
  have "unowned env F new_world"
    using world_inv_empty [OF filter_total_config [OF F(1) assms(2)]] by (simp add: unowned_def new_world_def idle_def)
  then have "built env F [] new_world" by (simp add: built_def)
  from interface_loop_built [OF F(2) this assms(3)] have "built env F made w"
      "map link_kind made = map node_name (filter is_link root)" by auto
  moreover have "map fst app = made" by (simp add: F(3) o_def)
  ultimately show ?thesis using that [OF F(1)] F(3) by auto
qed

text \<open>C16: the program that \<open>make_app\<close> builds starts in a consistent state.  If the chains do not refer
  to each other in a circle, there is one interface for each block of the file, in its order; all
  threads are still to be started; every interface satisfies the invariant that receiving and sending
  packets preserve, with the filter of the file; the serial links have different connections, and the
  UDP interfaces have different factories.\<close>

theorem make_app_ready:
  assumes "make_app sys tok split_colon env clk root s = (Inr app, s', w)" "config_ranked rank root"
    "\<forall>k i. readings_ok (clk k i)"
  shows "map (link_kind \<circ> fst) app = map node_name (filter is_link root) \<and>
    list_all (\<lambda>x. snd x = InterfaceThreader_construct False) app \<and>
    distinct (serial_numbers (map fst app)) \<and>
    (\<exists>F. parse_filter (env_mavlink env) tok root = Inr F \<and>
       (\<forall>k < length app.
          (case fst (app ! k) of
             SerialLink port i \<Rightarrow>
               serial_inv env F (i, w) \<and> ser_parser i = parser_initial \<and> ser_connection i \<in> set (w_pool w)
           | UDPLink socket i \<Rightarrow>
               udp_inv env F (i, w) \<and> udp_parser i = parser_initial \<and> cf_number (udp_factory i) = k)))"
proof -
  from make_app_built [OF assms] obtain F where F: "parse_filter (env_mavlink env) tok root = Inr F"
      "built env F (map fst app) w" "map link_kind (map fst app) = map node_name (filter is_link root)"
      "\<forall>x \<in> set app. snd x = InterfaceThreader_construct False" by blast
  have "distinct (serial_numbers (map fst app))" using F(2) by (simp add: built_def)
  moreover have "case fst (app ! k) of
      SerialLink port i \<Rightarrow> serial_inv env F (i, w) \<and> ser_parser i = parser_initial \<and> ser_connection i \<in> set (w_pool w)
    | UDPLink socket i \<Rightarrow> udp_inv env F (i, w) \<and> udp_parser i = parser_initial \<and> cf_number (udp_factory i) = k"
    if "k < length app" for k
    using built_link_inv [OF F(2), of k] that by (simp split: Interface.splits)
  ultimately show ?thesis using F(1,3,4) by (auto simp: list_all_iff)
qed


section \<open>Descriptors\<close>

text \<open>
  What the system calls do to the descriptors the process has open, as \<open>open(2)\<close>, \<open>socket(2)\<close> and
  \<open>close(2)\<close> document it; the other calls leave them alone.
\<close>

definition makes_descriptor :: "('s \<Rightarrow> int set) \<Rightarrow> ('s \<Rightarrow> int \<times> 's) \<Rightarrow> bool" where
  "makes_descriptor fds call \<longleftrightarrow>
     (\<forall>s. case call s of (fd, s') \<Rightarrow>
        if fd < 0 then fds s' = fds s else fd \<notin> fds s \<and> fds s' = insert fd (fds s))"

lemma makes_descriptorD:
  "makes_descriptor fds call \<Longrightarrow> call s = (fd, s') \<Longrightarrow>
   if fd < 0 then fds s' = fds s else fd \<notin> fds s \<and> fds s' = insert fd (fds s)"
  by (auto simp: makes_descriptor_def dest: spec [of _ s])

definition descriptor_laws :: "'s unix_calls \<Rightarrow> ('s \<Rightarrow> int set) \<Rightarrow> bool" where
  "descriptor_laws sys fds \<longleftrightarrow>
     (\<forall>device. makes_descriptor fds (sys_open sys device)) \<and> makes_descriptor fds (sys_socket sys) \<and>
     (\<forall>fd s. fds (snd (sys_close sys fd s)) = fds s - {fd}) \<and>
     (\<forall>fd port a s. fds (snd (sys_bind sys fd port a s)) = fds s) \<and>
     (\<forall>fd s. fds (snd (sys_tcgetattr sys fd s)) = fds s) \<and>
     (\<forall>fd t s. fds (snd (sys_tcsetattr sys fd t s)) = fds s) \<and>
     (\<forall>s. fds (snd (sys_now sys s)) = fds s)"

text \<open>A construction either takes one new descriptor or leaves the descriptors as they were.\<close>

definition takes_descriptor :: "('s \<Rightarrow> int set) \<Rightarrow> ('a \<Rightarrow> int) \<Rightarrow> 's \<Rightarrow> cpp_error + 'a \<Rightarrow> 's \<Rightarrow> bool" where
  "takes_descriptor fds fd s r s' \<longleftrightarrow>
     (case r of
        Inl e \<Rightarrow> fds s' = fds s
      | Inr x \<Rightarrow> fd x \<notin> fds s \<and> fds s' = insert (fd x) (fds s))"

lemma configure_port_fds:
  assumes "descriptor_laws sys fds" "configure_port sys baud features p s = (r, s')"
  shows "fds s' = fds s"
proof -
  obtain r1 tty s1 where g: "sys_tcgetattr sys (sp_port p) s = ((r1, tty), s1)" by (metis prod.exhaust)
  have "fds s1 = fds s" using assms(1) g unfolding descriptor_laws_def by (metis snd_conv)
  moreover have "fds (snd (sys_tcsetattr sys fd t s1)) = fds s1" for fd t
    using assms(1) by (simp add: descriptor_laws_def)
  ultimately show ?thesis
    using assms(2) g
    by (auto simp: configure_port_def Let_def split: sum.splits if_splits prod.splits) (metis snd_conv)+
qed

lemma serial_construct_fds:
  assumes "descriptor_laws sys fds" "UnixSerialPort_construct sys device baud features s = (r, s')"
  shows "takes_descriptor fds sp_port s r s'"
proof -
  obtain fd s1 where o: "sys_open sys device s = (fd, s1)" by fastforce
  have new: "if fd < 0 then fds s1 = fds s else fd \<notin> fds s \<and> fds s1 = insert fd (fds s)"
    using makes_descriptorD [of fds "sys_open sys device", OF _ o] assms(1) by (simp add: descriptor_laws_def)
  show ?thesis
  proof (cases "fd < 0")
    case True
    then show ?thesis
      using assms(2) o new
      by (auto simp: UnixSerialPort_construct_def open_port_def takes_descriptor_def)
  next
    case False
    let ?p = "\<lparr>sp_device = device, sp_baud_rate = baud, sp_features = features, sp_port = fd\<rparr>"
    obtain r2 s2 where c: "configure_port sys baud features ?p s1 = (r2, s2)" by fastforce
    have "fds s2 = fds s1" by (rule configure_port_fds [OF assms(1) c])
    moreover have "fds (snd (sys_close sys fd s2)) = fds s2 - {fd}" using assms(1) by (simp add: descriptor_laws_def)
    ultimately show ?thesis
      using assms(2) o new False c
      by (cases r2) (auto simp: UnixSerialPort_construct_def open_port_def takes_descriptor_def Let_def)
  qed
qed

lemma udp_construct_fds:
  assumes "descriptor_laws sys fds" "UnixUDPSocket_construct sys port addr bitrate s = (r, s')"
    "\<forall>fd port a s. 0 \<le> fst (sys_bind sys fd port a s)"
  shows "takes_descriptor fds us_socket s r s'"
proof -
  obtain now s1 where n: "sys_now sys s = (now, s1)" by fastforce
  obtain fd s2 where o: "sys_socket sys s1 = (fd, s2)" by fastforce
  have "fds s1 = fds s" using assms(1) n unfolding descriptor_laws_def by (metis snd_conv)
  then have new: "if fd < 0 then fds s2 = fds s else fd \<notin> fds s \<and> fds s2 = insert fd (fds s)"
    using makes_descriptorD [of fds "sys_socket sys", OF _ o] assms(1) by (auto simp: descriptor_laws_def split: if_splits)
  obtain b s3 where b: "sys_bind sys fd (ucast port) (case addr of Some a \<Rightarrow> ucast (ip_address a) | None \<Rightarrow> 0) s2 = (b, s3)"
    by fastforce
  have "0 \<le> b" using assms(3) b by (metis fst_conv)
  moreover have "fds s3 = fds s2" using assms(1) b unfolding descriptor_laws_def by (metis snd_conv)
  ultimately show ?thesis
    using assms(2) n o b new
    by (auto simp: UnixUDPSocket_construct_def create_socket_def takes_descriptor_def Let_def split: if_splits)
qed

fun link_descriptor :: "Interface \<Rightarrow> int" where
  "link_descriptor (SerialLink port i) = sp_port port"
| "link_descriptor (UDPLink socket i) = us_socket socket"

lemma destroy_interfaces_fds:
  assumes "descriptor_laws sys fds"
  shows "fds (fold (destroy_interface sys) made s) = fds s - set (map link_descriptor made)"
proof (induction made arbitrary: s)
  case (Cons l made)
  have "fds (destroy_interface sys l s) = fds s - {link_descriptor l}"
    using assms by (cases l) (auto simp: UnixSerialPort_destroy_def UnixUDPSocket_destroy_def descriptor_laws_def)
  then show ?case using Cons by auto
qed simp

lemma parse_serial_fds:
  assumes "descriptor_laws sys fds" "parse_serial sys env clk F n s w = (r, s', w')"
  shows "takes_descriptor fds link_descriptor s r s'"
proof (cases "serial_options (node_children n) serial_defaults")
  case (Inl e)
  then show ?thesis using assms(2) by (auto simp: parse_serial_def takes_descriptor_def)
next
  case (Inr settings)
  show ?thesis
  proof (cases "ss_device settings")
    case None
    then show ?thesis using assms(2) Inr by (auto simp: parse_serial_def takes_descriptor_def)
  next
    case (Some device)
    obtain r1 s1 where c: "UnixSerialPort_construct sys device (ss_baud_rate settings) (ss_features settings) s = (r1, s1)"
      by fastforce
    have t: "takes_descriptor fds sp_port s r1 s1" by (rule serial_construct_fds [OF assms(1) c])
    have d: "fds (UnixSerialPort_destroy sys port s1) = fds s1 - {sp_port port}" for port
      using assms(1) by (simp add: UnixSerialPort_destroy_def descriptor_laws_def)
    show ?thesis
      using assms(2) Inr Some c t d
      by (auto simp: parse_serial_def takes_descriptor_def split: sum.splits prod.splits)
  qed
qed

lemma parse_udp_fds:
  assumes "descriptor_laws sys fds" "parse_udp sys split_colon k F n s w = (r, s', w')"
    "\<forall>fd port a s. 0 \<le> fst (sys_bind sys fd port a s)"
  shows "takes_descriptor fds link_descriptor s r s'"
proof (cases "udp_options split_colon (node_children n) udp_defaults")
  case (Inl e)
  then show ?thesis using assms(2) by (auto simp: parse_udp_def takes_descriptor_def)
next
  case (Inr settings)
  obtain r1 s1 where c: "UnixUDPSocket_construct sys (su_port settings) (su_address settings) (su_max_bitrate settings) s = (r1, s1)"
    by fastforce
  have "takes_descriptor fds us_socket s r1 s1" by (rule udp_construct_fds [OF assms(1) c assms(3)])
  then show ?thesis
    using assms(2) Inr c
    by (cases r1)
      (auto simp: parse_udp_def takes_descriptor_def ConnectionFactory_construct_def UDPInterface_construct_def)
qed

lemma App_descriptors: "map (link_descriptor \<circ> fst) (App_construct made) = map link_descriptor made"
  by (simp add: App_construct_def o_def)

definition holds_descriptors :: "('s \<Rightarrow> int set) \<Rightarrow> int set \<Rightarrow> Interface list \<Rightarrow> 's \<Rightarrow> bool" where
  "holds_descriptors fds base made s \<longleftrightarrow>
     fds s = base \<union> set (map link_descriptor made) \<and> distinct (map link_descriptor made) \<and>
     base \<inter> set (map link_descriptor made) = {}"

lemma interface_loop_fds:
  assumes "descriptor_laws sys fds" "\<forall>fd port a s. 0 \<le> fst (sys_bind sys fd port a s)"
    "interface_loop sys split_colon env clk F ns made s w = (r, s', w')" "holds_descriptors fds base made s"
  shows "case r of Inl e \<Rightarrow> fds s' = base | Inr made' \<Rightarrow> holds_descriptors fds base made' s'"
  using assms(3,4)
proof (induction ns arbitrary: made s w)
  case (Cons n ns)
  have link: ?case
    if one: "takes_descriptor fds link_descriptor s r1 s1"
      and go: "(r, s', w') = (case r1 of Inl e \<Rightarrow> (Inl e, fold (destroy_interface sys) made s1, w1)
          | Inr l \<Rightarrow> interface_loop sys split_colon env clk F ns (made @ [l]) s1 w1)" for r1 s1 w1
  proof (cases r1)
    case (Inl e)
    then show ?thesis
      using one go destroy_interfaces_fds [OF assms(1), of made s1] Cons.prems(2)
      by (auto simp: takes_descriptor_def holds_descriptors_def)
  next
    case (Inr l)
    then have "holds_descriptors fds base (made @ [l]) s1"
      using one Cons.prems(2) by (auto simp: takes_descriptor_def holds_descriptors_def)
    from Cons.IH [OF _ this] show ?thesis using go Inr by simp
  qed
  obtain r1 s1 w1 where u: "parse_udp sys split_colon (length made) F n s w = (r1, s1, w1)" by (metis prod.exhaust)
  obtain r2 s2 w2 where v: "parse_serial sys env (clk (length made)) F n s w = (r2, s2, w2)" by (metis prod.exhaust)
  consider "node_name n = ''config::udp''" | "node_name n = ''config::serial''" | "\<not> is_link n"
    by (auto simp: is_link_def)
  then show ?case
  proof cases
    case 1
    then show ?thesis
      using Cons.prems(1) u by (intro link [of r1 s1 w1, OF parse_udp_fds [OF assms(1) u assms(2)]]) (simp split: sum.splits)
  next
    case 2
    then show ?thesis
      using Cons.prems(1) v by (intro link [of r2 s2 w2, OF parse_serial_fds [OF assms(1) v]]) (simp split: sum.splits)
  next
    case 3
    then show ?thesis using Cons by (auto simp: is_link_def)
  qed
qed auto

text \<open>C19: \<open>make_app\<close> leaks no descriptor when it fails: if binding a socket cannot fail, the descriptors
  open after an exception are those open before, and after success each interface holds a
  descriptor of its own in addition to them.\<close>

theorem make_app_descriptors:
  assumes "descriptor_laws sys fds" "\<forall>fd port a s. 0 \<le> fst (sys_bind sys fd port a s)"
    "make_app sys tok split_colon env clk root s = (r, s', w)"
  shows "case r of
      Inl e \<Rightarrow> fds s' = fds s
    | Inr app \<Rightarrow>
        (let held = map (link_descriptor \<circ> fst) app in
         fds s' = fds s \<union> set held \<and> distinct held \<and> fds s \<inter> set held = {})"
proof (cases "parse_filter (env_mavlink env) tok root")
  case (Inl e)
  then show ?thesis using assms(3) by (auto simp: make_app_def)
next
  case (Inr F)
  obtain r1 s1 w1 where l: "interface_loop sys split_colon env clk F root [] s new_world = (r1, s1, w1)"
    by (metis prod.exhaust)
  have "holds_descriptors fds (fds s) [] s" by (simp add: holds_descriptors_def)
  note held = interface_loop_fds [OF assms(1,2) l this]
  show ?thesis
  proof (cases r1)
    case (Inl e)
    then show ?thesis
      using assms(3) Inr l held by (auto simp: make_app_def parse_interfaces_def)
  next
    case ok: (Inr made)
    then have r: "r = Inr (App_construct made)" "s' = s1"
      using assms(3) Inr l ok by (simp_all add: make_app_def parse_interfaces_def)
    have "holds_descriptors fds (fds s) made s1" using held ok by simp
    then show ?thesis by (simp add: r App_descriptors holds_descriptors_def Let_def del: set_map)
  qed
qed

text \<open>But a socket that cannot be bound is never closed: the constructor of \<open>UnixUDPSocket\<close> throws
  after it has opened the descriptor, so no destructor runs.\<close>

theorem udp_bind_leaks:
  assumes "descriptor_laws sys fds" "sys_now sys s = (now, s1)" "sys_socket sys s1 = (fd, s2)" "0 \<le> fd"
    "\<forall>a port s. fst (sys_bind sys fd port a s) < 0"
  shows "\<exists>e s'. UnixUDPSocket_construct sys port addr bitrate s = (Inl e, s') \<and> fd \<notin> fds s \<and> fds s' = insert fd (fds s)"
proof -
  obtain b s3 where b: "sys_bind sys fd (ucast port) (case addr of Some a \<Rightarrow> ucast (ip_address a) | None \<Rightarrow> 0) s2 = (b, s3)"
    by fastforce
  have "fds s1 = fds s" using assms(1,2) unfolding descriptor_laws_def by (metis snd_conv)
  moreover have "fd \<notin> fds s1 \<and> fds s2 = insert fd (fds s1)"
    using makes_descriptorD [of fds "sys_socket sys", OF _ assms(3)] assms(1,4) by (simp add: descriptor_laws_def)
  moreover have "fds s3 = fds s2" using assms(1) b unfolding descriptor_laws_def by (metis snd_conv)
  moreover have "b < 0" using assms(5) b by (metis fst_conv)
  ultimately show ?thesis
    using assms(2,3,4) b by (simp add: UnixUDPSocket_construct_def create_socket_def Let_def)
qed


section \<open>A concrete operating system\<close>

text \<open>Its state is the list of the open descriptors; \<open>bind\<close> returns \<open>b\<close>.\<close>

definition fresh_descriptor :: "int list \<Rightarrow> int" where
  "fresh_descriptor s = fold max s 2 + 1"

definition table_os :: "int \<Rightarrow> int list unix_calls" where
  "table_os b = \<lparr>sys_errno = (\<lambda>_. 98), sys_close = (\<lambda>fd s. (0, removeAll fd s)),
     sys_poll = (\<lambda>_ _ s. ((0, False, False), s)),
     sys_socket = (\<lambda>s. (fresh_descriptor s, fresh_descriptor s # s)),
     sys_bind = (\<lambda>_ _ _ s. (b, s)), sys_fionread = (\<lambda>_ s. ((0, 0), s)),
     sys_recvfrom = (\<lambda>_ _ s. (\<lparr>dg_size = 0, dg_data = [], dg_addrlen = 16, dg_inet = True, dg_addr = 0, dg_port = 0\<rparr>, s)),
     sys_sendto = (\<lambda>_ data _ _ s. (int (length data), s)),
     sys_open = (\<lambda>_ s. (fresh_descriptor s, fresh_descriptor s # s)),
     sys_read = (\<lambda>_ _ s. ((0, []), s)), sys_write = (\<lambda>_ data s. (int (length data), s)),
     sys_tcgetattr = (\<lambda>_ s. ((0, \<lparr>c_iflag = 0, c_oflag = 0, c_cflag = 0, c_lflag = 0, c_vmin = 1, c_vtime = 0,
        c_ispeed = 0, c_ospeed = 0\<rparr>), s)),
     sys_tcsetattr = (\<lambda>_ _ s. (0, s)), sys_now = (\<lambda>s. (0, s)), sys_sleep = (\<lambda>_ s. s)\<rparr>"

lemma fold_max_above: "(m :: int) \<le> fold max s m \<and> (\<forall>x \<in> set s. x \<le> fold max s m)"
proof (induction s arbitrary: m)
  case (Cons y s)
  show ?case using Cons.IH [of "max y m"] by simp
qed simp

lemma fresh_descriptor: "\<not> fresh_descriptor s < 0" "fresh_descriptor s \<notin> set s"
  using fold_max_above [of 2 s] by (auto simp: fresh_descriptor_def)

lemma table_os_laws: "descriptor_laws (table_os b) set"
  using fresh_descriptor by (auto simp: descriptor_laws_def makes_descriptor_def table_os_def)

definition sample_links :: "node list" where
  "sample_links = sample_tree @
     [Node ''config::udp'' 12 None [Node ''config::port'' 13 (Some ''14555'') []],
      Node ''config::serial'' 15 None [Node ''config::device'' 16 (Some ''ttyS0'') []]]"

definition sample_readings :: "nat \<Rightarrow> nat \<Rightarrow> readings" where
  "sample_readings k i = \<lparr>rd_contains = 0, rd_add = 0, rd_send = (\<lambda>_. (0, 0, 0))\<rparr>"

lemma sample_readings_ok: "\<forall>k i. readings_ok (sample_readings k i)"
  by (simp add: sample_readings_def readings_ok_def)

lemma sample_ranked: "config_ranked (\<lambda>t. if t = ''default'' then 1 else 0) sample_links"
  by (auto simp: config_ranked_def uses_chain_def block_rules_def sample_links_def sample_tree_def is_block_def
      split: if_splits)

lemma sample_links_filter: "parse_filter ml tok sample_links = parse_filter ml tok sample_tree"
proof -
  have "init_chains (root @ [Node ''config::udp'' 12 None c, Node ''config::serial'' 15 None d]) chs cs = init_chains root chs cs"
    for root c d chs cs
    by (induction root arbitrary: chs cs) (auto split: option.split simp: sum_bind_def split: sum.split)
  moreover have "filter_blocks ml tok chs (root @ [Node ''config::udp'' 12 None c, Node ''config::serial'' 15 None d]) cs x =
      filter_blocks ml tok chs root cs x" for root c d chs cs x
    by (induction root arbitrary: cs x) (auto simp: sum_bind_def split: list.split sum.split)
  ultimately show ?thesis by (simp add: parse_filter_def sample_links_def)
qed

lemma sample_app:
  "\<exists>app s' w. make_app (table_os 0) (\<lambda>_. []) (\<lambda>_. []) env sample_readings sample_links [] = (Inr app, s', w)"
proof -
  have "stol ''14555'' = Inr 14555" by (simp add: stol_def sto_signed_def stream_eval)
  then show ?thesis
    by (simp add: make_app_def parse_interfaces_def sample_links_filter sample_tree_filter)
      (simp add: sample_links_def sample_tree_def parse_udp_def parse_serial_def content_def serial_defaults_def
        udp_defaults_def UnixUDPSocket_construct_def create_socket_def UnixSerialPort_construct_def open_port_def
        configure_port_def speed_constant_def speed_table_def table_os_def fresh_descriptor_def Let_def
        attach_serial_def Connection_construct_def SerialInterface_construct_def UDPInterface_construct_def
        ConnectionFactory_construct_def)
qed

theorem make_app_ready_witness:
  "\<exists>app s' w. make_app (table_os 0) (\<lambda>_. []) (\<lambda>_. []) sample_env sample_readings sample_links [] = (Inr app, s', w) \<and>
     map (link_kind \<circ> fst) app = [''config::udp'', ''config::serial''] \<and> distinct (serial_numbers (map fst app))"
proof -
  obtain app s' w where a: "make_app (table_os 0) (\<lambda>_. []) (\<lambda>_. []) sample_env sample_readings sample_links [] = (Inr app, s', w)"
    using sample_app by blast
  have "map node_name (filter is_link sample_links) = [''config::udp'', ''config::serial'']"
    by (simp add: sample_links_def sample_tree_def is_link_def)
  then show ?thesis using make_app_ready [OF a sample_ranked sample_readings_ok] a by auto
qed

theorem make_app_descriptors_witness:
  "\<exists>app s' w. make_app (table_os 0) (\<lambda>_. []) (\<lambda>_. []) sample_env sample_readings sample_links [] = (Inr app, s', w) \<and>
     set s' = set (map (link_descriptor \<circ> fst) app)"
proof -
  obtain app s' w where a: "make_app (table_os 0) (\<lambda>_. []) (\<lambda>_. []) sample_env sample_readings sample_links [] = (Inr app, s', w)"
    using sample_app by blast
  have "\<forall>fd port a s. 0 \<le> fst (sys_bind (table_os 0) fd port a s)" by (simp add: table_os_def)
  from make_app_descriptors [OF table_os_laws this a] a show ?thesis by (auto simp: Let_def)
qed

theorem udp_bind_leaks_witness:
  "\<exists>e s'. UnixUDPSocket_construct (table_os (- 1)) 14500 None 0 [] = (Inl e, s') \<and> set s' = {3}"
  using udp_bind_leaks [OF table_os_laws, of "- 1" "[]" 0 "[]" 3 "[3]" 14500 None 0]
  by (simp add: table_os_def fresh_descriptor_def)


end
