(* ===== verification/AppRun.thy ===== *)
theory AppRun
  imports ConfigBuild
begin

text \<open>
  \<open>App::run\<close>: the main thread together with the threads of all interfaces, as a step relation over
  the threaders of the theory \<open>Threader\<close>.
\<close>


section \<open>App::run\<close>

text \<open>
  The main thread starts the threaders one after the other, waits for the interrupt, and shuts them
  down one after the other, waiting for the threads of each; when \<open>sigwait\<close> gives a negative value,
  the exception, with the error number, destroys the threaders, whose destructors do the same.  In
  between, the worker threads and the joins make their steps in any order.
\<close>

datatype phase = Starting nat | Waiting | Stopping nat | Ended | Killed

record app_state =
  app_phase :: phase
  app_failed :: "int option"
  app_threads :: "threader list"

definition App_run :: "App \<Rightarrow> app_state" where
  "App_run app = \<lparr>app_phase = Starting 0, app_failed = None, app_threads = map snd app\<rparr>"

text \<open>
  \<open>sigprocmask\<close> blocks the interrupt for the main thread only, and after the workers have been started with
  the mask they inherit.  So the interrupt may arrive before the main thread blocks it, or be delivered
  to a worker, and then its default action ends the process.
\<close>

definition unmasked :: "threader \<Rightarrow> bool" where
  "unmasked t \<longleftrightarrow> th_tx t = Checking \<or> th_tx t = Calling \<or> th_rx t = Checking \<or> th_rx t = Calling"

definition sigint_kills :: "app_state \<Rightarrow> bool" where
  "sigint_kills a \<longleftrightarrow>
     (case app_phase a of
        Starting k \<Rightarrow> True
      | Waiting \<Rightarrow> list_ex unmasked (app_threads a)
      | Stopping k \<Rightarrow> list_ex unmasked (app_threads a)
      | Ended \<Rightarrow> False
      | Killed \<Rightarrow> False)"

inductive app_step :: "app_state \<Rightarrow> app_state \<Rightarrow> bool" where
  start_one: "app_phase a = Starting k \<Longrightarrow> k < length (app_threads a) \<Longrightarrow>
     app_step a (a\<lparr>app_phase := Starting (Suc k),
                   app_threads := (app_threads a)[k := threader_start (app_threads a ! k)]\<rparr>)"
| all_started: "app_phase a = Starting (length (app_threads a)) \<Longrightarrow> app_step a (a\<lparr>app_phase := Waiting\<rparr>)"
| interrupted: "app_phase a = Waiting \<Longrightarrow> app_step a (a\<lparr>app_phase := Stopping 0\<rparr>)"
| wait_failed: "app_phase a = Waiting \<Longrightarrow> app_step a (a\<lparr>app_phase := Stopping 0, app_failed := Some errno\<rparr>)"
| killed: "sigint_kills a \<Longrightarrow> app_step a (a\<lparr>app_phase := Killed\<rparr>)"
| stop_one: "app_phase a = Stopping k \<Longrightarrow> k < length (app_threads a) \<Longrightarrow>
     th_owner (app_threads a ! k) = Idle \<Longrightarrow> th_running (app_threads a ! k) \<Longrightarrow>
     app_step a (a\<lparr>app_threads := (app_threads a)[k := threader_shutdown (app_threads a ! k)]\<rparr>)"
| stopped_one: "app_phase a = Stopping k \<Longrightarrow> k < length (app_threads a) \<Longrightarrow>
     th_owner (app_threads a ! k) = Idle \<Longrightarrow> \<not> th_running (app_threads a ! k) \<Longrightarrow>
     app_step a (a\<lparr>app_phase := Stopping (Suc k)\<rparr>)"
| all_stopped: "app_phase a = Stopping (length (app_threads a)) \<Longrightarrow> app_step a (a\<lparr>app_phase := Ended\<rparr>)"
| work: "app_phase a \<noteq> Killed \<Longrightarrow> k < length (app_threads a) \<Longrightarrow> threader_step (app_threads a ! k) t \<Longrightarrow>
     th_running t = th_running (app_threads a ! k) \<Longrightarrow>
     app_step a (a\<lparr>app_threads := (app_threads a)[k := t]\<rparr>)"

inductive_cases app_stepE: "app_step a b"

inductive app_reach :: "App \<Rightarrow> app_state \<Rightarrow> bool" for app where
  begun: "app_reach app (App_run app)"
| stepped: "app_reach app a \<Longrightarrow> app_step a b \<Longrightarrow> app_reach app b"

text \<open>Where each threader is, in each phase.\<close>

definition up :: "threader \<Rightarrow> bool" where
  "up t \<longleftrightarrow> th_owner t = Idle \<and> th_running t"

definition down :: "threader \<Rightarrow> bool" where
  "down t \<longleftrightarrow> th_owner t = Idle \<and> \<not> th_running t"

fun phase_ok :: "phase \<Rightarrow> nat \<Rightarrow> threader \<Rightarrow> bool" where
  "phase_ok (Starting i) k t = (if k < i then up t else down t)"
| "phase_ok Waiting k t = up t"
| "phase_ok (Stopping i) k t = (if k < i then down t else i < k \<longrightarrow> up t)"
| "phase_ok Ended k t = down t"
| "phase_ok Killed k t = True"

definition phase_bound :: "phase \<Rightarrow> nat \<Rightarrow> bool" where
  "phase_bound p n = (case p of Starting i \<Rightarrow> i \<le> n | Stopping i \<Rightarrow> i \<le> n | _ \<Rightarrow> True)"

definition app_inv :: "app_state \<Rightarrow> bool" where
  "app_inv a \<longleftrightarrow>
     phase_bound (app_phase a) (length (app_threads a)) \<and>
     (\<forall>k < length (app_threads a).
        threader_inv (app_threads a ! k) \<and> phase_ok (app_phase a) k (app_threads a ! k))"

lemma work_keeps:
  assumes "threader_step t t'" "th_running t' = th_running t"
  shows "up t \<Longrightarrow> up t'" "down t \<Longrightarrow> down t'"
  using assms by (induction rule: threader_step.induct) (auto simp: up_def down_def threader_start_def threader_shutdown_def)

lemma phase_ok_work: "threader_step t t' \<Longrightarrow> th_running t' = th_running t \<Longrightarrow> phase_ok p k t \<Longrightarrow> phase_ok p k t'"
  using work_keeps by (cases p) auto

lemma joining_keeps: "threader_step t t' \<Longrightarrow> th_owner t \<noteq> Idle \<Longrightarrow> th_running t' = th_running t"
  by (induction rule: threader_step.induct) simp_all

lemma start_up: "down t \<Longrightarrow> threader_inv t \<Longrightarrow> up (threader_start t) \<and> threader_inv (threader_start t)"
  by (auto simp: up_def down_def threader_defs)

lemma shutdown_inv: "up t \<Longrightarrow> threader_inv t \<Longrightarrow> threader_inv (threader_shutdown t)"
  by (auto simp: up_def threader_defs)

lemma app_inv_step: "app_step a b \<Longrightarrow> app_inv a \<Longrightarrow> app_inv b"
proof (induction rule: app_step.induct)
  case (start_one a k)
  have "down (app_threads a ! k)" "threader_inv (app_threads a ! k)"
    using start_one by (auto simp: app_inv_def)
  then show ?case
    using start_one start_up by (auto simp: app_inv_def phase_bound_def nth_list_update less_Suc_eq)
next
  case (stop_one a k)
  have "threader_inv (threader_shutdown (app_threads a ! k))"
    using stop_one by (intro shutdown_inv) (auto simp: app_inv_def up_def)
  then show ?case using stop_one by (auto simp: app_inv_def nth_list_update)
next
  case (stopped_one a k)
  then have "down (app_threads a ! k)" by (simp add: down_def)
  then show ?case using stopped_one by (auto simp: app_inv_def phase_bound_def less_Suc_eq)
next
  case (work a k t)
  then have "threader_inv t" "phase_ok (app_phase a) k t"
    using threader_inv_step phase_ok_work by (auto simp: app_inv_def)
  then show ?case using work by (auto simp: app_inv_def nth_list_update)
qed (auto simp: app_inv_def phase_bound_def)

lemma app_inv_reach:
  assumes "app_reach app a" "list_all (\<lambda>x. snd x = InterfaceThreader_construct False) app"
  shows "app_inv a \<and> length (app_threads a) = length app"
  using assms
proof (induction rule: app_reach.induct)
  case begun
  have "threader_inv (InterfaceThreader_construct False)" "down (InterfaceThreader_construct False)"
    by (simp_all add: InterfaceThreader_construct_def down_def threader_inv_def)
  then show ?case using assms(2) by (auto simp: app_inv_def App_run_def phase_bound_def list_all_length)
next
  case (stepped a b)
  then have "length (app_threads b) = length (app_threads a)" by (auto elim!: app_stepE)
  then show ?case using stepped app_inv_step by auto
qed

text \<open>The shutdown of one threader is a step of the application as well.\<close>

lemma app_progress:
  assumes "app_inv a" "app_phase a \<noteq> Ended" "app_phase a \<noteq> Killed" "\<not> list_ex crashed (app_threads a)"
  shows "\<exists>b. app_step a b \<and> app_phase b \<noteq> Killed"
proof (cases "app_phase a")
  case (Starting i)
  then show ?thesis
    using assms(1) start_one [OF Starting] all_started [of a]
    by (cases "i < length (app_threads a)") (fastforce simp: app_inv_def phase_bound_def)+
next
  case (Stopping i)
  show ?thesis
  proof (cases "i < length (app_threads a)")
    case True
    let ?t = "app_threads a ! i"
    have t: "threader_inv ?t" "\<not> crashed ?t" using assms(1,4) True by (auto simp: app_inv_def list_ex_length)
    show ?thesis
    proof (cases "th_owner ?t = Idle")
      case idle: True
      then show ?thesis
        using stop_one [OF Stopping True idle] stopped_one [OF Stopping True idle] Stopping
        by (cases "th_running ?t") fastforce+
    next
      case False
      from shutdown_progress [OF this t] obtain t' where t': "threader_step ?t t'" by blast
      then show ?thesis using work [OF assms(3) True t' joining_keeps [OF t' False]] assms(3) by fastforce
    qed
  next
    case False
    then show ?thesis using all_stopped [of a] Stopping assms(1) by (fastforce simp: app_inv_def phase_bound_def)
  qed
next
  case Waiting
  from interrupted [OF this] show ?thesis by fastforce
qed (use assms(2,3) in auto)

definition all_threads :: "bool \<Rightarrow> app_state \<Rightarrow> bool" where
  "all_threads b a \<longleftrightarrow>
     list_all (\<lambda>t. th_running t = b \<and> (th_tx t \<noteq> No_thread) = b \<and> (th_rx t \<noteq> No_thread) = b) (app_threads a)"

lemma app_inv_threads:
  assumes "app_inv a"
  shows "app_phase a = Waiting \<Longrightarrow> all_threads True a" "app_phase a = Ended \<Longrightarrow> all_threads False a"
proof -
  have at: "threader_inv t \<Longrightarrow> up t \<Longrightarrow> th_running t \<and> th_tx t \<noteq> No_thread \<and> th_rx t \<noteq> No_thread"
      "threader_inv t \<Longrightarrow> down t \<Longrightarrow> \<not> th_running t \<and> th_tx t = No_thread \<and> th_rx t = No_thread" for t
    by (auto simp: threader_inv_def up_def down_def at_work_def)
  show "app_phase a = Waiting \<Longrightarrow> all_threads True a" "app_phase a = Ended \<Longrightarrow> all_threads False a"
    unfolding all_threads_def list_all_length using assms at by (simp_all add: app_inv_def)
qed

text \<open>
  While the program waits for the interrupt every worker can be the one that gets it, so that the process
  dies without shutting its interfaces down.
\<close>

lemma interrupt_may_kill:
  assumes "app_inv a" "app_phase a = Waiting" "app_threads a \<noteq> []" "\<not> list_ex crashed (app_threads a)"
  shows "app_step a (a\<lparr>app_phase := Killed\<rparr>)"
proof (rule killed)
  have "threader_inv (app_threads a ! 0)" "up (app_threads a ! 0)" "\<not> crashed (app_threads a ! 0)"
    using assms by (simp_all add: app_inv_def list_ex_length)
  then have "unmasked (app_threads a ! 0)"
    by (cases "th_tx (app_threads a ! 0)") (auto simp: up_def threader_inv_def at_work_def crashed_def unmasked_def)
  then show "sigint_kills a" using assms(2,3) by (auto simp: sigint_kills_def list_ex_length)
qed

text \<open>
  A run of the application.  While it waits for the interrupt, every interface is running; when it ends,
  whatever the threads did in between, every thread of every interface has been joined; and unless the
  interrupt has killed the process or a thread has ended it with an exception, the run never gets stuck
  before that.
\<close>

lemma app_run_ends:
  assumes "app_reach app a" "list_all (\<lambda>x. snd x = InterfaceThreader_construct False) app"
  shows "(app_phase a = Waiting \<longrightarrow> all_threads True a) \<and> (app_phase a = Ended \<longrightarrow> all_threads False a) \<and>
    (app_phase a \<noteq> Ended \<and> app_phase a \<noteq> Killed \<and> \<not> list_ex crashed (app_threads a) \<longrightarrow>
       (\<exists>b. app_step a b \<and> app_phase b \<noteq> Killed))"
proof -
  have inv: "app_inv a" using app_inv_reach [OF assms] by simp
  show ?thesis using app_inv_threads [OF inv] app_progress [OF inv] by blast
qed

theorem app_run_ends_witness:
  "\<exists>b. app_step (App_run [(SerialLink undefined undefined, InterfaceThreader_construct False)]) b \<and> app_phase b \<noteq> Killed"
  using app_run_ends [OF begun, of "[(SerialLink undefined undefined, InterfaceThreader_construct False)]"]
  by (simp add: App_run_def crashed_def InterfaceThreader_construct_def)

end
