(* ===== verification/Startup.thy ===== *)
theory Startup
  imports ConfigFilter
begin

text \<open>
  The start of the program: \<open>find_config\<close> and the constructor of \<open>Options\<close>, and \<open>main\<close>.  What boost
  gives (the parsed command line, its help text, joining paths, looking for a file) and the values
  the build puts into \<open>config.hpp\<close> are parameters.
\<close>

section \<open>Options\<close>

record surroundings =
  file_exists :: "string \<Rightarrow> bool"
  getenv :: "string \<Rightarrow> string option"
  path_append :: "string \<Rightarrow> string \<Rightarrow> string"
  install_prefix :: string
  program_version :: "nat \<times> nat \<times> nat"
  help_text :: string

text \<open>The command line as \<open>parse_command_line\<close> leaves it in the variables map.\<close>

record variables_map =
  vm_help :: bool
  vm_version :: bool
  vm_config :: "string option"
  vm_loglevel :: "u32 option"
  vm_ast :: bool

text \<open>Two members stay uninitialised when the constructor returns early.\<close>

record Options =
  opt_continue :: bool
  opt_loglevel :: u32
  opt_config_file :: string
  opt_print_ast :: "bool option"
  opt_run_firewall :: "bool option"

definition find_config :: "surroundings \<Rightarrow> string option" where
  "find_config env =
     (case (case getenv env ''MAVTABLES_CONFIG_PATH'' of
              Some config_path \<Rightarrow> if file_exists env config_path then Some config_path else None
            | None \<Rightarrow> None) of
        Some path \<Rightarrow> Some path
      | None \<Rightarrow>
          if file_exists env ''.mavtablesrc'' then Some ''.mavtablesrc''
          else
            (case (case getenv env ''HOME'' of
                     Some home \<Rightarrow>
                       (let config_path = path_append env home ''.mavtablesrc''
                        in if file_exists env config_path then Some config_path else None)
                   | None \<Rightarrow> None) of
               Some path \<Rightarrow> Some path
             | None \<Rightarrow>
                 if file_exists env (install_prefix env @ ''/etc/mavtables.conf'')
                 then Some (install_prefix env @ ''/etc/mavtables.conf'')
                 else None))"

definition version_text :: "nat \<times> nat \<times> nat \<Rightarrow> string" where
  "version_text v =
     (case v of (major, minor, patch) \<Rightarrow>
        ''mavtables (SHAMU Project) '' @ ''v'' @ show_nat major @ ''.'' @ show_nat minor @ ''.'' @ show_nat patch @
        newline @ ''Copyright (C) 2018  Michael R. Shannon'' @ newline @ newline @
        ''License: GPL v2.0 or any later version.'' @ newline @
        ''This is free software; see the source for copying conditions.  '' @
        ''There is NO'' @ newline @ ''warranty; not even for MERCHANTABILITY or FITNESS '' @
        ''FOR A PARTICULAR PURPOSE.'' @ newline)"

abbreviation no_config :: cpp_error where
  "no_config \<equiv> Runtime_error ''mavtables could not locate a configuration file''"

text \<open>The constructor, with what it prints to the standard output.\<close>

definition Options_construct :: "surroundings \<Rightarrow> cpp_error + variables_map \<Rightarrow> (cpp_error + Options) \<times> string" where
  "Options_construct env command_line =
     (case command_line of
        Inl e \<Rightarrow> (Inl e, [])
      | Inr vm \<Rightarrow>
          (let o1 = \<lparr>opt_continue = True, opt_loglevel = 0, opt_config_file = [], opt_print_ast = None, opt_run_firewall = None\<rparr> in
           if vm_help vm then (Inr (o1\<lparr>opt_continue := False\<rparr>), help_text env @ newline)
           else if vm_version vm then (Inr (o1\<lparr>opt_continue := False\<rparr>), version_text (program_version env))
           else
             (case (case vm_config vm of
                      Some path \<Rightarrow> if file_exists env path then Inr path else Inl no_config
                    | None \<Rightarrow> (case find_config env of Some path \<Rightarrow> Inr path | None \<Rightarrow> Inl no_config)) of
                Inl e \<Rightarrow> (Inl e, [])
              | Inr path \<Rightarrow>
                  (let o2 = o1\<lparr>opt_config_file := path\<rparr>;
                       o3 = (case vm_loglevel vm of Some l \<Rightarrow> o2\<lparr>opt_loglevel := l\<rparr> | None \<Rightarrow> o2);
                       ast = vm_ast vm
                   in (Inr (o3\<lparr>opt_print_ast := Some ast, opt_run_firewall := Some (\<not> ast)\<rparr>), [])))))"

section \<open>main\<close>

text \<open>Reading an uninitialised member has no meaning.\<close>

definition initialised :: "bool option \<Rightarrow> cpp_error + bool" where
  "initialised b = (case b of Some x \<Rightarrow> Inr x | None \<Rightarrow> Inl (Undefined_behaviour ''uninitialised member''))"

text \<open>
  How the \<open>try\<close> block ends: it is left, an exception leaves it, the process is ended in it by
  \<open>std::terminate\<close> or by a signal, or it has not ended yet.
\<close>

datatype run_end = Returns | Throws cpp_error | Terminates | Dies | Goes_on

text \<open>
  The body of the \<open>try\<close> block, with the standard output.  \<open>config_parser\<close> is the constructor of
  \<open>ConfigParser\<close> with the PEGTL grammar behind it, and \<open>run_app\<close> sets the log level, makes the
  application and runs it.
\<close>

definition main_body ::
  "surroundings \<Rightarrow> (string \<Rightarrow> cpp_error + node list) \<Rightarrow> (u32 \<Rightarrow> node list \<Rightarrow> run_end) \<Rightarrow>
   cpp_error + variables_map \<Rightarrow> run_end \<times> string" where
  "main_body env config_parser run_app command_line =
     (case Options_construct env command_line of
        (Inl e, out) \<Rightarrow> (Throws e, out)
      | (Inr opts, out) \<Rightarrow>
          if \<not> opt_continue opts then (Returns, out)
          else
            (case config_parser (opt_config_file opts) of
               Inl e \<Rightarrow> (Throws e, out)
             | Inr root \<Rightarrow>
                 (case initialised (opt_print_ast opts) of
                    Inl e \<Rightarrow> (Throws e, out)
                  | Inr ast \<Rightarrow>
                      (let title = out @ ''===== '' @ opt_config_file opts @ '' ====='' @ newline in
                       case (if ast
                             then (case show_tree root of
                                     Inl e \<Rightarrow> (Inl e, title)
                                   | Inr t \<Rightarrow> (Inr (), title @ t))
                             else (Inr (), out)) of
                         (Inl e, out') \<Rightarrow> (Throws e, out')
                       | (Inr _, out') \<Rightarrow>
                           (case initialised (opt_run_firewall opts) of
                              Inl e \<Rightarrow> (Throws e, out')
                            | Inr True \<Rightarrow> (run_app (opt_loglevel opts) root, out')
                            | Inr False \<Rightarrow> (Returns, out'))))))"

text \<open>
  The handler: \<open>what\<close> gives the message of an exception.  A process that has run into undefined behaviour
  has no exit status.  What the C++ library prints when it terminates the process is left out.
\<close>

datatype process_end = Exit int | Aborted | Signalled | Running | Undefined

definition main ::
  "(cpp_error \<Rightarrow> string) \<Rightarrow> surroundings \<Rightarrow> (string \<Rightarrow> cpp_error + node list) \<Rightarrow>
   (u32 \<Rightarrow> node list \<Rightarrow> run_end) \<Rightarrow> cpp_error + variables_map \<Rightarrow> process_end \<times> string \<times> string" where
  "main what env config_parser run_app command_line =
     (case main_body env config_parser run_app command_line of (r, out) \<Rightarrow>
        (case r of
           Returns \<Rightarrow> (Exit 0, out, [])
         | Throws e \<Rightarrow>
             (case e of
                Undefined_behaviour m \<Rightarrow> (Undefined, out, [])
              | _ \<Rightarrow> (Exit 1, out, ''error: '' @ what e @ newline))
         | Terminates \<Rightarrow> (Aborted, out, [])
         | Dies \<Rightarrow> (Signalled, out, [])
         | Goes_on \<Rightarrow> (Running, out, [])))"

lemma main_ends:
  "fst (main what env config_parser run_app command_line) =
     (case fst (main_body env config_parser run_app command_line) of
        Returns \<Rightarrow> Exit 0
      | Throws e \<Rightarrow> (case e of Undefined_behaviour m \<Rightarrow> Undefined | _ \<Rightarrow> Exit 1)
      | Terminates \<Rightarrow> Aborted | Dies \<Rightarrow> Signalled | Goes_on \<Rightarrow> Running)"
  by (simp add: main_def split: prod.split run_end.split cpp_error.split)

section \<open>Properties\<close>

text \<open>
  The places a configuration file is looked for, in the order the documentation gives; the last one is
  below the prefix of the installation, where the documentation says \<open>/etc/mavtables.conf\<close>.
\<close>

definition config_candidates :: "surroundings \<Rightarrow> string list" where
  "config_candidates env =
     (case getenv env ''MAVTABLES_CONFIG_PATH'' of Some p \<Rightarrow> [p] | None \<Rightarrow> []) @
     [''.mavtablesrc''] @
     (case getenv env ''HOME'' of Some home \<Rightarrow> [path_append env home ''.mavtablesrc''] | None \<Rightarrow> []) @
     [install_prefix env @ ''/etc/mavtables.conf'']"

lemma find_config_eq: "find_config env = List.find (file_exists env) (config_candidates env)"
  by (simp add: find_config_def config_candidates_def Let_def split: option.split)

text \<open>The file that is read.\<close>

definition chosen_file :: "surroundings \<Rightarrow> variables_map \<Rightarrow> string \<Rightarrow> bool" where
  "chosen_file env vm path \<longleftrightarrow>
     (case vm_config vm of
        Some p \<Rightarrow> file_exists env p \<and> path = p
      | None \<Rightarrow> List.find (file_exists env) (config_candidates env) = Some path)"

text \<open>The log level of the command line.\<close>

definition level_of :: "variables_map \<Rightarrow> u32" where
  "level_of vm = (case vm_loglevel vm of Some l \<Rightarrow> l | None \<Rightarrow> 0)"

lemma chosen_file_unique: "chosen_file env vm p \<Longrightarrow> chosen_file env vm q \<Longrightarrow> p = q"
  by (auto simp: chosen_file_def split: option.splits)

text \<open>
  What the \<open>try\<close> block does: it throws when the command line does not parse, prints the help or the version,
  throws when there is no configuration file or it does not parse, prints the syntax tree of the file, or
  runs the application.
\<close>

lemma body_asked:
  "vm_help vm \<or> vm_version vm \<Longrightarrow> fst (main_body env config_parser run_app (Inr vm)) = Returns"
  by (auto simp: main_body_def Options_construct_def Let_def)

lemma body_no_file:
  assumes "\<not> vm_help vm" "\<not> vm_version vm" "\<And>path. \<not> chosen_file env vm path"
  shows "fst (main_body env config_parser run_app (Inr vm)) = Throws no_config"
proof (cases "vm_config vm")
  case None
  then have "List.find (file_exists env) (config_candidates env) = None"
    using assms(3) by (auto simp: chosen_file_def)
  then show ?thesis
    using assms(1,2) None by (simp add: main_body_def Options_construct_def find_config_eq Let_def)
next
  case (Some p)
  then show ?thesis
    using assms by (auto simp: main_body_def Options_construct_def chosen_file_def Let_def)
qed

lemma body_file:
  assumes "\<not> vm_help vm" "\<not> vm_version vm" "chosen_file env vm path"
  shows "fst (main_body env config_parser run_app (Inr vm)) =
    (case config_parser path of
       Inl e \<Rightarrow> Throws e
     | Inr root \<Rightarrow>
         if vm_ast vm then (case show_tree root of Inl e \<Rightarrow> Throws e | Inr t \<Rightarrow> Returns)
         else run_app (level_of vm) root)"
proof -
  define opts where "opts = \<lparr>opt_continue = True, opt_loglevel = level_of vm, opt_config_file = path,
      opt_print_ast = Some (vm_ast vm), opt_run_firewall = Some (\<not> vm_ast vm)\<rparr>"
  have "Options_construct env (Inr vm) = (Inr opts, [])"
    using assms
    by (auto simp: Options_construct_def opts_def level_of_def chosen_file_def find_config_eq Let_def split: option.splits)
  then show ?thesis
    by (auto simp: main_body_def opts_def initialised_def Let_def split: sum.split)
qed

end
