(* ===== verification/PegRules.thy ===== *)
theory PegRules
  imports MtPrelude
begin

text \<open>
  The rules of a PEGTL grammar as values, and what the documentation of the library promises for
  them.  PEGTL is not part of the repository: its matcher is a parameter of the definitions that use
  it, and \<open>follows\<close> is the hypothesis that it does what its rule reference says.  The last section has
  a matcher for which this holds.
\<close>

section \<open>Rules\<close>

text \<open>Whether the nodes of a rule are kept in the tree, and how they are transformed.\<close>

datatype store = Store_no | Store_yes | Store_without_content | Store_first_child

text \<open>
  The combinators the grammar uses.  \<open>Named\<close> is a structure of the program: its name, its \<open>store\<close>
  and the rule it derives from.
\<close>

datatype peg =
    One "char list" | Not_one "char list" | Any | Space | Alnum | Digit | Upper
  | Identifier_first | Identifier_other | Literal string | Eol | Eof | Success | Failure
  | Seq "peg list" | Sor "peg list" | Star "peg list" | Must peg | Not_at "peg list"
  | Plus "peg list" | Opt "peg list" | Rep nat "peg list" | If_must peg "peg list" | Pad peg peg | Identifier
  | Named string store peg

text \<open>The rules that the rule reference defines by others.\<close>

fun core :: "peg \<Rightarrow> peg" where
  "core (Seq rs) = Seq (map core rs)"
| "core (Sor rs) = Sor (map core rs)"
| "core (Star rs) = Star (map core rs)"
| "core (Must r) = Must (core r)"
| "core (Not_at rs) = Not_at (map core rs)"
| "core (Plus rs) = Seq (map core rs @ [Star (map core rs)])"
| "core (Opt rs) = Sor [Seq (map core rs), Success]"
| "core (Rep n rs) = Seq (concat (replicate n (map core rs)))"
| "core (If_must r rs) = Seq (core r # map (\<lambda>r. Must (core r)) rs)"
| "core (Pad r s) = Seq [Star [core s], core r, Star [core s]]"
| "core Identifier = Seq [Identifier_first, Star [Identifier_other]]"
| "core (Named x k r) = Named x k (core r)"
| "core r = r"

section \<open>Matching\<close>

text \<open>
  The input is a position and the characters after it.  A rule matches, fails, or raises an error for
  a named rule; on the way the hooks of the control class are called with the position, for every
  named rule.
\<close>

type_synonym input = "nat \<times> string"

datatype hook = Start string store nat | Succeed string store nat | Fail string store nat

datatype verdict = Matched input | Failed | Raised string nat

fun rule_name :: "peg \<Rightarrow> string" where
  "rule_name (Named x k r) = x"
| "rule_name r = []"

definition is_upper :: "char \<Rightarrow> bool" where
  "is_upper c \<longleftrightarrow> 65 \<le> (of_char c :: nat) \<and> (of_char c :: nat) \<le> 90"

definition is_alpha :: "char \<Rightarrow> bool" where
  "is_alpha c \<longleftrightarrow> is_upper c \<or> 97 \<le> (of_char c :: nat) \<and> (of_char c :: nat) \<le> 122"

definition one_char :: "(char \<Rightarrow> bool) \<Rightarrow> string \<Rightarrow> nat option" where
  "one_char P s = (case s of [] \<Rightarrow> None | c # _ \<Rightarrow> if P c then Some 1 else None)"

text \<open>How many characters a rule without subrules takes, if it matches.\<close>

fun leaf :: "peg \<Rightarrow> string \<Rightarrow> nat option option" where
  "leaf (One cs) s = Some (one_char (\<lambda>c. c \<in> set cs) s)"
| "leaf (Not_one cs) s = Some (one_char (\<lambda>c. c \<notin> set cs) s)"
| "leaf Any s = Some (one_char (\<lambda>_. True) s)"
| "leaf Space s = Some (one_char is_space s)"
| "leaf Alnum s = Some (one_char (\<lambda>c. is_alpha c \<or> is_digit c) s)"
| "leaf Digit s = Some (one_char is_digit s)"
| "leaf Upper s = Some (one_char is_upper s)"
| "leaf Identifier_first s = Some (one_char (\<lambda>c. is_alpha c \<or> c = CHR ''_'') s)"
| "leaf Identifier_other s = Some (one_char (\<lambda>c. is_alpha c \<or> is_digit c \<or> c = CHR ''_'') s)"
| "leaf (Literal u) s = Some (if take (length u) s = u then Some (length u) else None)"
| "leaf Eol s = Some (if take 1 s = [CHR 0x0A] then Some 1 else if take 2 s = [CHR 0x0D, CHR 0x0A] then Some 2 else None)"
| "leaf Eof s = Some (if s = [] then Some 0 else None)"
| "leaf Success s = Some (Some 0)"
| "leaf Failure s = Some None"
| "leaf r s = None"

inductive rule_outcome :: "peg \<Rightarrow> input \<Rightarrow> hook list \<Rightarrow> verdict \<Rightarrow> bool" where
  leaf_match: "leaf r s = Some (Some k) \<Longrightarrow> rule_outcome r (n, s) [] (Matched (n + k, drop k s))"
| leaf_fail: "leaf r s = Some None \<Longrightarrow> rule_outcome r (n, s) [] Failed"
| seq_nil: "rule_outcome (Seq []) i [] (Matched i)"
| seq_stop: "rule_outcome r i t v \<Longrightarrow> \<forall>i'. v \<noteq> Matched i' \<Longrightarrow> rule_outcome (Seq (r # rs)) i t v"
| seq_step: "rule_outcome r i t (Matched i') \<Longrightarrow> rule_outcome (Seq rs) i' t' v \<Longrightarrow> rule_outcome (Seq (r # rs)) i (t @ t') v"
| sor_nil: "rule_outcome (Sor []) i [] Failed"
| sor_stop: "rule_outcome r i t v \<Longrightarrow> v \<noteq> Failed \<Longrightarrow> rule_outcome (Sor (r # rs)) i t v"
| sor_step: "rule_outcome r i t Failed \<Longrightarrow> rule_outcome (Sor rs) i t' v \<Longrightarrow> rule_outcome (Sor (r # rs)) i (t @ t') v"
| star_step: "rule_outcome (Seq rs) i t (Matched i') \<Longrightarrow> rule_outcome (Star rs) i' t' v \<Longrightarrow> rule_outcome (Star rs) i (t @ t') v"
| star_stop: "rule_outcome (Seq rs) i t Failed \<Longrightarrow> rule_outcome (Star rs) i t (Matched i)"
| star_raise: "rule_outcome (Seq rs) i t (Raised x q) \<Longrightarrow> rule_outcome (Star rs) i t (Raised x q)"
| must_pass: "rule_outcome r i t v \<Longrightarrow> v \<noteq> Failed \<Longrightarrow> rule_outcome (Must r) i t v"
| must_raise: "rule_outcome r i t Failed \<Longrightarrow> rule_outcome (Must r) i t (Raised (rule_name r) q)"
| not_at_fail: "rule_outcome (Seq rs) i t (Matched i') \<Longrightarrow> rule_outcome (Not_at rs) i t Failed"
| not_at_match: "rule_outcome (Seq rs) i t Failed \<Longrightarrow> rule_outcome (Not_at rs) i t (Matched i)"
| not_at_raise: "rule_outcome (Seq rs) i t (Raised x q) \<Longrightarrow> rule_outcome (Not_at rs) i t (Raised x q)"
| named_match: "rule_outcome r i t (Matched i') \<Longrightarrow>
    rule_outcome (Named x k r) i (Start x k (fst i) # t @ [Succeed x k (fst i')]) (Matched i')"
| named_fail: "rule_outcome r i t Failed \<Longrightarrow>
    rule_outcome (Named x k r) i (Start x k (fst i) # t @ [Fail x k (fst i)]) Failed"
| named_raise: "rule_outcome r i t (Raised y q) \<Longrightarrow>
    rule_outcome (Named x k r) i (Start x k (fst i) # t) (Raised y q)"

text \<open>
  A matcher is given a rule and a text.  It follows the documentation when it does what the rule may
  do; the position reported with an error is not promised.
\<close>

definition follows :: "(peg \<Rightarrow> string \<Rightarrow> hook list \<times> verdict) \<Rightarrow> peg \<Rightarrow> bool" where
  "follows matcher g \<longleftrightarrow> (\<forall>s. rule_outcome (core g) (0, s) (fst (matcher g s)) (snd (matcher g s)))"

section \<open>Analysis of rules\<close>

text \<open>Rules that never fail, and rules that take a character whenever they match.\<close>

fun never_fails :: "peg \<Rightarrow> bool" where
  "never_fails Success = True"
| "never_fails (Seq rs) = (\<forall>r \<in> set rs. never_fails r)"
| "never_fails (Sor rs) = (\<exists>r \<in> set rs. never_fails r)"
| "never_fails (Star rs) = True"
| "never_fails (Must r) = True"
| "never_fails (Named x k r) = never_fails r"
| "never_fails r = False"

fun consumes :: "peg \<Rightarrow> bool" where
  "consumes (Literal u) = (u \<noteq> [])"
| "consumes Eof = False"
| "consumes Success = False"
| "consumes (Seq rs) = (\<exists>r \<in> set rs. consumes r)"
| "consumes (Sor rs) = (\<forall>r \<in> set rs. consumes r)"
| "consumes (Star rs) = False"
| "consumes (Not_at rs) = False"
| "consumes (Must r) = consumes r"
| "consumes (Named x k r) = consumes r"
| "consumes r = True"

text \<open>Rules of the core in which no repetition can go on without taking a character.\<close>

fun loops_ok :: "peg \<Rightarrow> bool" where
  "loops_ok (Seq rs) = (\<forall>r \<in> set rs. loops_ok r)"
| "loops_ok (Sor rs) = (\<forall>r \<in> set rs. loops_ok r)"
| "loops_ok (Star rs) = ((\<exists>r \<in> set rs. consumes r) \<and> (\<forall>r \<in> set rs. loops_ok r))"
| "loops_ok (Not_at rs) = (\<forall>r \<in> set rs. loops_ok r)"
| "loops_ok (Must r) = loops_ok r"
| "loops_ok (Named x k r) = loops_ok r"
| "loops_ok r = (leaf r [] \<noteq> None)"

lemma leaf_le: "leaf r s = Some (Some k) \<Longrightarrow> k \<le> length s"
proof -
  have one: "one_char P s = Some k \<Longrightarrow> k \<le> length s" for P
    by (cases s) (auto simp: one_char_def split: if_splits)
  have lit: "take (length u) s = u \<Longrightarrow> length u \<le> length s" for u
    by (metis length_take min.cobounded1 min_def)
  show "leaf r s = Some (Some k) \<Longrightarrow> k \<le> length s"
  proof (cases r)
    case Eol
    then show "leaf r s = Some (Some k) \<Longrightarrow> k \<le> length s"
      using lit [of "[CHR 0x0A]"] lit [of "[CHR 0x0D, CHR 0x0A]"] by (auto simp: numeral_2_eq_2 split: if_splits)
  qed (use one in \<open>auto dest: lit split: if_splits\<close>)
qed

lemma leaf_consumes: "leaf r s = Some (Some k) \<Longrightarrow> consumes r \<Longrightarrow> 0 < k"
proof -
  have one: "one_char P s = Some k \<Longrightarrow> 0 < k" for P
    by (cases s) (auto simp: one_char_def split: if_splits)
  show "leaf r s = Some (Some k) \<Longrightarrow> consumes r \<Longrightarrow> 0 < k"
    by (cases r) (use one in \<open>auto split: if_splits\<close>)
qed

text \<open>A match moves the position by the characters it takes.\<close>

lemma outcome_moves:
  "rule_outcome r i t v \<Longrightarrow> v = Matched i' \<Longrightarrow>
     \<exists>k. k \<le> length (snd i) \<and> i' = (fst i + k, drop k (snd i)) \<and> (consumes r \<longrightarrow> 0 < k)"
proof (induction arbitrary: i' rule: rule_outcome.induct)
  case (leaf_match r s k n)
  then show ?case using leaf_le [OF leaf_match.hyps] leaf_consumes [OF leaf_match.hyps] by auto
next
  case (seq_step r i t i1 rs t' v)
  from seq_step.IH(1) obtain j where j: "j \<le> length (snd i)" "i1 = (fst i + j, drop j (snd i))" "consumes r \<longrightarrow> 0 < j"
    by blast
  from seq_step.IH(2) [OF seq_step.prems] obtain k where "k \<le> length (snd i1)"
      "i' = (fst i1 + k, drop k (snd i1))" "consumes (Seq rs) \<longrightarrow> 0 < k" by blast
  then show ?case using j by (intro exI [of _ "j + k"]) (auto simp: add.assoc add.commute [of k j])
next
  case (star_step rs i t i1 t' v)
  from star_step.IH(1) obtain j where j: "j \<le> length (snd i)" "i1 = (fst i + j, drop j (snd i))" by blast
  from star_step.IH(2) [OF star_step.prems] obtain k where "k \<le> length (snd i1)"
      "i' = (fst i1 + k, drop k (snd i1))" by blast
  then show ?case using j by (intro exI [of _ "j + k"]) (auto simp: add.assoc add.commute [of k j])
qed (auto intro: exI [of _ 0])

lemma outcome_fails: "rule_outcome r i t v \<Longrightarrow> never_fails r \<Longrightarrow> v \<noteq> Failed"
proof (induction rule: rule_outcome.induct)
  case (leaf_fail r s n)
  then show ?case by (cases r) auto
qed auto

text \<open>Only the position of an error is left open.\<close>

inductive_cases outcome_elims:
  "rule_outcome (Seq []) i t v" "rule_outcome (Seq (r # rs)) i t v" "rule_outcome (Sor []) i t v" "rule_outcome (Sor (r # rs)) i t v"
  "rule_outcome (Star rs) i t v" "rule_outcome (Must r) i t v" "rule_outcome (Not_at rs) i t v" "rule_outcome (Named x k r) i t v"

definition agree :: "verdict \<Rightarrow> verdict \<Rightarrow> bool" where
  "agree v v' \<longleftrightarrow> v = v' \<or> (\<exists>x q q'. v = Raised x q \<and> v' = Raised x q')"

lemma agree_simps [simp]:
  "agree (Matched i) v \<longleftrightarrow> v = Matched i" "agree v (Matched i) \<longleftrightarrow> v = Matched i"
  "agree Failed v \<longleftrightarrow> v = Failed" "agree v Failed \<longleftrightarrow> v = Failed"
  "agree (Raised x q) v \<longleftrightarrow> (\<exists>q'. v = Raised x q')" "agree v (Raised x q) \<longleftrightarrow> (\<exists>q'. v = Raised x q')"
  by (auto simp: agree_def)

lemma outcome_leaf:
  "rule_outcome r (n, s) t v \<Longrightarrow> leaf r s = Some k \<Longrightarrow>
     t = [] \<and> v = (case k of Some j \<Rightarrow> Matched (n + j, drop j s) | None \<Rightarrow> Failed)"
  by (erule rule_outcome.cases) auto

lemma outcome_determ: "rule_outcome r i t v \<Longrightarrow> rule_outcome r i t' v' \<Longrightarrow> t' = t \<and> agree v v'"
proof (induction arbitrary: t' v' rule: rule_outcome.induct)
  case (leaf_match r s k n)
  then show ?case using outcome_leaf by fastforce
next
  case (leaf_fail r s n)
  then show ?case using outcome_leaf by fastforce
next
  case (seq_nil i)
  then show ?case by (auto elim: outcome_elims(1))
next
  case (seq_stop r i t v rs)
  from seq_stop(4) show ?case using seq_stop(2,3) by (cases rule: outcome_elims(2)) fastforce+
next
  case (seq_step r i t i' rs t2 v)
  obtain n u where i': "i' = (n, u)" by (cases i')
  show ?case
    by (rule outcome_elims(2) [OF seq_step(5)]) (auto simp: i' dest!: seq_step(3) seq_step(4) [unfolded i'])
next
  case (sor_nil i)
  then show ?case by (auto elim: outcome_elims(3))
next
  case (sor_stop r i t v rs)
  from sor_stop(4) show ?case using sor_stop(2,3) by (cases rule: outcome_elims(4)) fastforce+
next
  case (sor_step r i t rs t2 v)
  from sor_step(5) show ?case using sor_step(3,4) by (cases rule: outcome_elims(4)) fastforce+
next
  case (star_step rs i t i' t2 v)
  from star_step(5) show ?case using star_step(3,4) by (cases rule: outcome_elims(5)) fastforce+
next
  case (star_stop rs i t)
  from star_stop(3) show ?case using star_stop(2) by (cases rule: outcome_elims(5)) fastforce+
next
  case (star_raise rs i t x q)
  from star_raise(3) show ?case using star_raise(2) by (cases rule: outcome_elims(5)) fastforce+
next
  case (must_pass r i t v)
  from must_pass(4) show ?case using must_pass(2,3) by (cases rule: outcome_elims(6)) fastforce+
next
  case (must_raise r i t q)
  from must_raise(3) show ?case using must_raise(2) by (cases rule: outcome_elims(6)) fastforce+
next
  case (not_at_fail rs i t i')
  from not_at_fail(3) show ?case using not_at_fail(2) by (cases rule: outcome_elims(7)) fastforce+
next
  case (not_at_match rs i t)
  from not_at_match(3) show ?case using not_at_match(2) by (cases rule: outcome_elims(7)) fastforce+
next
  case (not_at_raise rs i t x q)
  from not_at_raise(3) show ?case using not_at_raise(2) by (cases rule: outcome_elims(7)) fastforce+
next
  case (named_match r i t i' x k)
  from named_match(3) show ?case using named_match(2) by (cases rule: outcome_elims(8)) fastforce+
next
  case (named_fail r i t x k)
  from named_fail(3) show ?case using named_fail(2) by (cases rule: outcome_elims(8)) fastforce+
next
  case (named_raise r i t y q x k)
  from named_raise(3) show ?case using named_raise(2) by (cases rule: outcome_elims(8)) fastforce+
qed

lemma follows_agree:
  assumes "follows matcher g" "rule_outcome (core g) (0, s) t v"
  shows "fst (matcher g s) = t \<and> agree v (snd (matcher g s))"
  using assms outcome_determ unfolding follows_def by blast

section \<open>A matcher\<close>

fun weight :: "peg \<Rightarrow> nat" where
  "weight (Seq rs) = Suc (\<Sum>r \<leftarrow> rs. Suc (weight r))"
| "weight (Sor rs) = Suc (\<Sum>r \<leftarrow> rs. Suc (weight r))"
| "weight (Star rs) = Suc (Suc (\<Sum>r \<leftarrow> rs. Suc (weight r)))"
| "weight (Not_at rs) = Suc (Suc (\<Sum>r \<leftarrow> rs. Suc (weight r)))"
| "weight (Must r) = Suc (weight r)"
| "weight (Named x k r) = Suc (weight r)"
| "weight r = 0"

definition run_leaf :: "peg \<Rightarrow> input \<Rightarrow> hook list \<times> verdict" where
  "run_leaf r i =
     (case leaf r (snd i) of
        Some (Some k) \<Rightarrow> ([], Matched (fst i + k, drop k (snd i)))
      | _ \<Rightarrow> ([], Failed))"

text \<open>
  The matcher stops a repetition that takes no character; the tests for the length of the input are
  needed for its termination only.
\<close>

function run_rule :: "peg \<Rightarrow> input \<Rightarrow> hook list \<times> verdict" where
  "run_rule (Seq []) i = ([], Matched i)"
| "run_rule (Seq (r # rs)) i =
     (case run_rule r i of
        (t, Matched i') \<Rightarrow>
          if length (snd i') \<le> length (snd i)
          then (case run_rule (Seq rs) i' of (t', v) \<Rightarrow> (t @ t', v)) else (t, Failed)
      | (t, v) \<Rightarrow> (t, v))"
| "run_rule (Sor []) i = ([], Failed)"
| "run_rule (Sor (r # rs)) i =
     (case run_rule r i of
        (t, Failed) \<Rightarrow> (case run_rule (Sor rs) i of (t', v) \<Rightarrow> (t @ t', v))
      | (t, v) \<Rightarrow> (t, v))"
| "run_rule (Star rs) i =
     (case run_rule (Seq rs) i of
        (t, Matched i') \<Rightarrow>
          if length (snd i') < length (snd i)
          then (case run_rule (Star rs) i' of (t', v) \<Rightarrow> (t @ t', v)) else (t, Matched i')
      | (t, Failed) \<Rightarrow> (t, Matched i)
      | (t, v) \<Rightarrow> (t, v))"
| "run_rule (Must r) i =
     (case run_rule r i of
        (t, Failed) \<Rightarrow> (t, Raised (rule_name r) (fst i))
      | (t, v) \<Rightarrow> (t, v))"
| "run_rule (Not_at rs) i =
     (case run_rule (Seq rs) i of
        (t, Matched i') \<Rightarrow> (t, Failed)
      | (t, Failed) \<Rightarrow> (t, Matched i)
      | (t, v) \<Rightarrow> (t, v))"
| "run_rule (Named x k r) i =
     (case run_rule r i of
        (t, Matched i') \<Rightarrow> (Start x k (fst i) # t @ [Succeed x k (fst i')], Matched i')
      | (t, Failed) \<Rightarrow> (Start x k (fst i) # t @ [Fail x k (fst i)], Failed)
      | (t, v) \<Rightarrow> (Start x k (fst i) # t, v))"
| "run_rule (One cs) i = run_leaf (One cs) i"
| "run_rule (Not_one cs) i = run_leaf (Not_one cs) i"
| "run_rule Any i = run_leaf Any i"
| "run_rule Space i = run_leaf Space i"
| "run_rule Alnum i = run_leaf Alnum i"
| "run_rule Digit i = run_leaf Digit i"
| "run_rule Upper i = run_leaf Upper i"
| "run_rule Identifier_first i = run_leaf Identifier_first i"
| "run_rule Identifier_other i = run_leaf Identifier_other i"
| "run_rule (Literal u) i = run_leaf (Literal u) i"
| "run_rule Eol i = run_leaf Eol i"
| "run_rule Eof i = run_leaf Eof i"
| "run_rule Success i = run_leaf Success i"
| "run_rule Failure i = run_leaf Failure i"
| "run_rule (Plus rs) i = ([], Failed)"
| "run_rule (Opt rs) i = ([], Failed)"
| "run_rule (Rep n rs) i = ([], Failed)"
| "run_rule (If_must r rs) i = ([], Failed)"
| "run_rule (Pad r s) i = ([], Failed)"
| "run_rule Identifier i = ([], Failed)"
  by pat_completeness auto
termination
  by (relation "measures [\<lambda>(r, i). length (snd i), \<lambda>(r, i). weight r]") auto

definition reference_matcher :: "peg \<Rightarrow> string \<Rightarrow> hook list \<times> verdict" where
  "reference_matcher g s = run_rule (core g) (0, s)"

lemma run_leaf_outcome:
  assumes "leaf r (snd i) \<noteq> None" "run_leaf r i = (t, v)"
  shows "rule_outcome r i t v"
proof -
  obtain n s where i: "i = (n, s)" by (cases i)
  show ?thesis using assms leaf_match [of r s _ n] leaf_fail [of r s n]
    by (auto simp: run_leaf_def i split: option.splits)
qed

lemma run_rule_outcome: "loops_ok r \<Longrightarrow> run_rule r i = (t, v) \<Longrightarrow> rule_outcome r i t v"
proof (induction r i arbitrary: t v rule: run_rule.induct)
  case (1 i)
  then show ?case by (auto intro: seq_nil)
next
  case (3 i)
  then show ?case by (auto intro: sor_nil)
next
  case (2 r rs i)
  obtain t1 v1 where one: "run_rule r i = (t1, v1)" by (cases "run_rule r i")
  then have m: "rule_outcome r i t1 v1" using 2 by simp
  show ?case
  proof (cases v1)
    case (Matched i')
    then have le: "length (snd i') \<le> length (snd i)" using outcome_moves [OF m] by auto
    obtain t2 v2 where two: "run_rule (Seq rs) i' = (t2, v2)" by (cases "run_rule (Seq rs) i'")
    then have "rule_outcome (Seq rs) i' t2 v2" using 2 one Matched le by simp
    then show ?thesis using 2 one two m Matched le by (auto intro: rule_outcome.intros)
  qed (use 2 one m in \<open>auto intro: seq_stop\<close>)
next
  case (4 r rs i)
  obtain t1 v1 where one: "run_rule r i = (t1, v1)" by (cases "run_rule r i")
  then have m: "rule_outcome r i t1 v1" using 4 by simp
  obtain t2 v2 where two: "run_rule (Sor rs) i = (t2, v2)" by (cases "run_rule (Sor rs) i")
  show ?case using 4 one two m by (cases v1) (auto intro: rule_outcome.intros)
next
  case (5 rs i)
  obtain t1 v1 where one: "run_rule (Seq rs) i = (t1, v1)" by (cases "run_rule (Seq rs) i")
  then have m: "rule_outcome (Seq rs) i t1 v1" using 5 by simp
  show ?case
  proof (cases v1)
    case (Matched i')
    then have less: "length (snd i') < length (snd i)" using outcome_moves [OF m] 5 by auto
    obtain t2 v2 where two: "run_rule (Star rs) i' = (t2, v2)" by (cases "run_rule (Star rs) i'")
    then have "rule_outcome (Star rs) i' t2 v2" using 5 one Matched less by simp
    then show ?thesis using 5 one two m Matched less by (auto intro: star_step)
  qed (use 5 one m in \<open>auto intro: rule_outcome.intros\<close>)
next
  case (6 r i)
  obtain t1 v1 where one: "run_rule r i = (t1, v1)" by (cases "run_rule r i")
  then have m: "rule_outcome r i t1 v1" using 6 by simp
  then show ?case using 6 one by (cases v1) (auto intro: must_pass must_raise)
next
  case (7 rs i)
  obtain t1 v1 where one: "run_rule (Seq rs) i = (t1, v1)" by (cases "run_rule (Seq rs) i")
  then have m: "rule_outcome (Seq rs) i t1 v1" using 7 by simp
  then show ?case using 7 one by (cases v1) (auto intro: rule_outcome.intros)
next
  case (8 x k r i)
  obtain t1 v1 where one: "run_rule r i = (t1, v1)" by (cases "run_rule r i")
  then have m: "rule_outcome r i t1 v1" using 8 by simp
  then show ?case using 8 one by (cases v1) (auto intro: named_match named_fail named_raise)
qed (auto intro: rule_outcome.intros intro!: run_leaf_outcome)

text \<open>Matching ends for every grammar without empty loops, and the documentation can be followed.\<close>

lemma reference_matcher_follows: "loops_ok (core g) \<Longrightarrow> follows reference_matcher g"
  by (simp add: follows_def reference_matcher_def run_rule_outcome)

end
