(* ===== verification/SyntaxTree.thy ===== *)
theory SyntaxTree
  imports PegRules ConfigFilter
begin

text \<open>
  \<open>parse_tree.hpp\<close>: the nodes of the syntax tree, the stack they are built on, and the control class
  whose hooks PEGTL calls.  A pointer to a node is the node; the node a hook works on is the last of
  the vector \<open>stack\<close>, which is the head of the list here.
\<close>

section \<open>Nodes\<close>

text \<open>
  The type that the rule of the node gives it (the root has none), the position of its first
  character and, unless the content was removed, the position after its last one.
\<close>

datatype tree_node =
  Tree_node (tn_id: "string option") (tn_begin: nat) (tn_end: "nat option") (tn_children: "tree_node list")

definition new_node :: tree_node where
  "new_node = Tree_node None 0 None []"

fun node_emplace_back :: "tree_node \<Rightarrow> tree_node \<Rightarrow> tree_node" where
  "node_emplace_back child (Tree_node x b e cs) = Tree_node x b e (cs @ [child])"

fun node_start :: "string \<Rightarrow> nat \<Rightarrow> tree_node \<Rightarrow> tree_node" where
  "node_start y p (Tree_node x b e cs) = Tree_node (Some y) p e cs"

fun node_success :: "nat \<Rightarrow> tree_node \<Rightarrow> tree_node" where
  "node_success p (Tree_node x b e cs) = Tree_node x b (Some p) cs"

fun remove_content :: "tree_node \<Rightarrow> tree_node" where
  "remove_content (Tree_node x b e cs) = Tree_node x b None cs"

text \<open>
  The accessors.  \<open>at\<close> checks its position; \<open>front\<close> and \<open>back\<close> of an empty vector have no meaning.
\<close>

definition node_at :: "nat \<Rightarrow> tree_node \<Rightarrow> cpp_error + tree_node" where
  "node_at pos n =
     (if pos < length (tn_children n) then Inr (tn_children n ! pos)
      else Inl (Out_of_range (''vector::_M_range_check: __n (which is '' @ show_nat pos @
        '') >= this->size() (which is '' @ show_nat (length (tn_children n)) @ '')'')))"

definition node_front :: "tree_node \<Rightarrow> cpp_error + tree_node" where
  "node_front n =
     (case tn_children n of [] \<Rightarrow> Inl (Undefined_behaviour ''front of an empty vector'') | c # _ \<Rightarrow> Inr c)"

definition node_back :: "tree_node \<Rightarrow> cpp_error + tree_node" where
  "node_back n =
     (if tn_children n = [] then Inl (Undefined_behaviour ''back of an empty vector'') else Inr (last (tn_children n)))"

definition node_empty :: "tree_node \<Rightarrow> bool" where
  "node_empty n \<longleftrightarrow> tn_children n = []"

definition node_size :: "tree_node \<Rightarrow> nat" where
  "node_size n = length (tn_children n)"

definition is_root :: "tree_node \<Rightarrow> bool" where
  "is_root n \<longleftrightarrow> tn_id n = None"

definition node_is :: "string \<Rightarrow> tree_node \<Rightarrow> bool" where
  "node_is rule n \<longleftrightarrow> tn_id n = Some rule"

definition has_content :: "tree_node \<Rightarrow> bool" where
  "has_content n \<longleftrightarrow> tn_end n \<noteq> None"

text \<open>\<open>at\<close> never reads past the end, and \<open>front\<close> and \<open>back\<close> are its first and last position.\<close>

lemma node_at_ends:
  "is_ok (node_at pos n) \<longleftrightarrow> pos < node_size n"
  "\<not> node_empty n \<Longrightarrow> node_front n = node_at 0 n \<and> node_back n = node_at (node_size n - 1) n"
  by (auto simp: node_at_def node_front_def node_back_def node_empty_def node_size_def is_ok_def last_conv_nth
      split: list.split)

text \<open>What \<open>name()\<close> and \<open>content()\<close> give in the text that was parsed.\<close>

fun node_id :: "tree_node \<Rightarrow> string" where
  "node_id (Tree_node x b e cs) = (case x of Some y \<Rightarrow> y | None \<Rightarrow> [])"

fun node_content :: "string \<Rightarrow> tree_node \<Rightarrow> string option" where
  "node_content s (Tree_node x b e cs) = map_option (\<lambda>p. take (p - b) (drop b s)) e"

text \<open>The mixins of the grammar.  \<open>children.front()\<close> of an empty vector has no meaning.\<close>

definition replace_with_first_child :: "tree_node \<Rightarrow> cpp_error + tree_node" where
  "replace_with_first_child n =
     (case tn_children n of
        [] \<Rightarrow> Inl (Undefined_behaviour ''front of an empty vector'')
      | c # cs \<Rightarrow> (case c of Tree_node x b e ds \<Rightarrow> Inr (Tree_node x b e cs)))"

fun transform_call :: "store \<Rightarrow> tree_node \<Rightarrow> cpp_error + tree_node" where
  "transform_call Store_without_content n = Inr (remove_content n)"
| "transform_call Store_first_child n = replace_with_first_child n"
| "transform_call _ n = Inr n"

section \<open>The control class\<close>

type_synonym stack = "tree_node list"

definition state_init :: stack where
  "state_init = [new_node]"

definition state_emplace_back :: "stack \<Rightarrow> stack" where
  "state_emplace_back st = new_node # st"

definition state_back :: "stack \<Rightarrow> cpp_error + tree_node" where
  "state_back st = (case st of [] \<Rightarrow> Inl (Undefined_behaviour ''back of an empty vector'') | n # _ \<Rightarrow> Inr n)"

definition state_pop_back :: "stack \<Rightarrow> stack" where
  "state_pop_back st = tl st"

definition set_back :: "tree_node \<Rightarrow> stack \<Rightarrow> stack" where
  "set_back n st = n # tl st"

definition control_start :: "string \<Rightarrow> nat \<Rightarrow> stack \<Rightarrow> cpp_error + stack" where
  "control_start x p st =
     (let st1 = state_emplace_back st
      in sum_bind (state_back st1) (\<lambda>n. Inr (set_back (node_start x p n) st1)))"

definition control_success :: "store \<Rightarrow> nat \<Rightarrow> stack \<Rightarrow> cpp_error + stack" where
  "control_success k p st =
     sum_bind (state_back st) (\<lambda>n.
       let st1 = state_pop_back st in
       sum_bind (transform_call k (node_success p n)) (\<lambda>n'.
         sum_bind (state_back st1) (\<lambda>parent. Inr (set_back (node_emplace_back n' parent) st1))))"

definition control_failure :: "stack \<Rightarrow> cpp_error + stack" where
  "control_failure st = sum_bind (state_back st) (\<lambda>n. Inr (state_pop_back st))"

text \<open>The class without hooks is used for the rules that are not stored.\<close>

fun control_hook :: "hook \<Rightarrow> stack \<Rightarrow> cpp_error + stack" where
  "control_hook (Start x k p) st = (if k = Store_no then Inr st else control_start x p st)"
| "control_hook (Succeed x k p) st = (if k = Store_no then Inr st else control_success k p st)"
| "control_hook (Fail x k p) st = (if k = Store_no then Inr st else control_failure st)"

fun control_run :: "hook list \<Rightarrow> stack \<Rightarrow> cpp_error + stack" where
  "control_run [] st = Inr st"
| "control_run (h # hs) st = sum_bind (control_hook h st) (control_run hs)"

section \<open>Parsing\<close>

text \<open>
  The library: the matcher, the line of a position in a text, the text of a \<open>parse_error\<close> made of a
  message, the name of the input, its text and a position, and the reading of a file.
\<close>

record pegtl =
  pg_match :: "peg \<Rightarrow> string \<Rightarrow> hook list \<times> verdict"
  pg_line :: "string \<Rightarrow> nat \<Rightarrow> nat"
  pg_what :: "string \<Rightarrow> string \<Rightarrow> string \<Rightarrow> nat \<Rightarrow> string"
  pg_read :: "string \<Rightarrow> cpp_error + string"

text \<open>\<open>raise\<close> throws the message that the error mixin has for the rule.\<close>

definition control_raise :: "pegtl \<Rightarrow> (string \<Rightarrow> string) \<Rightarrow> string \<Rightarrow> string \<Rightarrow> string \<Rightarrow> nat \<Rightarrow> cpp_error" where
  "control_raise lib messages source s x p = Runtime_error (pg_what lib (messages x) source s p)"

text \<open>\<open>parse\<close> gives no tree when the rule fails.\<close>

definition tree_parse ::
  "pegtl \<Rightarrow> (string \<Rightarrow> string) \<Rightarrow> peg \<Rightarrow> string \<Rightarrow> string \<Rightarrow> cpp_error + tree_node option" where
  "tree_parse lib messages g source s =
     (case pg_match lib g s of
        (hooks, v) \<Rightarrow>
          sum_bind (control_run hooks state_init) (\<lambda>st.
            case v of
              Raised x p \<Rightarrow> Inl (control_raise lib messages source s x p)
            | Failed \<Rightarrow> Inr None
            | Matched _ \<Rightarrow>
                if length st = 1 then sum_bind (state_back st) (\<lambda>n. Inr (Some n))
                else Inl (Undefined_behaviour ''assertion state.stack.size() == 1'')))"

text \<open>The tree as the rest of the program reads it.\<close>

primrec node_view :: "pegtl \<Rightarrow> string \<Rightarrow> tree_node \<Rightarrow> node" where
  "node_view lib s (Tree_node x b e cs) =
     Node (node_id (Tree_node x b e cs)) (pg_line lib s b) (node_content s (Tree_node x b e cs))
       (map (node_view lib s) cs)"

section \<open>Shapes\<close>

text \<open>
  What the rules say about the text a rule takes and the nodes it leaves, without the order of the
  alternatives.
\<close>

definition kept :: "string \<Rightarrow> store \<Rightarrow> string \<Rightarrow> node list \<Rightarrow> node list \<Rightarrow> bool" where
  "kept x k s ms ns \<longleftrightarrow>
     (case k of
        Store_no \<Rightarrow> ns = ms
      | Store_yes \<Rightarrow> \<exists>l. ns = [Node x l (Some s) ms]
      | Store_without_content \<Rightarrow> \<exists>l. ns = [Node x l None ms]
      | Store_first_child \<Rightarrow>
          \<exists>c cs. ms = c # cs \<and> ns = [Node (node_name c) (node_line c) (node_text c) cs])"

function shape :: "peg \<Rightarrow> string \<Rightarrow> node list \<Rightarrow> bool" where
  "shape (Seq []) s ns \<longleftrightarrow> s = [] \<and> ns = []"
| "shape (Seq (r # rs)) s ns \<longleftrightarrow>
     (\<exists>s1 s2 n1 n2. s = s1 @ s2 \<and> ns = n1 @ n2 \<and> shape r s1 n1 \<and> shape (Seq rs) s2 n2)"
| "shape (Sor []) s ns \<longleftrightarrow> False"
| "shape (Sor (r # rs)) s ns \<longleftrightarrow> shape r s ns \<or> shape (Sor rs) s ns"
| "shape (Star rs) s ns \<longleftrightarrow>
     (\<exists>parts. s = concat (map fst parts) \<and> ns = concat (map snd parts) \<and>
        (\<forall>x \<in> set parts. shape (Seq rs) (fst x) (snd x)))"
| "shape (Must r) s ns \<longleftrightarrow> shape r s ns"
| "shape (Not_at rs) s ns \<longleftrightarrow> s = [] \<and> ns = []"
| "shape (Named x k r) s ns \<longleftrightarrow> (\<exists>ms. shape r s ms \<and> kept x k s ms ns)"
| "shape (One cs) s ns \<longleftrightarrow> leaf (One cs) s = Some (Some (length s)) \<and> ns = []"
| "shape (Not_one cs) s ns \<longleftrightarrow> leaf (Not_one cs) s = Some (Some (length s)) \<and> ns = []"
| "shape Any s ns \<longleftrightarrow> leaf Any s = Some (Some (length s)) \<and> ns = []"
| "shape Space s ns \<longleftrightarrow> leaf Space s = Some (Some (length s)) \<and> ns = []"
| "shape Alnum s ns \<longleftrightarrow> leaf Alnum s = Some (Some (length s)) \<and> ns = []"
| "shape Digit s ns \<longleftrightarrow> leaf Digit s = Some (Some (length s)) \<and> ns = []"
| "shape Upper s ns \<longleftrightarrow> leaf Upper s = Some (Some (length s)) \<and> ns = []"
| "shape Identifier_first s ns \<longleftrightarrow> leaf Identifier_first s = Some (Some (length s)) \<and> ns = []"
| "shape Identifier_other s ns \<longleftrightarrow> leaf Identifier_other s = Some (Some (length s)) \<and> ns = []"
| "shape (Literal u) s ns \<longleftrightarrow> leaf (Literal u) s = Some (Some (length s)) \<and> ns = []"
| "shape Eol s ns \<longleftrightarrow> leaf Eol s = Some (Some (length s)) \<and> ns = []"
| "shape Eof s ns \<longleftrightarrow> leaf Eof s = Some (Some (length s)) \<and> ns = []"
| "shape Success s ns \<longleftrightarrow> leaf Success s = Some (Some (length s)) \<and> ns = []"
| "shape Failure s ns \<longleftrightarrow> leaf Failure s = Some (Some (length s)) \<and> ns = []"
| "shape (Plus rs) s ns \<longleftrightarrow> False"
| "shape (Opt rs) s ns \<longleftrightarrow> False"
| "shape (Rep n rs) s ns \<longleftrightarrow> False"
| "shape (If_must r rs) s ns \<longleftrightarrow> False"
| "shape (Pad r q) s ns \<longleftrightarrow> False"
| "shape Identifier s ns \<longleftrightarrow> False"
  by pat_completeness auto
termination by (relation "measure (\<lambda>(r, s, ns). weight r)") auto

text \<open>
  Backtracking takes back the position, not the nodes that have been added to the parent.  This does
  no harm in rules where nothing that is stored can be followed by a failure.
\<close>

fun stored_free :: "peg \<Rightarrow> bool" where
  "stored_free (Seq rs) = (\<forall>r \<in> set rs. stored_free r)"
| "stored_free (Sor rs) = (\<forall>r \<in> set rs. stored_free r)"
| "stored_free (Star rs) = (\<forall>r \<in> set rs. stored_free r)"
| "stored_free (Not_at rs) = (\<forall>r \<in> set rs. stored_free r)"
| "stored_free (Must r) = stored_free r"
| "stored_free (Named x k r) = (k = Store_no \<and> stored_free r)"
| "stored_free r = True"

fun gives_child :: "peg \<Rightarrow> bool" where
  "gives_child (Seq rs) = (\<exists>r \<in> set rs. gives_child r)"
| "gives_child (Sor rs) = (\<forall>r \<in> set rs. gives_child r)"
| "gives_child (Must r) = gives_child r"
| "gives_child (Named x k r) = (k \<noteq> Store_no \<or> gives_child r)"
| "gives_child Failure = True"
| "gives_child r = False"

function moded :: "peg \<Rightarrow> bool" where
  "moded (Seq []) = True"
| "moded (Seq (r # rs)) = (moded r \<and> (stored_free r \<or> never_fails (Seq rs)) \<and> moded (Seq rs))"
| "moded (Sor rs) = (\<forall>r \<in> set rs. moded r)"
| "moded (Star rs) = moded (Seq rs)"
| "moded (Not_at rs) = (stored_free (Seq rs) \<and> moded (Seq rs))"
| "moded (Must r) = moded r"
| "moded (Named x k r) = (moded r \<and> (k = Store_first_child \<longrightarrow> gives_child r))"
| "moded (One cs) = True" | "moded (Not_one cs) = True" | "moded Any = True" | "moded Space = True"
| "moded Alnum = True" | "moded Digit = True" | "moded Upper = True" | "moded Identifier_first = True"
| "moded Identifier_other = True" | "moded (Literal u) = True" | "moded Eol = True" | "moded Eof = True"
| "moded Success = True" | "moded Failure = True" | "moded (Plus rs) = False" | "moded (Opt rs) = False"
| "moded (Rep n rs) = False" | "moded (If_must r rs) = False" | "moded (Pad r q) = False" | "moded Identifier = False"
  by pat_completeness auto
termination
proof (relation "measure weight", goal_cases)
  case (4 rs r)
  then have "Suc (weight r) \<le> (\<Sum>x \<leftarrow> rs. Suc (weight x))"
    by (intro member_le_sum_list) auto
  then show ?case by simp
qed auto

text \<open>The rules that an error can be raised for.\<close>

fun raises :: "peg \<Rightarrow> string list" where
  "raises (Seq rs) = concat (map raises rs)"
| "raises (Sor rs) = concat (map raises rs)"
| "raises (Star rs) = concat (map raises rs)"
| "raises (Not_at rs) = concat (map raises rs)"
| "raises (Must r) = (if never_fails r then raises r else rule_name r # raises r)"
| "raises (Named x k r) = raises r"
| "raises r = []"

section \<open>What the hooks build\<close>

definition add_children :: "tree_node list \<Rightarrow> tree_node \<Rightarrow> tree_node" where
  "add_children cs n = fold node_emplace_back cs n"

lemma add_children_simps [simp]:
  "add_children [] n = n"
  "add_children (c # cs) n = add_children cs (node_emplace_back c n)"
  "add_children (cs @ ds) n = add_children ds (add_children cs n)"
  by (simp_all add: add_children_def)

lemma add_children_node: "add_children cs (Tree_node x b e ds) = Tree_node x b e (ds @ cs)"
  by (induction cs arbitrary: ds) simp_all

lemma control_run_append: "control_run (hs @ hs') st = sum_bind (control_run hs st) (control_run hs')"
proof (induction hs arbitrary: st)
  case (Cons h hs)
  then show ?case by (cases "control_hook h st") simp_all
qed simp

lemma control_run_free: "rule_outcome r i t v \<Longrightarrow> stored_free r \<Longrightarrow> control_run t st = Inr st"
  by (induction arbitrary: st rule: rule_outcome.induct) (auto simp: control_run_append)

lemma shape_free: "shape r s ns \<Longrightarrow> stored_free r \<Longrightarrow> ns = []"
proof (induction r s ns rule: shape.induct)
  case (5 rs s ns)
  then obtain parts where parts: "ns = concat (map snd parts)" "\<forall>x \<in> set parts. shape (Seq rs) (fst x) (snd x)" by auto
  have "snd x = []" if "x \<in> set parts" for x
    using 5 parts(2) that by (metis stored_free.simps(1,3))
  then show ?case using parts(1) by simp
qed (auto simp: kept_def)

lemma shape_gives_child: "shape r s ns \<Longrightarrow> gives_child r \<Longrightarrow> ns \<noteq> []"
proof (induction r s ns rule: shape.induct)
  case (2 r rs s ns)
  from 2(3) obtain s1 s2 n1 n2 where "ns = n1 @ n2" "shape r s1 n1" "shape (Seq rs) s2 n2" by auto
  moreover from 2(4) have "gives_child r \<or> gives_child (Seq rs)" by auto
  ultimately show ?case using 2(1) [of s1 n1] 2(2) [of s2 n2] by blast
next
  case (8 x k r s ns)
  then show ?case by (cases k) (auto simp: kept_def)
qed auto

lemma leaf_take: "leaf r s = Some (Some k) \<Longrightarrow> leaf r (take k s) = Some (Some k)"
proof -
  have one: "one_char P (take k s) = Some k" if "one_char P s = Some k" for P
    using that by (cases s) (auto simp: one_char_def split: if_splits)
  assume l: "leaf r s = Some (Some k)"
  show ?thesis
  proof (cases r)
    case Eol
    then show ?thesis using l by (auto simp: numeral_2_eq_2 split: if_splits)
  qed (use l one in \<open>auto split: if_splits\<close>)
qed

lemma shape_leaf: "leaf r s = Some (Some (length s)) \<Longrightarrow> shape r s []"
  by (cases r) auto

lemma moded_parts: "moded (Seq rs) \<Longrightarrow> r \<in> set rs \<Longrightarrow> moded r"
  by (induction rs) auto

text \<open>The stretch of a text between two positions.\<close>

abbreviation stretch :: "string \<Rightarrow> nat \<Rightarrow> nat \<Rightarrow> string" where
  "stretch s p q \<equiv> take (q - p) (drop p s)"

lemma stretch_append: "p \<le> q \<Longrightarrow> q \<le> q' \<Longrightarrow> stretch s p q @ stretch s q q' = stretch s p q'"
proof -
  assume "p \<le> q" "q \<le> q'"
  then have "q' - p = (q - p) + (q' - q)" "drop q s = drop (q - p) (drop p s)" by auto
  then show ?thesis by (metis take_add)
qed

text \<open>
  What the hooks of a rule do that starts at position \<open>p\<close> of the text: nothing when it fails; when it
  matches they add nodes to the node on top, which have the shape the rule asks for.
\<close>

definition builds :: "pegtl \<Rightarrow> string \<Rightarrow> peg \<Rightarrow> nat \<Rightarrow> hook list \<Rightarrow> verdict \<Rightarrow> bool" where
  "builds lib s r p t v \<longleftrightarrow>
     (case v of
        Matched i \<Rightarrow>
          \<exists>q cs. i = (q, drop q s) \<and> p \<le> q \<and> q \<le> length s \<and>
            (\<forall>n st. control_run t (n # st) = Inr (add_children cs n # st)) \<and>
            shape r (stretch s p q) (map (node_view lib s) cs)
      | Failed \<Rightarrow> \<forall>n st. control_run t (n # st) = Inr (n # st)
      | Raised x q \<Rightarrow> (\<forall>n st. is_ok (control_run t (n # st))) \<and> x \<in> set (raises r))"

lemma builds_named:
  assumes "builds lib s r p t v" "k = Store_first_child \<longrightarrow> gives_child r"
  shows "v = Matched (q, u) \<Longrightarrow> builds lib s (Named x k r) p (Start x k p # t @ [Succeed x k q]) v"
    and "v = Failed \<Longrightarrow> builds lib s (Named x k r) p (Start x k p # t @ [Fail x k p]) v"
    and "v = Raised y p' \<Longrightarrow> builds lib s (Named x k r) p (Start x k p # t) v"
proof -
  have start: "control_start x p (m # st) = Inr (Tree_node (Some x) p None [] # m # st)" for m st
    by (simp add: control_start_def state_emplace_back_def state_back_def set_back_def new_node_def)
  assume v: "v = Matched (q, u)"
  then obtain cs where cs: "u = drop q s" "p \<le> q" "q \<le> length s"
      "\<forall>n st. control_run t (n # st) = Inr (add_children cs n # st)"
      "shape r (stretch s p q) (map (node_view lib s) cs)"
    using assms(1) by (auto simp: builds_def)
  show "builds lib s (Named x k r) p (Start x k p # t @ [Succeed x k q]) v"
  proof (cases "k = Store_no")
    case True
    then show ?thesis using v cs by (auto simp: builds_def control_run_append kept_def)
  next
    case stored: False
    let ?n = "Tree_node (Some x) p (Some q) cs"
    obtain d where d: "transform_call k ?n = Inr d"
        "kept x k (stretch s p q) (map (node_view lib s) cs) [node_view lib s d]"
    proof (cases k)
      case Store_first_child
      then have "cs \<noteq> []" using shape_gives_child [OF cs(5)] assms(2) by auto
      then obtain c ds where c: "cs = c # ds" by (cases cs) auto
      obtain y b e es where "c = Tree_node y b e es" by (cases c)
      with c that [of "Tree_node y b e ds"] show ?thesis
        by (simp add: Store_first_child replace_with_first_child_def kept_def)
    qed (use that stored in \<open>auto simp: kept_def\<close>)
    have "control_run (Start x k p # t @ [Succeed x k q]) (m # st) = Inr (add_children [d] m # st)" for m st
      using stored d(1) cs(4)
      by (simp add: start control_run_append add_children_node control_success_def state_pop_back_def state_back_def set_back_def)
    then show ?thesis using v cs(1-3,5) d(2) unfolding builds_def by (auto intro!: exI [of _ "[d]"])
  qed
next
  have start: "control_start x p (m # st) = Inr (Tree_node (Some x) p None [] # m # st)" for m st
    by (simp add: control_start_def state_emplace_back_def state_back_def set_back_def new_node_def)
  {
    assume "v = Failed"
    then show "builds lib s (Named x k r) p (Start x k p # t @ [Fail x k p]) v"
      using assms(1) by (auto simp: builds_def start control_run_append control_failure_def state_pop_back_def state_back_def)
  next
    assume "v = Raised y p'"
    then show "builds lib s (Named x k r) p (Start x k p # t) v"
      using assms(1) by (auto simp: builds_def start)
  }
qed

lemma builds_seq:
  assumes "builds lib s r p t (Matched (q, drop q s))" "builds lib s (Seq rs) q t' v"
    "stored_free r \<and> rule_outcome r (p, drop p s) t (Matched (q, drop q s)) \<or> v \<noteq> Failed"
  shows "builds lib s (Seq (r # rs)) p (t @ t') v"
proof -
  obtain cs where cs: "p \<le> q" "q \<le> length s"
      "\<forall>n st. control_run t (n # st) = Inr (add_children cs n # st)"
      "shape r (stretch s p q) (map (node_view lib s) cs)"
    using assms(1) by (auto simp: builds_def)
  show ?thesis
  proof (cases v)
    case (Matched i)
    then obtain q' ds where ds: "i = (q', drop q' s)" "q \<le> q'" "q' \<le> length s"
        "\<forall>n st. control_run t' (n # st) = Inr (add_children ds n # st)"
        "shape (Seq rs) (stretch s q q') (map (node_view lib s) ds)"
      using assms(2) by (auto simp: builds_def)
    have "shape (Seq (r # rs)) (stretch s p q') (map (node_view lib s) (cs @ ds))"
      unfolding shape.simps(2) stretch_append [OF cs(1) ds(2), symmetric] map_append
      using cs(4) ds(5) by blast
    then show ?thesis using Matched cs ds(1-4)
      by (auto simp: builds_def control_run_append simp del: shape.simps map_append intro!: exI [of _ "cs @ ds"])
  next
    case Failed
    then show ?thesis using assms(2,3) control_run_free by (auto simp: builds_def control_run_append)
  next
    case (Raised x p')
    then show ?thesis using assms(2) cs(3) by (auto simp: builds_def control_run_append)
  qed
qed


lemma builds_free:
  assumes "rule_outcome r (p, drop p s) t v" "stored_free r" "shape r [] []" "v = Matched (p, drop p s) \<or> v = Failed" "p \<le> length s"
  shows "builds lib s r p t v"
  using control_run_free [OF assms(1,2)] assms(3-5) by (auto simp: builds_def intro!: exI [of _ "[]"])

lemma builds_star:
  assumes "builds lib s (Seq rs) p t (Matched (q, drop q s))" "builds lib s (Star rs) q t' v" "v \<noteq> Failed"
  shows "builds lib s (Star rs) p (t @ t') v"
proof -
  obtain cs where cs: "p \<le> q" "q \<le> length s"
      "\<forall>n st. control_run t (n # st) = Inr (add_children cs n # st)"
      "shape (Seq rs) (stretch s p q) (map (node_view lib s) cs)"
    using assms(1) by (auto simp: builds_def)
  show ?thesis
  proof (cases v)
    case (Matched i)
    then obtain q' ds where ds: "i = (q', drop q' s)" "q \<le> q'" "q' \<le> length s"
        "\<forall>n st. control_run t' (n # st) = Inr (add_children ds n # st)"
        "shape (Star rs) (stretch s q q') (map (node_view lib s) ds)"
      using assms(2) by (auto simp: builds_def simp del: shape.simps)
    then obtain parts where "stretch s q q' = concat (map fst parts)" "map (node_view lib s) ds = concat (map snd parts)"
        "\<forall>x \<in> set parts. shape (Seq rs) (fst x) (snd x)" by auto
    then have "shape (Star rs) (stretch s p q') (map (node_view lib s) (cs @ ds))"
      using cs(4) unfolding shape.simps(5) stretch_append [OF cs(1) ds(2), symmetric] map_append
      by (intro exI [of _ "(stretch s p q, map (node_view lib s) cs) # parts"]) auto
    then show ?thesis using Matched cs ds(1-4)
      by (auto simp: builds_def control_run_append simp del: shape.simps map_append intro!: exI [of _ "cs @ ds"])
  next
    case (Raised x p')
    then show ?thesis using assms(2) cs(3) by (auto simp: builds_def control_run_append)
  qed (use assms(3) in simp)
qed

text \<open>
  The nodes of a well-moded rule: hooks never work on an empty stack, failing rules leave nothing,
  and the nodes that are left have the shape of the rule.
\<close>

lemma outcome_builds:
  "rule_outcome r i t v \<Longrightarrow> moded r \<Longrightarrow> i = (p, drop p s) \<Longrightarrow> p \<le> length s \<Longrightarrow> builds lib s r p t v"
proof (induction arbitrary: p rule: rule_outcome.induct)
  case (leaf_match r u k n)
  from leaf_le [OF leaf_match(1)] leaf_take [OF leaf_match(1)] shape_leaf [of r "take k u"] leaf_match
  show ?case by (auto simp: builds_def min_absorb2 add.commute intro!: exI [of _ "p + k"] exI [of _ "[]"])
next
  case (seq_stop r i t v rs)
  then have "builds lib s r p t v" by simp
  then show ?case using seq_stop(2) by (cases v) (auto simp: builds_def)
next
  case (seq_step r i t i' rs t' v)
  have r: "builds lib s r p t (Matched i')" using seq_step by simp
  then obtain q where q: "i' = (q, drop q s)" "q \<le> length s" by (auto simp: builds_def)
  then have "builds lib s (Seq rs) q t' v" using seq_step by simp
  moreover have "stored_free r \<and> rule_outcome r (p, drop p s) t (Matched (q, drop q s)) \<or> v \<noteq> Failed"
    using seq_step outcome_fails [OF seq_step(2)] q by auto
  ultimately show ?case using builds_seq r q by blast
next
  case (sor_stop r i t v rs)
  then have "builds lib s r p t v" by simp
  then show ?case using sor_stop(2) by (cases v) (auto simp: builds_def)
next
  case (sor_step r i t rs t' v)
  have "builds lib s r p t Failed" "builds lib s (Sor rs) p t' v" using sor_step by simp_all
  then show ?case by (cases v) (auto simp: builds_def control_run_append)
next
  case (star_step rs i t i' t' v)
  have r: "builds lib s (Seq rs) p t (Matched i')" using star_step by simp
  then obtain q where q: "i' = (q, drop q s)" "q \<le> length s" by (auto simp: builds_def)
  then have "builds lib s (Star rs) q t' v" using star_step by simp
  then show ?case using builds_star r q outcome_fails [OF star_step(2)] by auto
next
  case (star_stop rs i t)
  then have "builds lib s (Seq rs) p t Failed" by simp
  then show ?case using star_stop(4,5) by (auto simp: builds_def intro!: exI [of _ "[]"])
next
  case (star_raise rs i t x q)
  then have "builds lib s (Seq rs) p t (Raised x q)" by simp
  then show ?case by (simp add: builds_def)
next
  case (must_pass r i t v)
  then have "builds lib s r p t v" by simp
  then show ?case using must_pass(2) by (cases v) (auto simp: builds_def)
next
  case (must_raise r i t q)
  then have "builds lib s r p t Failed" by simp
  moreover have "\<not> never_fails r" using outcome_fails must_raise(1) by blast
  ultimately show ?case by (auto simp: builds_def)
next
  case (not_at_fail rs i t i')
  then have "control_run t st = Inr st" for st using control_run_free by simp
  then show ?case by (simp add: builds_def)
next
  case (not_at_match rs i t)
  then have "control_run t st = Inr st" for st using control_run_free by simp
  then show ?case using not_at_match by (auto simp: builds_def intro!: exI [of _ "[]"])
next
  case (not_at_raise rs i t x q)
  then have "builds lib s (Seq rs) p t (Raised x q)" by simp
  then show ?case by (simp add: builds_def)
next
  case (named_match r i t i' x k)
  then have "builds lib s r p t (Matched i')" by simp
  from builds_named(1) [OF this, of k "fst i'" "snd i'" x] show ?case using named_match by simp
next
  case (named_fail r i t x k)
  then have "builds lib s r p t Failed" by simp
  from builds_named(2) [OF this, of k x] show ?case using named_fail by simp
next
  case (named_raise r i t y q x k)
  then have "builds lib s r p t (Raised y q)" by simp
  from builds_named(3) [OF this, of k y q x] show ?case using named_raise by simp
qed (auto simp: builds_def intro!: exI [of _ "[]"])


end
