(* ===== verification/ConfigGrammar.thy ===== *)
theory ConfigGrammar
  imports SyntaxTree
begin

text \<open>
  The grammar of configuration files (\<open>config_grammar.hpp\<close>) with its error messages
  (\<open>config_grammar.cpp\<close>), the constructor of \<open>ConfigParser\<close>, and the trees that parsing gives.  The names
  of the rules have the prefix \<open>g_\<close>.  A structure that derives from another one has its body; a
  structure template stands for its body, as it is neither stored nor raised.
\<close>

section \<open>The grammar\<close>

fun rule_body :: "peg \<Rightarrow> peg" where
  "rule_body (Named x k r) = r"
| "rule_body r = r"

text \<open>Comments, padding and statements.\<close>

definition g_comment :: peg where
  "g_comment =
     Named ''config::comment'' Store_no
       (Seq [One [CHR ''#''], Star [Not_at [Eol], Not_at [Eof], Any]])"

definition g_ignored :: peg where
  "g_ignored = Named ''config::ignored'' Store_no (Sor [Space, g_comment])"

definition g_p :: "peg \<Rightarrow> peg" where
  "g_p r = Pad r g_ignored"

definition g_eos :: peg where
  "g_eos = Named ''config::eos'' Store_no (One [CHR '';''])"

definition a0_statement :: "peg \<Rightarrow> peg" where
  "a0_statement k = Seq [k, g_p (Must g_eos)]"

definition a1_statement :: "peg \<Rightarrow> peg \<Rightarrow> peg" where
  "a1_statement k v = Seq [k, g_p (Must v), g_p (Must g_eos)]"

definition g_opening_brace :: peg where
  "g_opening_brace = Named ''config::opening_brace'' Store_no (One [CHR ''{''])"

definition g_closing_brace :: peg where
  "g_closing_brace = Named ''config::closing_brace'' Store_no (One [CHR ''}''])"

definition t_block :: "peg \<Rightarrow> peg list \<Rightarrow> peg" where
  "t_block k statements =
     Seq [k, g_p (Must g_opening_brace), Star [g_p (Sor statements)], g_p (Must g_closing_brace)]"

definition t_named_block :: "peg \<Rightarrow> peg \<Rightarrow> peg list \<Rightarrow> peg" where
  "t_named_block k name statements =
     Seq [k, g_p (Must name), g_p (Must g_opening_brace), Star [g_p (Sor statements)],
       g_p (Must g_closing_brace)]"

text \<open>Values.\<close>

definition g_yesno :: peg where
  "g_yesno = Named ''config::yesno'' Store_no (Sor [Literal ''yes'', Literal ''no''])"

definition g_integer :: peg where
  "g_integer = Named ''config::integer'' Store_no (Plus [Digit])"

definition g_signed_integer :: peg where
  "g_signed_integer =
     Named ''config::signed_integer'' Store_no
       (Seq [Opt [One [CHR ''+'', CHR ''-'']], g_integer])"

definition g_mavaddr :: peg where
  "g_mavaddr = Named ''config::mavaddr'' Store_no (Seq [g_integer, One [CHR ''.''], g_integer])"

definition g_full_mask :: peg where
  "g_full_mask = Named ''config::full_mask'' Store_no (If_must (One [CHR '':'']) [g_mavaddr])"

definition g_forward_mask :: peg where
  "g_forward_mask = Named ''config::forward_mask'' Store_no (If_must (One [CHR ''/'']) [g_integer])"

definition g_backward_mask :: peg where
  "g_backward_mask = Named ''config::backward_mask'' Store_no (If_must (One [CHR 0x5C]) [g_integer])"

definition g_mavmask :: peg where
  "g_mavmask =
     Named ''config::mavmask'' Store_no
       (Seq [g_mavaddr, Opt [Sor [g_full_mask, g_forward_mask, g_backward_mask]]])"

definition g_port :: peg where
  "g_port = Named ''config::port'' Store_yes (rule_body g_integer)"

definition g_address :: peg where
  "g_address =
     Named ''config::address'' Store_yes
       (Seq [g_integer, Rep 3 [Seq [One [CHR ''.''], g_integer]]])"

definition g_max_bitrate :: peg where
  "g_max_bitrate = Named ''config::max_bitrate'' Store_yes (rule_body g_integer)"

definition g_device :: peg where
  "g_device =
     Named ''config::device'' Store_yes
       (Plus [Sor [Alnum, One [CHR ''.'', CHR ''_'', CHR ''/'']]])"

definition g_baudrate :: peg where
  "g_baudrate = Named ''config::baudrate'' Store_yes (rule_body g_integer)"

definition g_flow_control :: peg where
  "g_flow_control = Named ''config::flow_control'' Store_yes (rule_body g_yesno)"

definition g_preload :: peg where
  "g_preload = Named ''config::preload'' Store_yes (rule_body g_mavaddr)"

definition g_chain_name :: peg where
  "g_chain_name = Named ''config::chain_name'' Store_yes (Identifier)"

text \<open>Rules of a chain.\<close>

definition g_accept :: peg where
  "g_accept = Named ''config::accept'' Store_without_content (Literal ''accept'')"

definition g_reject :: peg where
  "g_reject = Named ''config::reject'' Store_without_content (Literal ''reject'')"

definition g_call :: peg where
  "g_call = Named ''config::call'' Store_yes (rule_body g_chain_name)"

definition g_call_container :: peg where
  "g_call_container =
     Named ''config::call_container'' Store_first_child
       (Seq [Literal ''call'', g_p (Must g_call)])"

definition g_goto :: peg where
  "g_goto = Named ''config::goto_'' Store_yes (rule_body g_chain_name)"

definition g_goto_container :: peg where
  "g_goto_container =
     Named ''config::goto_container'' Store_first_child
       (Seq [Literal ''goto'', g_p (Must g_goto)])"

definition g_action :: peg where
  "g_action =
     Named ''config::action'' Store_no
       (Sor [g_accept, g_reject, g_call_container, g_goto_container])"

definition g_packet_type :: peg where
  "g_packet_type = Named ''config::packet_type'' Store_yes (Plus [Sor [Upper, Digit, One [CHR ''_'']]])"

definition g_source :: peg where
  "g_source = Named ''config::source'' Store_yes (rule_body g_mavmask)"

definition g_source_command :: peg where
  "g_source_command =
     Named ''config::source_command'' Store_no
       (Seq [Literal ''from'', g_p (Must g_source)])"

definition g_dest :: peg where
  "g_dest = Named ''config::dest'' Store_yes (rule_body g_mavmask)"

definition g_dest_command :: peg where
  "g_dest_command = Named ''config::dest_command'' Store_no (Seq [Literal ''to'', g_p (Must g_dest)])"

definition g_start_with_packet_type :: peg where
  "g_start_with_packet_type =
     Named ''config::start_with_packet_type'' Store_no
       (Seq [g_packet_type, Opt [g_p g_source_command], Opt [g_p g_dest_command]])"

definition g_start_with_source :: peg where
  "g_start_with_source =
     Named ''config::start_with_source'' Store_no
       (Seq [g_source_command, Opt [g_p g_dest_command]])"

definition g_start_with_dest :: peg where
  "g_start_with_dest = Named ''config::start_with_dest'' Store_no (rule_body g_dest_command)"

definition g_condition_value :: peg where
  "g_condition_value =
     Named ''config::condition_value'' Store_no
       (g_p (Sor [g_start_with_packet_type, g_start_with_source, g_start_with_dest]))"

definition g_condition :: peg where
  "g_condition =
     Named ''config::condition'' Store_without_content
       (If_must (Literal ''if'') [g_condition_value])"

definition g_priority :: peg where
  "g_priority = Named ''config::priority'' Store_yes (rule_body g_signed_integer)"

definition g_priority_keyword :: peg where
  "g_priority_keyword = Named ''config::priority_keyword'' Store_no (Literal ''priority'')"

definition g_priority_command :: peg where
  "g_priority_command =
     Named ''config::priority_command'' Store_no
       (Seq [Literal ''with'', g_p (Must g_priority_keyword), g_p (Must g_priority)])"

text \<open>Unsupported statements and rules.\<close>

definition g_unsupported_statement :: peg where
  "g_unsupported_statement = Named ''config::unsupported_statement'' Store_no (Failure)"

definition g_sa0_catch :: peg where
  "g_sa0_catch =
     Named ''config::sa0_catch'' Store_no
       (If_must (a0_statement Identifier) [g_unsupported_statement])"

definition g_sa1_catch :: peg where
  "g_sa1_catch =
     Named ''config::sa1_catch'' Store_no
       (If_must (a1_statement Identifier (Star [Not_one [CHR '';'']])) [g_unsupported_statement])"

definition g_s_catch :: peg where
  "g_s_catch = Named ''config::s_catch'' Store_no (Sor [g_sa0_catch, g_sa1_catch])"

definition g_invalid_rule :: peg where
  "g_invalid_rule = Named ''config::invalid_rule'' Store_no (Failure)"

definition g_sa0_rule_catch :: peg where
  "g_sa0_rule_catch =
     Named ''config::sa0_rule_catch'' Store_no
       (If_must (a0_statement Identifier) [g_invalid_rule])"

definition g_sa1_rule_catch :: peg where
  "g_sa1_rule_catch =
     Named ''config::sa1_rule_catch'' Store_no
       (If_must (a1_statement Identifier (Star [Not_one [CHR '';'']])) [g_invalid_rule])"

definition g_rule_catch :: peg where
  "g_rule_catch = Named ''config::rule_catch'' Store_no (Sor [g_sa0_rule_catch, g_sa1_rule_catch])"

text \<open>Chains and the default action.\<close>

definition g_rule :: peg where
  "g_rule =
     Named ''config::rule'' Store_first_child
       (If_must (Sor [g_action, g_rule_catch]) [Opt [g_p g_priority_command], Opt [g_p g_condition],
         g_eos])"

definition g_chain :: peg where
  "g_chain = Named ''config::chain'' Store_yes (rule_body g_chain_name)"

definition g_chain_container :: peg where
  "g_chain_container =
     Named ''config::chain_container'' Store_first_child
       (t_named_block (Literal ''chain'') g_chain [g_rule])"

definition g_default_action_option :: peg where
  "g_default_action_option =
     Named ''config::default_action_option'' Store_no
       (Sor [g_accept, g_reject])"

definition g_default_action :: peg where
  "g_default_action =
     Named ''config::default_action'' Store_without_content
       (a1_statement (Literal ''default_action'') g_default_action_option)"

text \<open>Interfaces.\<close>

definition g_s_port :: peg where
  "g_s_port = Named ''config::s_port'' Store_no (a1_statement (Literal ''port'') g_port)"

definition g_s_address :: peg where
  "g_s_address = Named ''config::s_address'' Store_no (a1_statement (Literal ''address'') g_address)"

definition g_s_max_bitrate :: peg where
  "g_s_max_bitrate =
     Named ''config::s_max_bitrate'' Store_no
       (a1_statement (Literal ''max_bitrate'') g_max_bitrate)"

definition g_udp :: peg where
  "g_udp =
     Named ''config::udp'' Store_without_content
       (t_block (Literal ''udp'') [g_s_port, g_s_address, g_s_max_bitrate, g_s_catch])"

definition g_s_device :: peg where
  "g_s_device = Named ''config::s_device'' Store_no (a1_statement (Literal ''device'') g_device)"

definition g_s_baudrate :: peg where
  "g_s_baudrate =
     Named ''config::s_baudrate'' Store_no
       (a1_statement (Literal ''baudrate'') g_baudrate)"

definition g_s_flow_control :: peg where
  "g_s_flow_control =
     Named ''config::s_flow_control'' Store_no
       (a1_statement (Literal ''flow_control'') g_flow_control)"

definition g_s_preload :: peg where
  "g_s_preload = Named ''config::s_preload'' Store_no (a1_statement (Literal ''preload'') g_preload)"

definition g_serial :: peg where
  "g_serial =
     Named ''config::serial'' Store_without_content
       (t_block (Literal ''serial'') [g_s_device, g_s_baudrate, g_s_flow_control, g_s_preload,
         g_s_catch])"

text \<open>The whole file.\<close>

definition g_block :: peg where
  "g_block = Named ''config::block'' Store_no (Sor [g_udp, g_serial, g_chain_container])"

definition g_statement :: peg where
  "g_statement = Named ''config::statement'' Store_no (Sor [g_default_action, g_s_catch])"

definition g_element :: peg where
  "g_element = Named ''config::element'' Store_no (Sor [g_comment, g_block, g_statement])"

definition g_elements :: peg where
  "g_elements = Named ''config::elements'' Store_no (Plus [Pad g_element g_ignored])"

definition g_grammar :: peg where
  "g_grammar = Named ''config::grammar'' Store_no (Seq [Must g_elements, Eof])"

lemmas grammar_defs = g_comment_def g_ignored_def g_p_def g_eos_def a0_statement_def a1_statement_def g_opening_brace_def g_closing_brace_def t_block_def t_named_block_def g_yesno_def g_integer_def g_signed_integer_def g_mavaddr_def g_full_mask_def g_forward_mask_def g_backward_mask_def g_mavmask_def g_port_def g_address_def g_max_bitrate_def g_device_def g_baudrate_def g_flow_control_def g_preload_def g_chain_name_def g_accept_def g_reject_def g_call_def g_call_container_def g_goto_def g_goto_container_def g_action_def g_packet_type_def g_source_def g_source_command_def g_dest_def g_dest_command_def g_start_with_packet_type_def g_start_with_source_def g_start_with_dest_def g_condition_value_def g_condition_def g_priority_def g_priority_keyword_def g_priority_command_def g_unsupported_statement_def g_sa0_catch_def g_sa1_catch_def g_s_catch_def g_invalid_rule_def g_sa0_rule_catch_def g_sa1_rule_catch_def g_rule_catch_def g_rule_def g_chain_def g_chain_container_def g_default_action_option_def g_default_action_def g_s_port_def g_s_address_def g_s_max_bitrate_def g_udp_def g_s_device_def g_s_baudrate_def g_s_flow_control_def g_s_preload_def g_serial_def g_block_def g_statement_def g_element_def g_elements_def g_grammar_def

section \<open>Error messages\<close>

definition error_messages :: "(string \<times> string) list" where
  "error_messages =
    [(''config::eos'', ''expected end of statement ';' character''),
     (''config::opening_brace'', ''expected opening brace '{'' @ [CHR 0x27]),
     (''config::closing_brace'', ''expected closing brace '}'' @ [CHR 0x27]),
     (''config::unsupported_statement'', ''unsupported statement''),
     (''config::default_action_option'', ''expected 'accept' or 'reject'' @ [CHR 0x27]),
     (''config::port'', ''expected a valid port number''),
     (''config::address'', ''expected a valid IP address''),
     (''config::max_bitrate'', ''expected a valid bitrate''),
     (''config::device'', ''expected a valid serial port device name''),
     (''config::baudrate'', ''expected a valid baud rate''),
     (''config::flow_control'', ''expected 'yes' or 'no'' @ [CHR 0x27]),
     (''config::preload'', ''expected a valid MAVLink address''),
     (''config::chain_name'', ''expected a valid chain name''),
     (''config::chain'', ''expected a valid chain name''),
     (''config::call'', ''expected a valid chain name''),
     (''config::goto_'', ''expected a valid chain name''),
     (''config::invalid_rule'', ''expected a valid rule''),
     (''config::condition_value'', ''condition is empty or invalid''),
     (''config::dest'', ''expected a valid MAVLink subnet''),
     (''config::source'', ''expected a valid MAVLink subnet''),
     (''config::mavaddr'', ''expected a valid MAVLink address''),
     (''config::integer'', ''expected an integer''),
     (''config::priority'', ''expected priority level''),
     (''config::priority_keyword'', CHR 0x27 # ''with' keyword must be followed by the 'priority' keyword''),
     (''config::elements'', ''expected at least one valid statement or block'')]"

text \<open>The message of any other rule is made of its name.\<close>

definition error_message :: "string \<Rightarrow> string" where
  "error_message x =
     (case map_of error_messages x of
        Some m \<Rightarrow> m
      | None \<Rightarrow> ''parse error matching '' @ x)"

section \<open>Parsing a file\<close>

definition parse_config :: "pegtl \<Rightarrow> string \<Rightarrow> string \<Rightarrow> cpp_error + tree_node option" where
  "parse_config lib source s = tree_parse lib error_message g_grammar source s"

abbreviation unexpected_error :: cpp_error where
  "unexpected_error \<equiv> Runtime_error ''Unexpected error while parsing configuration file.''"

definition ConfigParser_construct :: "pegtl \<Rightarrow> string \<Rightarrow> cpp_error + node list" where
  "ConfigParser_construct lib filename =
     sum_bind (pg_read lib filename) (\<lambda>s.
       sum_bind (parse_config lib filename s) (\<lambda>root.
         case root of
           None \<Rightarrow> Inl unexpected_error
         | Some n \<Rightarrow> Inr (map (node_view lib s) (tn_children n))))"

section \<open>The trees of configuration files\<close>

text \<open>The texts of values.\<close>

definition number_text :: "string \<Rightarrow> bool" where
  "number_text s \<longleftrightarrow> s \<noteq> [] \<and> list_all is_digit s"

definition signed_text :: "string \<Rightarrow> bool" where
  "signed_text s \<longleftrightarrow> (\<exists>sg u. s = sg @ u \<and> sg \<in> {[], ''+'', ''-''} \<and> number_text u)"

definition mavaddr_text :: "string \<Rightarrow> bool" where
  "mavaddr_text s \<longleftrightarrow> (\<exists>u v. s = u @ ''.'' @ v \<and> number_text u \<and> number_text v)"

definition mavmask_text :: "string \<Rightarrow> bool" where
  "mavmask_text s \<longleftrightarrow>
     (\<exists>a m. s = a @ m \<and> mavaddr_text a \<and>
        (m = [] \<or> (\<exists>b. m = CHR '':'' # b \<and> mavaddr_text b) \<or>
         (\<exists>b. (m = CHR ''/'' # b \<or> m = CHR 0x5C # b) \<and> number_text b)))"

definition ip_text :: "string \<Rightarrow> bool" where
  "ip_text s \<longleftrightarrow>
     (\<exists>a b c d. s = a @ ''.'' @ b @ ''.'' @ c @ ''.'' @ d \<and>
        number_text a \<and> number_text b \<and> number_text c \<and> number_text d)"

definition name_text :: "string \<Rightarrow> bool" where
  "name_text s \<longleftrightarrow> s \<noteq> [] \<and> \<not> is_digit (hd s) \<and> list_all (\<lambda>c. is_alpha c \<or> is_digit c \<or> c = CHR ''_'') s"

definition type_text :: "string \<Rightarrow> bool" where
  "type_text s \<longleftrightarrow> s \<noteq> [] \<and> list_all (\<lambda>c. is_upper c \<or> is_digit c \<or> c = CHR ''_'') s"

definition device_text :: "string \<Rightarrow> bool" where
  "device_text s \<longleftrightarrow> s \<noteq> [] \<and> list_all (\<lambda>c. is_alpha c \<or> is_digit c \<or> c \<in> {CHR ''.'', CHR ''_'', CHR ''/''}) s"

text \<open>Nodes with a value, and nodes without.\<close>

definition value_node :: "string \<Rightarrow> (string \<Rightarrow> bool) \<Rightarrow> node \<Rightarrow> bool" where
  "value_node x P n \<longleftrightarrow> node_name n = x \<and> node_children n = [] \<and> (\<exists>s. node_text n = Some s \<and> P s)"

definition action_node :: "node \<Rightarrow> bool" where
  "action_node n \<longleftrightarrow> node_text n = None \<and> node_name n \<in> {''config::accept'', ''config::reject''}"

definition opt_node :: "(node \<Rightarrow> bool) \<Rightarrow> node list \<Rightarrow> bool" where
  "opt_node P ns \<longleftrightarrow> ns = [] \<or> (\<exists>n. ns = [n] \<and> P n)"

definition condition_parts :: "node list \<Rightarrow> bool" where
  "condition_parts ns \<longleftrightarrow> ns \<noteq> [] \<and>
     (\<exists>ps ss ds. ns = ps @ ss @ ds \<and>
        opt_node (value_node ''config::packet_type'' type_text) ps \<and>
        opt_node (value_node ''config::source'' mavmask_text) ss \<and>
        opt_node (value_node ''config::dest'' mavmask_text) ds)"

definition condition_node :: "node \<Rightarrow> bool" where
  "condition_node n \<longleftrightarrow>
     node_name n = ''config::condition'' \<and> node_text n = None \<and> condition_parts (node_children n)"

definition rule_parts :: "node list \<Rightarrow> bool" where
  "rule_parts ns \<longleftrightarrow>
     (\<exists>ps cs. ns = ps @ cs \<and>
        opt_node (value_node ''config::priority'' signed_text) ps \<and> opt_node condition_node cs)"

definition rule_node :: "node \<Rightarrow> bool" where
  "rule_node n \<longleftrightarrow>
     (action_node n \<or>
      node_name n \<in> {''config::call'', ''config::goto_''} \<and> (\<exists>s. node_text n = Some s \<and> name_text s)) \<and>
     rule_parts (node_children n)"

definition chain_node :: "node \<Rightarrow> bool" where
  "chain_node n \<longleftrightarrow>
     node_name n = ''config::chain'' \<and> (\<exists>s. node_text n = Some s \<and> name_text s) \<and>
     list_all rule_node (node_children n)"

definition default_action_node :: "node \<Rightarrow> bool" where
  "default_action_node n \<longleftrightarrow>
     node_name n = ''config::default_action'' \<and> node_text n = None \<and>
     (\<exists>a. node_children n = [a] \<and> action_node a \<and> node_children a = [])"

definition udp_node :: "node \<Rightarrow> bool" where
  "udp_node n \<longleftrightarrow>
     node_name n = ''config::udp'' \<and> node_text n = None \<and>
     list_all (\<lambda>c. value_node ''config::port'' number_text c \<or> value_node ''config::address'' ip_text c \<or>
       value_node ''config::max_bitrate'' number_text c) (node_children n)"

definition serial_node :: "node \<Rightarrow> bool" where
  "serial_node n \<longleftrightarrow>
     node_name n = ''config::serial'' \<and> node_text n = None \<and>
     list_all (\<lambda>c. value_node ''config::device'' device_text c \<or> value_node ''config::baudrate'' number_text c \<or>
       value_node ''config::flow_control'' (\<lambda>s. s \<in> {''yes'', ''no''}) c \<or>
       value_node ''config::preload'' mavaddr_text c) (node_children n)"

definition config_tree :: "node list \<Rightarrow> bool" where
  "config_tree root \<longleftrightarrow> list_all (\<lambda>n. default_action_node n \<or> udp_node n \<or> serial_node n \<or> chain_node n) root"

section \<open>The shapes of the rules\<close>

lemma shape_leafs [simp]:
  "shape (One cs) s ns \<longleftrightarrow> (\<exists>c. s = [c] \<and> c \<in> set cs) \<and> ns = []"
  "shape Digit s ns \<longleftrightarrow> (\<exists>c. s = [c] \<and> is_digit c) \<and> ns = []"
  "shape Upper s ns \<longleftrightarrow> (\<exists>c. s = [c] \<and> is_upper c) \<and> ns = []"
  "shape Alnum s ns \<longleftrightarrow> (\<exists>c. s = [c] \<and> (is_alpha c \<or> is_digit c)) \<and> ns = []"
  "shape Identifier_first s ns \<longleftrightarrow> (\<exists>c. s = [c] \<and> (is_alpha c \<or> c = CHR ''_'')) \<and> ns = []"
  "shape Identifier_other s ns \<longleftrightarrow> (\<exists>c. s = [c] \<and> (is_alpha c \<or> is_digit c \<or> c = CHR ''_'')) \<and> ns = []"
  "shape (Literal u) s ns \<longleftrightarrow> s = u \<and> ns = []"
  "shape Success s ns \<longleftrightarrow> s = [] \<and> ns = []"
  "shape Failure s ns \<longleftrightarrow> False"
proof -
  have one: "one_char P s = Some (length s) \<longleftrightarrow> (\<exists>c. s = [c] \<and> P c)" for P
    by (cases s) (auto simp: one_char_def)
  show "shape (One cs) s ns \<longleftrightarrow> (\<exists>c. s = [c] \<and> c \<in> set cs) \<and> ns = []"
    "shape Digit s ns \<longleftrightarrow> (\<exists>c. s = [c] \<and> is_digit c) \<and> ns = []"
    "shape Upper s ns \<longleftrightarrow> (\<exists>c. s = [c] \<and> is_upper c) \<and> ns = []"
    "shape Alnum s ns \<longleftrightarrow> (\<exists>c. s = [c] \<and> (is_alpha c \<or> is_digit c)) \<and> ns = []"
    "shape Identifier_first s ns \<longleftrightarrow> (\<exists>c. s = [c] \<and> (is_alpha c \<or> c = CHR ''_'')) \<and> ns = []"
    "shape Identifier_other s ns \<longleftrightarrow> (\<exists>c. s = [c] \<and> (is_alpha c \<or> is_digit c \<or> c = CHR ''_'')) \<and> ns = []"
    by (simp_all add: one)
  show "shape (Literal u) s ns \<longleftrightarrow> s = u \<and> ns = []"
    by (auto split: if_splits)
qed auto

declare shape.simps(5,9,13-18,21,22) [simp del]

lemma shape_star_chars:
  assumes "\<And>u ms. shape (Seq rs) u ms \<Longrightarrow> list_all P u" "shape (Star rs) s ns"
  shows "list_all P s"
  using assms by (fastforce simp: list_all_iff shape.simps(5) simp del: shape.simps(1,2))

lemma shape_star_nodes:
  assumes "\<And>u ms. shape (Seq rs) u ms \<Longrightarrow> list_all P ms" "shape (Star rs) s ns"
  shows "list_all P ns"
  using assms by (fastforce simp: list_all_iff shape.simps(5) simp del: shape.simps(1,2))

text \<open>Values.\<close>

lemma mavaddr_textI: "number_text u \<Longrightarrow> number_text v \<Longrightarrow> mavaddr_text (u @ CHR ''.'' # v)"
  unfolding mavaddr_text_def by (intro exI [of _ u] exI [of _ v]) simp

lemma signed_textI:
  "number_text u \<Longrightarrow> signed_text u" "number_text u \<Longrightarrow> signed_text (CHR ''+'' # u)"
  "number_text u \<Longrightarrow> signed_text (CHR ''-'' # u)"
  unfolding signed_text_def by (rule exI [of _ "[]"], simp, rule exI [of _ "''+''"], simp, rule exI [of _ "''-''"], simp)

lemma ip_textI:
  "number_text a \<Longrightarrow> number_text b \<Longrightarrow> number_text c \<Longrightarrow> number_text d \<Longrightarrow>
   ip_text (a @ CHR ''.'' # b @ CHR ''.'' # c @ CHR ''.'' # d)"
  unfolding ip_text_def by (intro exI [of _ a] exI [of _ b] exI [of _ c] exI [of _ d]) simp

lemma shape_number: "shape (core (rule_body g_integer)) s ns \<Longrightarrow> number_text s"
proof -
  assume "shape (core (rule_body g_integer)) s ns"
  then obtain c u ms where s: "s = c # u" "is_digit c" "shape (Star [Digit]) u ms"
    by (auto simp: g_integer_def)
  have "list_all is_digit u"
    by (rule shape_star_chars [OF _ s(3)]) auto
  then show ?thesis using s by (simp add: number_text_def)
qed

lemma shape_namedD: "shape (core (Named x k r)) s ns \<Longrightarrow> \<exists>ms. shape (core r) s ms \<and> kept x k s ms ns"
  by simp

lemma shape_named: "shape (core (Named x Store_no r)) s ns \<longleftrightarrow> shape (core r) s ns"
  by (simp add: kept_def)

lemma shape_integer: "shape (core g_integer) s ns \<Longrightarrow> number_text s"
  using shape_number by (simp add: g_integer_def kept_def)

lemma shape_mavaddr: "shape (core (rule_body g_mavaddr)) s ns \<Longrightarrow> mavaddr_text s"
  by (auto simp: g_mavaddr_def dest!: shape_integer intro!: mavaddr_textI)

lemma shape_mavaddr_rule: "shape (core g_mavaddr) s ns \<Longrightarrow> mavaddr_text s"
  using shape_mavaddr by (simp add: g_mavaddr_def kept_def)

lemma shape_mavmask: "shape (core (rule_body g_mavmask)) s ns \<Longrightarrow> mavmask_text s"
proof -
  assume "shape (core (rule_body g_mavmask)) s ns"
  then obtain a m na nm where s: "s = a @ m" "mavaddr_text a"
      "m = [] \<or> shape (core g_full_mask) m nm \<or> shape (core g_forward_mask) m nm \<or> shape (core g_backward_mask) m nm"
    by (auto simp: g_mavmask_def dest!: shape_mavaddr_rule)
  have "\<exists>b. m = CHR '':'' # b \<and> mavaddr_text b" if "shape (core g_full_mask) m nm"
    using that by (auto simp: g_full_mask_def kept_def dest!: shape_mavaddr_rule)
  moreover have "\<exists>b. m = CHR ''/'' # b \<and> number_text b" if "shape (core g_forward_mask) m nm"
    using that by (auto simp: g_forward_mask_def kept_def dest!: shape_integer)
  moreover have "\<exists>b. m = CHR 0x5C # b \<and> number_text b" if "shape (core g_backward_mask) m nm"
    using that by (auto simp: g_backward_mask_def kept_def dest!: shape_integer)
  ultimately show ?thesis using s unfolding mavmask_text_def by blast
qed

lemma shape_signed: "shape (core (rule_body g_signed_integer)) s ns \<Longrightarrow> signed_text s"
  by (auto simp: g_signed_integer_def dest!: shape_integer intro: signed_textI)

lemma shape_yesno: "shape (core (rule_body g_yesno)) s ns \<Longrightarrow> s \<in> {''yes'', ''no''}"
  by (auto simp: g_yesno_def)

lemma alpha_not_digit: "is_alpha c \<Longrightarrow> \<not> is_digit c"
  by (auto simp: is_alpha_def is_upper_def is_digit_def)

lemma shape_name: "shape (core (rule_body g_chain_name)) s ns \<Longrightarrow> name_text s"
proof -
  assume "shape (core (rule_body g_chain_name)) s ns"
  then obtain c u ms where s: "s = c # u" "is_alpha c \<or> c = CHR ''_''" "shape (Star [Identifier_other]) u ms"
    by (auto simp: g_chain_name_def)
  have "list_all (\<lambda>c. is_alpha c \<or> is_digit c \<or> c = CHR ''_'') u"
    by (rule shape_star_chars [OF _ s(3)]) auto
  moreover have "\<not> is_digit c" using s(2) alpha_not_digit by (auto simp: is_digit_def)
  ultimately show ?thesis using s(1,2) by (auto simp: name_text_def)
qed

lemma shape_plus_chars:
  assumes "shape (Seq [r, Star [r]]) s ns" "\<And>u ms. shape r u ms \<Longrightarrow> u \<noteq> [] \<and> list_all P u"
  shows "s \<noteq> [] \<and> list_all P s"
proof -
  obtain u v ms where s: "s = u @ v" "u \<noteq> [] \<and> list_all P u" "shape (Star [r]) v ms"
    using assms by (auto)
  have "list_all P v" by (rule shape_star_chars [OF _ s(3)]) (use assms(2) in auto)
  then show ?thesis using s by simp
qed

lemma shape_type: "shape (core (rule_body g_packet_type)) s ns \<Longrightarrow> type_text s"
  unfolding type_text_def g_packet_type_def rule_body.simps core.simps list.map append.simps
  by (erule shape_plus_chars) auto

lemma shape_device_body: "shape (core (rule_body g_device)) s ns \<Longrightarrow> device_text s"
  unfolding device_text_def g_device_def rule_body.simps core.simps list.map append.simps
  by (erule shape_plus_chars) auto

lemma shape_ip: "shape (core (rule_body g_address)) s ns \<Longrightarrow> ip_text s"
proof -
  let ?dot = "Seq [One [CHR ''.''], core g_integer]"
  assume "shape (core (rule_body g_address)) s ns"
  moreover have "core (rule_body g_address) = Seq [core g_integer, Seq [?dot, ?dot, ?dot]]"
    by (simp add: g_address_def eval_nat_numeral)
  ultimately show ?thesis by (auto dest!: shape_integer intro!: ip_textI)
qed

text \<open>Padding and statements.\<close>

lemma ignored_free: "stored_free (core g_ignored)"
  by (simp add: g_ignored_def g_comment_def)

lemma shape_pad: "shape (core (Pad r g_ignored)) s ns \<Longrightarrow> \<exists>u. shape (core r) u ns"
proof -
  assume "shape (core (Pad r g_ignored)) s ns"
  then obtain n1 n2 n3 u1 u2 u3 where "ns = n1 @ n2 @ n3" "shape (Star [core g_ignored]) u1 n1"
      "shape (core r) u2 n2" "shape (Star [core g_ignored]) u3 n3" by auto
  moreover from this have "n1 = []" "n3 = []"
    using shape_free [of "Star [core g_ignored]"] ignored_free by auto
  ultimately show ?thesis by auto
qed

lemma shape_p: "shape (core (g_p r)) s ns \<Longrightarrow> \<exists>u. shape (core r) u ns"
  unfolding g_p_def by (rule shape_pad)

lemma shape_p_must: "shape (core (g_p (Must r))) s ns \<Longrightarrow> \<exists>u. shape (core r) u ns"
  using shape_p by fastforce

lemma shape_p_free: "shape (core (g_p (Must r))) s ns \<Longrightarrow> stored_free (core r) \<Longrightarrow> ns = []"
  using shape_p_must shape_free by blast

lemma braces_free: "stored_free (core g_opening_brace)" "stored_free (core g_closing_brace)" "stored_free (core g_eos)"
  by (simp_all add: g_opening_brace_def g_closing_brace_def g_eos_def)

lemma shape_a1:
  "shape (core (a1_statement k v)) s ns \<Longrightarrow> stored_free (core k) \<Longrightarrow> \<exists>u. shape (core v) u ns"
  using shape_free [of "core k"] shape_p_must [of v] shape_p_free [OF _ braces_free(3)]
  unfolding a1_statement_def by fastforce

lemma shape_statements:
  assumes "shape (core (Star [g_p (Sor rs)])) s ns" "\<And>r u ms. r \<in> set rs \<Longrightarrow> shape (core r) u ms \<Longrightarrow> list_all P ms"
  shows "list_all P ns"
proof -
  have sor: "shape (Sor (map core rs)) u ms \<Longrightarrow> \<exists>r \<in> set rs. shape (core r) u ms" for u ms rs
    by (induction rs) auto
  have "list_all P ms" if "shape (Seq [core (g_p (Sor rs))]) u ms" for u ms
    using that shape_p [of "Sor rs"] sor assms(2) by fastforce
  then show ?thesis using assms(1) shape_star_nodes by fastforce
qed

lemma shape_t_block:
  assumes "shape (core (t_block k rs)) s ns" "stored_free (core k)"
    "\<And>r u ms. r \<in> set rs \<Longrightarrow> shape (core r) u ms \<Longrightarrow> list_all P ms"
  shows "list_all P ns"
proof -
  obtain n1 n2 n3 n4 u1 u2 u3 u4 where ns: "ns = n1 @ n2 @ n3 @ n4" and
      s: "shape (core k) u1 n1" "shape (core (g_p (Must g_opening_brace))) u2 n2"
      "shape (core (Star [g_p (Sor rs)])) u3 n3" "shape (core (g_p (Must g_closing_brace))) u4 n4"
    using assms(1) unfolding t_block_def by fastforce
  have "n1 = []" "n2 = []" "n4 = []"
    using shape_free [OF s(1) assms(2)] shape_p_free s(2,4) braces_free by auto
  then show ?thesis using shape_statements [OF s(3), of P] assms(3) ns by simp
qed

lemma shape_t_named_block:
  assumes "shape (core (t_named_block k name rs)) s ns" "stored_free (core k)"
    "\<And>r u ms. r \<in> set rs \<Longrightarrow> shape (core r) u ms \<Longrightarrow> list_all P ms"
  shows "\<exists>u n1 n2. ns = n1 @ n2 \<and> shape (core name) u n1 \<and> list_all P n2"
proof -
  obtain n1 n0 n2 n3 n4 u1 u0 u2 u3 u4 where ns: "ns = n1 @ n0 @ n2 @ n3 @ n4" and
      s: "shape (core k) u1 n1" "shape (core (g_p (Must name))) u0 n0"
      "shape (core (g_p (Must g_opening_brace))) u2 n2"
      "shape (core (Star [g_p (Sor rs)])) u3 n3" "shape (core (g_p (Must g_closing_brace))) u4 n4"
    using assms(1) unfolding t_named_block_def by fastforce
  have "n1 = []" "n2 = []" "n4 = []"
    using shape_free [OF s(1) assms(2)] shape_p_free s(3,5) braces_free by auto
  then show ?thesis using shape_statements [OF s(4), of P] assms(3) ns shape_p_must [OF s(2)] by auto
qed

lemma shape_value:
  assumes "shape (core g) s ns" "g = Named x Store_yes r" "stored_free (core r)" "\<And>u ms. shape (core r) u ms \<Longrightarrow> P u"
  shows "\<exists>n. ns = [n] \<and> value_node x P n"
  using assms shape_free by (fastforce simp: kept_def value_node_def)

lemma bodies_free:
  "stored_free (core (rule_body g_integer))" "stored_free (core (rule_body g_mavaddr))"
  "stored_free (core (rule_body g_mavmask))" "stored_free (core (rule_body g_signed_integer))"
  "stored_free (core (rule_body g_yesno))" "stored_free (core (rule_body g_chain_name))"
  "stored_free (core (rule_body g_packet_type))" "stored_free (core (rule_body g_device))"
  "stored_free (core (rule_body g_address))"
  by code_simp+

lemmas number_value = shape_value [OF _ _ bodies_free(1) shape_number]
  and mavmask_value = shape_value [OF _ _ bodies_free(3) shape_mavmask]
  and name_value = shape_value [OF _ _ bodies_free(6) shape_name]

lemma shape_catch: "\<not> shape (core g_s_catch) s ns" "\<not> shape (core g_rule_catch) s ns"
  by (auto simp: g_s_catch_def g_sa0_catch_def g_sa1_catch_def g_unsupported_statement_def g_rule_catch_def
      g_sa0_rule_catch_def g_sa1_rule_catch_def g_invalid_rule_def)

text \<open>The nodes of the single values.\<close>

lemma shape_port: "shape (core g_port) s ns \<Longrightarrow> \<exists>n. ns = [n] \<and> value_node ''config::port'' number_text n"
  by (rule number_value) (simp_all only: g_port_def)

lemma shape_max_bitrate: "shape (core g_max_bitrate) s ns \<Longrightarrow> \<exists>n. ns = [n] \<and> value_node ''config::max_bitrate'' number_text n"
  by (rule number_value) (simp_all only: g_max_bitrate_def)

lemma shape_baudrate: "shape (core g_baudrate) s ns \<Longrightarrow> \<exists>n. ns = [n] \<and> value_node ''config::baudrate'' number_text n"
  by (rule number_value) (simp_all only: g_baudrate_def)

lemma shape_address: "shape (core g_address) s ns \<Longrightarrow> \<exists>n. ns = [n] \<and> value_node ''config::address'' ip_text n"
  by (rule shape_value [OF _ _ bodies_free(9) shape_ip]) (simp_all add: g_address_def)

lemma shape_device: "shape (core g_device) s ns \<Longrightarrow> \<exists>n. ns = [n] \<and> value_node ''config::device'' device_text n"
  by (rule shape_value [OF _ _ bodies_free(8) shape_device_body]) (simp_all add: g_device_def)

lemma shape_flow_control: "shape (core g_flow_control) s ns \<Longrightarrow> \<exists>n. ns = [n] \<and> value_node ''config::flow_control'' (\<lambda>s. s \<in> {''yes'', ''no''}) n"
  by (rule shape_value [OF _ _ bodies_free(5) shape_yesno]) (simp_all only: g_flow_control_def)

lemma shape_preload: "shape (core g_preload) s ns \<Longrightarrow> \<exists>n. ns = [n] \<and> value_node ''config::preload'' mavaddr_text n"
  by (rule shape_value [OF _ _ bodies_free(2) shape_mavaddr]) (simp_all only: g_preload_def)

lemma shape_packet_type: "shape (core g_packet_type) s ns \<Longrightarrow> \<exists>n. ns = [n] \<and> value_node ''config::packet_type'' type_text n"
  by (rule shape_value [OF _ _ bodies_free(7) shape_type]) (simp_all add: g_packet_type_def)

lemma shape_source: "shape (core g_source) s ns \<Longrightarrow> \<exists>n. ns = [n] \<and> value_node ''config::source'' mavmask_text n"
  by (rule mavmask_value) (simp_all only: g_source_def)

lemma shape_dest: "shape (core g_dest) s ns \<Longrightarrow> \<exists>n. ns = [n] \<and> value_node ''config::dest'' mavmask_text n"
  by (rule mavmask_value) (simp_all only: g_dest_def)

lemma shape_priority: "shape (core g_priority) s ns \<Longrightarrow> \<exists>n. ns = [n] \<and> value_node ''config::priority'' signed_text n"
  by (rule shape_value [OF _ _ bodies_free(4) shape_signed]) (simp_all only: g_priority_def)

lemma shape_call: "shape (core g_call) s ns \<Longrightarrow> \<exists>n. ns = [n] \<and> value_node ''config::call'' name_text n"
  by (rule name_value) (simp_all only: g_call_def)

lemma shape_goto: "shape (core g_goto) s ns \<Longrightarrow> \<exists>n. ns = [n] \<and> value_node ''config::goto_'' name_text n"
  by (rule name_value) (simp_all only: g_goto_def)

lemma shape_chain: "shape (core g_chain) s ns \<Longrightarrow> \<exists>n. ns = [n] \<and> value_node ''config::chain'' name_text n"
  by (rule name_value) (simp_all only: g_chain_def)

text \<open>Conditions.\<close>

lemma shape_opt: "shape (core (Opt [r])) s ns \<Longrightarrow> (\<exists>u. shape (core r) u ns) \<or> ns = []"
  by auto

lemma shape_source_command:
  "shape (core g_source_command) s ns \<Longrightarrow> \<exists>n. ns = [n] \<and> value_node ''config::source'' mavmask_text n"
  using shape_p_must [of g_source] shape_source by (fastforce simp: g_source_command_def kept_def)

lemma shape_dest_command:
  "shape (core (rule_body g_dest_command)) s ns \<Longrightarrow> \<exists>n. ns = [n] \<and> value_node ''config::dest'' mavmask_text n"
  using shape_p_must [of g_dest] shape_dest by (fastforce simp: g_dest_command_def)

lemma dest_command_body: "shape (core g_dest_command) s ns \<longleftrightarrow> shape (core (rule_body g_dest_command)) s ns"
  by (simp add: g_dest_command_def kept_def)

lemma shape_opt_command:
  assumes "shape (core (Opt [g_p c])) s ns" "\<And>u ms. shape (core c) u ms \<Longrightarrow> \<exists>n. ms = [n] \<and> P n"
  shows "opt_node P ns"
  using shape_opt [OF assms(1)] shape_p assms(2) unfolding opt_node_def by blast

lemma opt_source:
  "shape (core (Opt [g_p g_source_command])) s ns \<Longrightarrow> opt_node (value_node ''config::source'' mavmask_text) ns"
  by (erule shape_opt_command) (rule shape_source_command)

lemma opt_dest:
  "shape (core (Opt [g_p g_dest_command])) s ns \<Longrightarrow> opt_node (value_node ''config::dest'' mavmask_text) ns"
  by (erule shape_opt_command) (simp only: dest_command_body shape_dest_command)

lemma condition_partsI:
  "opt_node (value_node ''config::packet_type'' type_text) ps \<Longrightarrow>
   opt_node (value_node ''config::source'' mavmask_text) ss \<Longrightarrow>
   opt_node (value_node ''config::dest'' mavmask_text) ds \<Longrightarrow> ps @ ss @ ds \<noteq> [] \<Longrightarrow> condition_parts (ps @ ss @ ds)"
  unfolding condition_parts_def by blast

lemma opt_node_simps [simp]: "opt_node P []" "opt_node P [n] = P n"
  by (auto simp: opt_node_def)

lemma shape_condition_value:
  assumes "shape (core g_condition_value) s ns"
  shows "condition_parts ns"
proof -
  obtain u where "shape (core (Sor [g_start_with_packet_type, g_start_with_source, g_start_with_dest])) u ns"
    using assms shape_p unfolding g_condition_value_def shape_named by blast
  then consider
    (t) "shape (core (Seq [g_packet_type, Opt [g_p g_source_command], Opt [g_p g_dest_command]])) u ns"
    | (s) "shape (core (Seq [g_source_command, Opt [g_p g_dest_command]])) u ns"
    | (d) "shape (core (rule_body g_dest_command)) u ns"
    unfolding g_start_with_packet_type_def g_start_with_source_def g_start_with_dest_def
    by (auto simp: kept_def simp del: shape.simps(2) rule_body.simps)
  then show ?thesis
  proof cases
    case t
    then obtain u1 u2 u3 n1 n2 n3 where ns: "ns = n1 @ n2 @ n3" "shape (core g_packet_type) u1 n1"
        "shape (core (Opt [g_p g_source_command])) u2 n2" "shape (core (Opt [g_p g_dest_command])) u3 n3"
      by (auto simp del: core.simps(7))
    then show ?thesis
      using shape_packet_type [OF ns(2)] opt_source [OF ns(3)] opt_dest [OF ns(4)]
        condition_partsI [of n1 n2 n3] by auto
  next
    case s
    then obtain u1 u2 n1 n2 where ns: "ns = n1 @ n2" "shape (core g_source_command) u1 n1"
        "shape (core (Opt [g_p g_dest_command])) u2 n2"
      by (auto simp del: core.simps(7))
    then show ?thesis
      using shape_source_command [OF ns(2)] opt_dest [OF ns(3)] condition_partsI [of "[]" n1 n2] by auto
  next
    case d
    then show ?thesis using shape_dest_command [OF d] condition_partsI [of "[]" "[]" ns] by auto
  qed
qed

lemma shape_condition: "shape (core g_condition) s ns \<Longrightarrow> \<exists>n. ns = [n] \<and> condition_node n"
  using shape_condition_value by (fastforce simp: g_condition_def kept_def condition_node_def)

text \<open>Rules and chains.\<close>

lemma shape_action:
  assumes "shape (core g_action) s ns"
  shows "\<exists>n. ns = [n] \<and> node_children n = [] \<and>
    (action_node n \<or> node_name n \<in> {''config::call'', ''config::goto_''} \<and> (\<exists>s. node_text n = Some s \<and> name_text s))"
proof -
  have "\<exists>n. ns = [n] \<and> node_children n = [] \<and> node_name n = ''config::call'' \<and> (\<exists>s. node_text n = Some s \<and> name_text s)"
    if "shape (core g_call_container) s ns"
    using that shape_p_must [of g_call] shape_call
    by (fastforce simp: g_call_container_def kept_def value_node_def)
  moreover have "\<exists>n. ns = [n] \<and> node_children n = [] \<and> node_name n = ''config::goto_'' \<and> (\<exists>s. node_text n = Some s \<and> name_text s)"
    if "shape (core g_goto_container) s ns"
    using that shape_p_must [of g_goto] shape_goto
    by (fastforce simp: g_goto_container_def kept_def value_node_def)
  moreover have "shape (core g_accept) s ns \<or> shape (core g_reject) s ns \<or>
      shape (core g_call_container) s ns \<or> shape (core g_goto_container) s ns"
    using assms by (auto simp: g_action_def kept_def)
  ultimately show ?thesis by (auto simp: g_accept_def g_reject_def kept_def action_node_def)
qed

lemma shape_priority_command:
  assumes "shape (core g_priority_command) s ns"
  shows "\<exists>n. ns = [n] \<and> value_node ''config::priority'' signed_text n"
proof -
  obtain u1 u2 n1 n2 where "ns = n1 @ n2" "shape (core (g_p (Must g_priority_keyword))) u1 n1"
      "shape (core (g_p (Must g_priority))) u2 n2"
    using assms by (auto simp: g_priority_command_def kept_def)
  moreover have "stored_free (core g_priority_keyword)" by (simp add: g_priority_keyword_def)
  ultimately show ?thesis using shape_p_free shape_p_must [of g_priority] shape_priority by fastforce
qed

lemma shape_rule:
  assumes "shape (core g_rule) s ns"
  shows "\<exists>n. ns = [n] \<and> rule_node n"
proof -
  obtain ms where ms: "shape (core (If_must (Sor [g_action, g_rule_catch])
      [Opt [g_p g_priority_command], Opt [g_p g_condition], g_eos])) s ms" "kept ''config::rule'' Store_first_child s ms ns"
    using assms unfolding g_rule_def by (blast dest: shape_namedD)
  then obtain u1 u2 u3 u4 n1 n2 n3 n4 where n: "ms = n1 @ n2 @ n3 @ n4" "shape (core g_action) u1 n1"
      "shape (core (Opt [g_p g_priority_command])) u2 n2" "shape (core (Opt [g_p g_condition])) u3 n3"
      "shape (core g_eos) u4 n4"
    using shape_catch(2) by (auto simp del: core.simps(7))
  have "n4 = []" using shape_free [OF n(5)] braces_free by simp
  moreover have "opt_node (value_node ''config::priority'' signed_text) n2"
    by (rule shape_opt_command [OF n(3) shape_priority_command])
  moreover have "opt_node condition_node n3" by (rule shape_opt_command [OF n(4) shape_condition])
  ultimately have "n4 = []" "rule_parts (n2 @ n3)" unfolding rule_parts_def by blast+
  then show ?thesis using shape_action [OF n(2)] n(1) ms(2)
    by (auto simp: kept_def rule_node_def action_node_def)
qed

lemma shape_chain_container:
  assumes "shape (core g_chain_container) s ns"
  shows "\<exists>n. ns = [n] \<and> chain_node n"
proof -
  obtain ms where ms: "shape (core (t_named_block (Literal ''chain'') g_chain [g_rule])) s ms"
      "kept ''config::chain_container'' Store_first_child s ms ns"
    using assms unfolding g_chain_container_def by (blast dest: shape_namedD)
  have each: "list_all rule_node ns" if "r \<in> set [g_rule]" "shape (core r) u ns" for r u ns
    using that shape_rule by fastforce
  have "\<exists>u n1 n2. ms = n1 @ n2 \<and> shape (core g_chain) u n1 \<and> list_all rule_node n2"
    by (rule shape_t_named_block [OF ms(1) _ each]) auto
  then obtain u n1 n2 where "ms = n1 @ n2" "shape (core g_chain) u n1"
      "list_all rule_node n2" by blast
  then show ?thesis using shape_chain ms(2) by (fastforce simp: kept_def chain_node_def value_node_def)
qed

text \<open>The other blocks.\<close>

lemma shape_default_action:
  assumes "shape (core g_default_action) s ns"
  shows "\<exists>n. ns = [n] \<and> default_action_node n"
proof -
  obtain ms where ms: "shape (core (a1_statement (Literal ''default_action'') g_default_action_option)) s ms"
      "kept ''config::default_action'' Store_without_content s ms ns"
    using assms unfolding g_default_action_def by (blast dest: shape_namedD)
  from shape_a1 [OF ms(1)] obtain u where "shape (core g_default_action_option) u ms" by auto
  then have "\<exists>a. ms = [a] \<and> action_node a \<and> node_children a = []"
    by (auto simp: g_default_action_option_def g_accept_def g_reject_def kept_def action_node_def)
  then show ?thesis using ms(2) by (auto simp: kept_def default_action_node_def)
qed

lemma shape_setting:
  assumes "shape (core (Named x Store_no (a1_statement (Literal k) v))) s ns"
    "\<And>u ms. shape (core v) u ms \<Longrightarrow> \<exists>n. ms = [n] \<and> P n" "\<And>n. P n \<Longrightarrow> Q n"
  shows "list_all Q ns"
proof -
  obtain u where "shape (core v) u ns" using assms(1) shape_a1 [of "Literal k" v s ns] unfolding shape_named by auto
  then show ?thesis using assms(2,3) by fastforce
qed

lemma shape_udp:
  assumes "shape (core g_udp) s ns"
  shows "\<exists>n. ns = [n] \<and> udp_node n"
proof -
  let ?P = "\<lambda>c. value_node ''config::port'' number_text c \<or> value_node ''config::address'' ip_text c \<or>
       value_node ''config::max_bitrate'' number_text c"
  obtain ms where ms: "shape (core (t_block (Literal ''udp'') [g_s_port, g_s_address, g_s_max_bitrate, g_s_catch])) s ms"
      "kept ''config::udp'' Store_without_content s ms ns"
    using assms unfolding g_udp_def by (blast dest: shape_namedD)
  have "list_all ?P ns" if "shape (core g_s_port) u ns" for u ns
    using that unfolding g_s_port_def by (rule shape_setting [OF _ shape_port]) auto
  moreover have "list_all ?P ns" if "shape (core g_s_address) u ns" for u ns
    using that unfolding g_s_address_def by (rule shape_setting [OF _ shape_address]) auto
  moreover have "list_all ?P ns" if "shape (core g_s_max_bitrate) u ns" for u ns
    using that unfolding g_s_max_bitrate_def by (rule shape_setting [OF _ shape_max_bitrate]) auto
  ultimately have "list_all ?P ms"
    using shape_catch(1) by (intro shape_t_block [OF ms(1)]) auto
  then show ?thesis using ms(2) by (auto simp: kept_def udp_node_def)
qed

lemma shape_serial:
  assumes "shape (core g_serial) s ns"
  shows "\<exists>n. ns = [n] \<and> serial_node n"
proof -
  let ?P = "\<lambda>c. value_node ''config::device'' device_text c \<or> value_node ''config::baudrate'' number_text c \<or>
       value_node ''config::flow_control'' (\<lambda>s. s \<in> {''yes'', ''no''}) c \<or>
       value_node ''config::preload'' mavaddr_text c"
  obtain ms where ms: "shape (core (t_block (Literal ''serial'')
        [g_s_device, g_s_baudrate, g_s_flow_control, g_s_preload, g_s_catch])) s ms"
      "kept ''config::serial'' Store_without_content s ms ns"
    using assms unfolding g_serial_def by (blast dest: shape_namedD)
  have "list_all ?P ns" if "shape (core g_s_device) u ns" for u ns
    using that unfolding g_s_device_def by (rule shape_setting [OF _ shape_device]) auto
  moreover have "list_all ?P ns" if "shape (core g_s_baudrate) u ns" for u ns
    using that unfolding g_s_baudrate_def by (rule shape_setting [OF _ shape_baudrate]) auto
  moreover have "list_all ?P ns" if "shape (core g_s_flow_control) u ns" for u ns
    using that unfolding g_s_flow_control_def by (rule shape_setting [OF _ shape_flow_control]) auto
  moreover have "list_all ?P ns" if "shape (core g_s_preload) u ns" for u ns
    using that unfolding g_s_preload_def by (rule shape_setting [OF _ shape_preload]) auto
  ultimately have "list_all ?P ms"
    using shape_catch(1) by (intro shape_t_block [OF ms(1)]) auto
  then show ?thesis using ms(2) by (auto simp: kept_def serial_node_def)
qed

lemma shape_element:
  assumes "shape (core g_element) s ns"
  shows "config_tree ns"
proof -
  have "shape (core g_comment) s ns \<or> shape (core g_udp) s ns \<or> shape (core g_serial) s ns \<or>
      shape (core g_chain_container) s ns \<or> shape (core g_default_action) s ns"
    using assms shape_catch(1) by (auto simp: g_element_def g_block_def g_statement_def kept_def)
  moreover have "stored_free (core g_comment)" by (simp add: g_comment_def)
  ultimately show ?thesis
    using shape_free [of "core g_comment"] shape_udp shape_serial shape_chain_container shape_default_action
    unfolding config_tree_def by fastforce
qed

lemma shape_elements: "shape (core g_elements) s ns \<Longrightarrow> config_tree ns"
proof -
  assume "shape (core g_elements) s ns"
  then obtain s1 s2 n1 n2 where ns: "ns = n1 @ n2" "shape (core (Pad g_element g_ignored)) s1 n1"
      "shape (Star [core (Pad g_element g_ignored)]) s2 n2"
    by (auto simp: g_elements_def kept_def simp del: core.simps(10))
  have each: "config_tree ms" if "shape (core (Pad g_element g_ignored)) u ms" for u ms
    using shape_pad [OF that] shape_element by blast
  have "config_tree n2"
    unfolding config_tree_def
    by (rule shape_star_nodes [OF _ ns(3)]) (use each in \<open>auto simp: config_tree_def simp del: core.simps\<close>)
  then show ?thesis using each [OF ns(2)] ns(1) by (simp add: config_tree_def)
qed


end
