(* ===== verification/ConfigReading.thy ===== *)
theory ConfigReading
  imports ConfigGrammar ConfigBuild
begin

text \<open>
  What reading a configuration file gives: parsing ends, with a tree the rest of the program can
  rely on or with one of the messages of the grammar.
\<close>

section \<open>The outcome of parsing\<close>

text \<open>The analyses of the grammar.\<close>

lemma grammar_loops: "loops_ok (core g_grammar)"
  by code_simp

lemma elements_moded: "moded (Must (core g_elements))"
  by code_simp

lemma elements_raises: "list_all (\<lambda>x. map_of error_messages x \<noteq> None) (raises (Must (core g_elements)))"
  by code_simp

text \<open>The rule of the whole file fails only when something follows the elements.\<close>

lemma grammar_core: "core g_grammar = Named ''config::grammar'' Store_no (Seq [Must (core g_elements), Eof])"
  by (simp add: g_grammar_def)

lemma outcome_eof: "rule_outcome Eof i t v \<longleftrightarrow> t = [] \<and> v = (if snd i = [] then Matched i else Failed)"
  using leaf_match [of Eof "snd i" 0 "fst i"] leaf_fail [of Eof "snd i" "fst i"] outcome_leaf [of Eof "fst i" "snd i" t v]
  by (cases i) (auto split: if_splits)

lemma grammar_outcome:
  assumes "rule_outcome (core g_grammar) i t v"
  shows "\<exists>t1 v1. rule_outcome (Must (core g_elements)) i t1 v1 \<and> control_run t = control_run t1 \<and>
    (case v1 of
       Matched j \<Rightarrow> v = (if snd j = [] then v1 else Failed)
     | Raised x q \<Rightarrow> v = v1
     | Failed \<Rightarrow> False)"
proof -
  let ?seq = "Seq [Must (core g_elements), Eof]"
  have free: "control_run (Start x Store_no p # h) = control_run h" "control_run (h @ [Succeed x Store_no p]) = control_run h"
      "control_run (h @ [Fail x Store_no p]) = control_run h" for x p h
    by (auto simp: fun_eq_iff control_run_append sum_bind_def split: sum.splits)
  obtain t1 where t1: "rule_outcome ?seq i t1 v" "control_run t = control_run t1"
    using assms unfolding grammar_core by (cases rule: outcome_elims(8)) (auto simp: free)
  from t1(1) obtain t2 v2 where "rule_outcome (Must (core g_elements)) i t2 v2" "t1 = t2"
      "case v2 of Matched j \<Rightarrow> v = (if snd j = [] then v2 else Failed) | Raised x q \<Rightarrow> v = v2 | Failed \<Rightarrow> v = Failed"
    by (cases rule: outcome_elims(2))
      (auto simp: outcome_eof elim!: outcome_elims(1,2) split: verdict.splits if_splits)
  moreover have "v2 \<noteq> Failed" using outcome_fails calculation(1) by fastforce
  ultimately show ?thesis using t1(2)
    by (intro exI [of _ t2] exI [of _ v2]) (auto split: verdict.splits if_splits)
qed

text \<open>The message of an error that the grammar raises.\<close>

definition grammar_error :: "pegtl \<Rightarrow> string \<Rightarrow> string \<Rightarrow> cpp_error \<Rightarrow> bool" where
  "grammar_error lib source s e \<longleftrightarrow>
     (\<exists>(x, m) \<in> set error_messages. \<exists>q. e = Runtime_error (pg_what lib m source s q))"

lemma parse_config_outcome:
  assumes "follows (pg_match lib) g_grammar"
  shows "case parse_config lib source s of
      Inr (Some n) \<Rightarrow> config_tree (map (node_view lib s) (tn_children n))
    | Inr None \<Rightarrow> True
    | Inl e \<Rightarrow> grammar_error lib source s e"
proof -
  obtain t v where m: "pg_match lib g_grammar s = (t, v)" by (cases "pg_match lib g_grammar s")
  then have "rule_outcome (core g_grammar) (0, s) t v" using assms by (auto simp: follows_def dest: spec [of _ s])
  from grammar_outcome [OF this] obtain t1 v1 where o: "rule_outcome (Must (core g_elements)) (0, s) t1 v1"
      "control_run t = control_run t1"
      "case v1 of Matched j \<Rightarrow> v = (if snd j = [] then v1 else Failed) | Raised x q \<Rightarrow> v = v1 | Failed \<Rightarrow> False"
    by blast
  have b: "builds lib s (Must (core g_elements)) 0 t1 v1"
    using outcome_builds [OF o(1) elements_moded, of 0 s lib] by simp
  show ?thesis
  proof (cases v1)
    case (Matched j)
    with b have "builds lib s (Must (core g_elements)) 0 t1 (Matched j)" by (simp only:)
    then obtain q cs where "\<forall>n st. control_run t1 (n # st) = Inr (add_children cs n # st)"
        "shape (Must (core g_elements)) (stretch s 0 q) (map (node_view lib s) cs)"
      unfolding builds_def verdict.case by blast
    then have cs: "control_run t1 state_init = Inr [add_children cs new_node]"
        "shape (core g_elements) (stretch s 0 q) (map (node_view lib s) cs)"
      by (simp_all only: state_init_def shape.simps(6))
    have "tn_children (add_children cs new_node) = cs" by (simp add: new_node_def add_children_node)
    then show ?thesis
      using Matched o cs shape_elements [OF cs(2)] m
      by (auto simp: parse_config_def tree_parse_def state_back_def)
  next
    case (Raised x q)
    with b have "builds lib s (Must (core g_elements)) 0 t1 (Raised x q)" by (simp only:)
    then have "is_ok (control_run t1 state_init)" "x \<in> set (raises (Must (core g_elements)))"
      unfolding builds_def verdict.case state_init_def by blast+
    moreover from this(2) obtain msg where "map_of error_messages x = Some msg"
      using elements_raises by (auto simp: list_all_iff)
    ultimately show ?thesis
      using Raised o m map_of_SomeD
      by (fastforce simp: parse_config_def tree_parse_def is_ok_iff control_raise_def error_message_def grammar_error_def)
  qed (use o in auto)
qed

section \<open>Nothing without meaning\<close>

definition no_ub :: "cpp_error + 'a \<Rightarrow> bool" where
  "no_ub r \<longleftrightarrow> (\<forall>msg. r \<noteq> Inl (Undefined_behaviour msg))"

lemma no_ub_simps [simp]: "no_ub (Inr x)" "no_ub (Inl e) \<longleftrightarrow> (\<forall>msg. e \<noteq> Undefined_behaviour msg)"
  by (simp_all add: no_ub_def)

lemma no_ub_bind: "no_ub m \<Longrightarrow> (\<And>x. m = Inr x \<Longrightarrow> no_ub (f x)) \<Longrightarrow> no_ub (sum_bind m f)"
  by (cases m) simp_all

lemma no_ub_content: "node_text n = Some t \<Longrightarrow> no_ub (f t) \<Longrightarrow> no_ub (sum_bind (content n) f)"
  by (simp add: content_def)

text \<open>Numbers and addresses.\<close>

lemma no_ub_sto [simp]: "no_ub (stoi s)" "no_ub (stol s)" "no_ub (stoll s)"
  by (simp_all add: stoi_def stol_def stoll_def sto_signed_def split: prod.split)

lemma no_ub_MAVAddress [simp]: "no_ub (MAVAddress_of_string s)"
  by (simp add: MAVAddress_of_string_def MAVAddress_construct_def Let_def split: prod.split list.split)

lemma no_ub_IPAddress [simp]: "no_ub (IPAddress_of_string f s)"
proof -
  have "no_ub (IPAddress_of_part s p)" for s p
    by (simp add: IPAddress_of_part_def IPAddress_construct_def Let_def split: list.split)
  then show ?thesis by (simp add: IPAddress_of_string_def split: list.split)
qed

lemma number_is_word: "number_text s \<Longrightarrow> is_word s"
  by (auto simp: number_text_def is_word_def list_all_iff is_sep_def is_digit_def)

lemma mavaddr_is_word: "mavaddr_text s \<Longrightarrow> is_word s"
  by (auto simp: mavaddr_text_def is_word_def is_sep_def dest!: number_is_word)

lemma extract_number: "number_text s \<Longrightarrow> fst (extract_int conv (istringstream s)) \<noteq> None"
  using extract_int_digits [of s "[]" conv] by (simp add: number_text_def istringstream_def)

lemma no_ub_MAVSubnet:
  assumes "char_separator_spec tok" "mavmask_text s"
  shows "no_ub (MAVSubnet_of_string tok s)"
proof (cases "is_ok (MAVAddress_of_string s)")
  case True
  then show ?thesis by (auto simp: MAVSubnet_of_string_def is_ok_iff)
next
  case False
  obtain a m where s: "s = a @ m" "mavaddr_text a"
      "m = [] \<or> (\<exists>b. m = CHR '':'' # b \<and> mavaddr_text b) \<or> (\<exists>b. (m = CHR ''/'' # b \<or> m = CHR 0x5C # b) \<and> number_text b)"
    using assms(2) by (auto simp: mavmask_text_def)
  show ?thesis
  proof (cases m)
    case Nil
    then have "valid_tokens (tok s)" "concat (tok s) = s @ []" "is_word s"
      using assms(1) s(1,2) mavaddr_is_word by (auto simp: char_separator_spec_def)
    then obtain ts where "tok s = s # ts" "concat ts = []" "valid_tokens ts"
      using valid_tokens_word [of "tok s" s "[]"] by auto
    moreover have "ts = []" using calculation(2,3) by (cases ts) (auto simp: is_word_def)
    ultimately show ?thesis using False by (auto simp: MAVSubnet_of_string_def split: sum.split)
  next
    case (Cons c b)
    have "is_sep c" "is_word b" using s(3) Cons number_is_word mavaddr_is_word by (auto simp: is_sep_def)
    then have toks: "tok s = [a, [c], b]"
      using tokens_word_sep_word [OF assms(1) mavaddr_is_word [OF s(2)]] s(1) Cons by simp
    obtain e where e: "MAVAddress_of_string s = Inl e" using False by (cases "MAVAddress_of_string s") auto
    show ?thesis
    proof (cases "MAVAddress_of_string a")
      case (Inl e')
      then show ?thesis using no_ub_MAVAddress [of a, unfolded Inl] by (simp add: MAVSubnet_of_string_def Let_def e toks)
    next
      case (Inr x)
      show ?thesis
      proof (cases "c = CHR '':''")
        case True
        show ?thesis
        proof (cases "MAVAddress_of_string b")
          case (Inl e')
          have "\<forall>msg. e' \<noteq> Undefined_behaviour msg" using no_ub_MAVAddress [of b, unfolded Inl] unfolding no_ub_simps .
          then show ?thesis using Inl Inr True by (cases e') (auto simp: MAVSubnet_of_string_def Let_def e toks)
        qed (simp add: MAVSubnet_of_string_def Let_def e toks Inr True)
      next
        case False
        then have "c = CHR ''/'' \<or> c = CHR 0x5C" "number_text b" using s(3) Cons by auto
        moreover from this(2) obtain y where "fst (extract_int (conv_signed 32) (istringstream b)) = Some y"
          using extract_number by fastforce
        ultimately show ?thesis
          by (elim disjE) (simp_all add: MAVSubnet_of_string_def Let_def e toks Inr)
      qed
    qed
  qed
qed

text \<open>The filter.\<close>

lemma no_ub_condition_step:
  assumes "char_separator_spec tok"
    "value_node ''config::packet_type'' P n \<or> value_node ''config::source'' mavmask_text n \<or>
     value_node ''config::dest'' mavmask_text n"
  shows "no_ub (if node_name n = ''config::packet_type'' then sum_bind (content n) (\<lambda>t. If_type_name ml t c)
        else if node_name n = ''config::source'' then sum_bind (content n) (\<lambda>t. If_from_string tok t c)
        else if node_name n = ''config::dest'' then sum_bind (content n) (\<lambda>t. If_to_string tok t c)
        else Inr c)"
proof -
  have "no_ub (If_type_name ml t c)" for t
    by (simp add: If_type_name_def mavlink_id_def split: option.split sum.split)
  moreover have "no_ub (If_from_string tok t c)" "no_ub (If_to_string tok t c)" if "mavmask_text t" for t
    using no_ub_MAVSubnet [OF assms(1) that] by (auto simp: If_from_string_def If_to_string_def no_ub_def split: sum.split)
  ultimately show ?thesis using assms(2) by (auto simp: value_node_def intro!: no_ub_content)
qed

lemma no_ub_condition_options:
  assumes "char_separator_spec tok"
    "\<forall>n \<in> set ns. value_node ''config::packet_type'' type_text n \<or> value_node ''config::source'' mavmask_text n \<or>
     value_node ''config::dest'' mavmask_text n"
  shows "no_ub (condition_options ml tok ns c)"
  using assms(2)
proof (induction ns arbitrary: c)
  case (Cons n ns)
  show ?case unfolding condition_options.simps
    by (rule no_ub_bind [OF no_ub_condition_step [OF assms(1)]]) (use Cons in auto)
qed simp

lemma opt_node_all: "opt_node P ns \<Longrightarrow> \<forall>n \<in> set ns. P n"
  by (auto simp: opt_node_def)

lemma no_ub_parse_condition:
  assumes "char_separator_spec tok" "condition_node n"
  shows "no_ub (parse_condition ml tok n)"
proof -
  have "\<forall>c \<in> set (node_children n). value_node ''config::packet_type'' type_text c \<or>
      value_node ''config::source'' mavmask_text c \<or> value_node ''config::dest'' mavmask_text c"
    using assms(2) by (auto simp: condition_node_def condition_parts_def dest!: opt_node_all)
  then show ?thesis
    unfolding parse_condition_def by (intro no_ub_bind no_ub_condition_options [OF assms(1)]) (simp_all add: If_construct_def)
qed

lemma no_ub_rule_options:
  assumes "char_separator_spec tok"
    "\<forall>n \<in> set ns. value_node ''config::priority'' signed_text n \<or> condition_node n"
  shows "no_ub (rule_options ml tok ns p c)"
  using assms(2)
proof (induction ns arbitrary: p c)
  case (Cons n ns)
  then have IH: "no_ub (rule_options ml tok ns p c)" for p c by simp
  show ?case
    using Cons.prems IH no_ub_parse_condition [OF assms(1), of n]
    by (auto simp: value_node_def condition_node_def content_def sum_bind_assoc intro!: no_ub_bind)
qed simp

lemma no_ub_parse_action:
  assumes "rule_node n"
  shows "no_ub (parse_action n p c chs)"
  using assms
  by (auto simp: rule_node_def action_node_def parse_action_def content_def map_at_def Call_construct_def
      GoTo_construct_def split: option.split intro!: no_ub_bind)

lemma no_ub_parse_rules:
  assumes "char_separator_spec tok" "list_all rule_node ns"
  shows "no_ub (parse_rules ml tok chs r ns cs)"
  using assms(2)
proof (induction ns arbitrary: cs)
  case (Cons n ns)
  have "\<forall>m \<in> set (node_children n). value_node ''config::priority'' signed_text m \<or> condition_node m"
    using Cons.prems by (auto simp: rule_node_def rule_parts_def dest!: opt_node_all)
  from no_ub_rule_options [OF assms(1) this] show ?case
    using Cons no_ub_parse_action [of n] by (auto intro!: no_ub_bind)
qed simp

lemma no_ub_init_chains: "no_ub (init_chains ns chs cs)"
  by (induction ns arbitrary: chs cs)
    (auto simp: Chain_construct_def split: option.split intro!: no_ub_bind)

lemma no_ub_filter_blocks:
  assumes "char_separator_spec tok" "config_tree ns"
  shows "no_ub (filter_blocks ml tok chs ns cs d)"
  using assms(2)
proof (induction ns arbitrary: cs d)
  case (Cons n ns)
  then have IH: "no_ub (filter_blocks ml tok chs ns cs d)" for cs d by (simp add: config_tree_def)
  have n: "default_action_node n \<or> udp_node n \<or> serial_node n \<or> chain_node n" using Cons.prems by (simp add: config_tree_def)
  have "no_ub (parse_chain ml tok chs r n cs)" if "chain_node n" for r
    using no_ub_parse_rules [OF assms(1)] that by (simp add: parse_chain_def chain_node_def)
  then show ?case
    using n IH
    by (auto simp: default_action_node_def udp_node_def serial_node_def chain_node_def content_def map_at_def
        split: option.split intro!: no_ub_bind)
qed simp

lemma no_ub_parse_filter:
  assumes "char_separator_spec tok" "config_tree root"
  shows "no_ub (parse_filter ml tok root)"
  unfolding parse_filter_def
  by (intro no_ub_bind)
    (auto simp: Chain_construct_default Filter_construct_eq no_ub_init_chains
      intro!: no_ub_bind no_ub_filter_blocks [OF assms] split: prod.split)

text \<open>The settings of the interfaces.\<close>

lemma no_ub_serial_options: "\<forall>n \<in> set ns. node_text n \<noteq> None \<Longrightarrow> no_ub (serial_options ns o1)"
proof (induction ns arbitrary: o1)
  case (Cons n ns)
  then obtain t where "node_text n = Some t" by auto
  then show ?case using Cons by (auto simp: content_def intro!: no_ub_bind)
qed simp

lemma no_ub_udp_options: "\<forall>n \<in> set ns. node_text n \<noteq> None \<Longrightarrow> no_ub (udp_options f ns o1)"
proof (induction ns arbitrary: o1)
  case (Cons n ns)
  then obtain t where "node_text n = Some t" by auto
  then show ?case using Cons by (auto simp: content_def intro!: no_ub_bind)
qed simp

section \<open>Printing\<close>

text \<open>The names of all nodes of a tree.\<close>

fun all_names :: "(string \<Rightarrow> bool) \<Rightarrow> node \<Rightarrow> bool" where
  "all_names P (Node x l t cs) \<longleftrightarrow> P x \<and> (\<forall>c \<in> set cs. all_names P c)"

lemma all_namesI: "P (node_name n) \<Longrightarrow> list_all (all_names P) (node_children n) \<Longrightarrow> all_names P n"
  by (cases n) (simp add: list_all_iff)

lemma print_nodes_ok: "is_ok (print_nodes b pre ns) \<longleftrightarrow> (\<forall>n \<in> set ns. is_ok (print_node b pre n))"
  by (induction ns) (auto simp: sum_bind_ok is_ok_iff sum_bind_Inr)

lemma print_node_ok: "all_names (\<lambda>x. is_ok (printed_name x)) n \<Longrightarrow> is_ok (print_node b pre n)"
proof (induction n arbitrary: pre)
  case (Node x l t cs)
  then have "is_ok (print_nodes b (pre @ ''|  '') cs)" by (auto simp: print_nodes_ok)
  then show ?case using Node.prems by (auto simp: is_ok_iff sum_bind_Inr)
qed

definition config_names :: "string list" where
  "config_names =
     [''config::port'', ''config::address'', ''config::max_bitrate'', ''config::device'', ''config::baudrate'',
      ''config::flow_control'', ''config::preload'', ''config::chain'', ''config::accept'', ''config::reject'',
      ''config::call'', ''config::goto_'', ''config::packet_type'', ''config::source'', ''config::dest'',
      ''config::condition'', ''config::priority'', ''config::default_action'', ''config::udp'', ''config::serial'']"

lemma config_names_print: "list_all (\<lambda>x. is_ok (printed_name x)) config_names"
  by (simp add: printed_name_def config_names_def)

definition known :: "string \<Rightarrow> bool" where
  "known x \<longleftrightarrow> x \<in> set config_names"

lemma known_names [simp]:
  "known ''config::port''"
  "known ''config::address''"
  "known ''config::max_bitrate''"
  "known ''config::device''"
  "known ''config::baudrate''"
  "known ''config::flow_control''"
  "known ''config::preload''"
  "known ''config::chain''"
  "known ''config::accept''"
  "known ''config::reject''"
  "known ''config::call''"
  "known ''config::goto_''"
  "known ''config::packet_type''"
  "known ''config::source''"
  "known ''config::dest''"
  "known ''config::condition''"
  "known ''config::priority''"
  "known ''config::default_action''"
  "known ''config::udp''"
  "known ''config::serial''"
  by (simp_all add: known_def config_names_def)

abbreviation named :: "node \<Rightarrow> bool" where
  "named \<equiv> all_names known"

lemma value_named: "value_node x P n \<Longrightarrow> known x \<Longrightarrow> named n"
  by (rule all_namesI) (auto simp: value_node_def)

lemma opt_named: "opt_node P ns \<Longrightarrow> (\<And>n. P n \<Longrightarrow> named n) \<Longrightarrow> list_all named ns"
  by (auto simp: opt_node_def)

lemma condition_named: "condition_node n \<Longrightarrow> named n"
proof (rule all_namesI)
  assume n: "condition_node n"
  then obtain ps ss ds where parts: "node_children n = ps @ ss @ ds"
      "opt_node (value_node ''config::packet_type'' type_text) ps"
      "opt_node (value_node ''config::source'' mavmask_text) ss"
      "opt_node (value_node ''config::dest'' mavmask_text) ds"
    by (auto simp: condition_node_def condition_parts_def)
  have "list_all named ps" "list_all named ss" "list_all named ds"
    using parts(2-4) by (auto elim!: opt_named value_named)
  then show "list_all named (node_children n)" using parts(1) by simp
  show "known (node_name n)" using n by (simp add: condition_node_def)
qed

lemma rule_named: "rule_node n \<Longrightarrow> named n"
proof (rule all_namesI)
  assume n: "rule_node n"
  then obtain ps cs where parts: "node_children n = ps @ cs"
      "opt_node (value_node ''config::priority'' signed_text) ps" "opt_node condition_node cs"
    by (auto simp: rule_node_def rule_parts_def)
  have "list_all named ps" "list_all named cs"
    using parts(2,3) condition_named by (auto elim!: opt_named value_named)
  then show "list_all named (node_children n)" using parts(1) by simp
  show "known (node_name n)" using n by (auto simp: rule_node_def action_node_def)
qed

lemma block_named:
  assumes "default_action_node n \<or> udp_node n \<or> serial_node n \<or> chain_node n"
  shows "named n"
proof (rule all_namesI)
  show "known (node_name n)"
    using assms by (auto simp: default_action_node_def udp_node_def serial_node_def chain_node_def)
  have "list_all named (node_children n)" if "default_action_node n"
    using that by (auto simp: default_action_node_def action_node_def intro!: all_namesI)
  moreover have "list_all named (node_children n)" if "udp_node n"
    using that unfolding udp_node_def list_all_iff by (blast intro: value_named known_names)
  moreover have "list_all named (node_children n)" if "serial_node n"
    using that unfolding serial_node_def list_all_iff by (blast intro: value_named known_names)
  moreover have "list_all named (node_children n)" if "chain_node n"
    using that rule_named by (auto simp: chain_node_def list_all_iff)
  ultimately show "list_all named (node_children n)" using assms by blast
qed

lemma all_names_mono: "all_names P n \<Longrightarrow> (\<And>x. P x \<Longrightarrow> Q x) \<Longrightarrow> all_names Q n"
  by (induction n) auto

lemma config_tree_prints:
  assumes "config_tree root"
  shows "is_ok (show_tree root)"
proof -
  have "is_ok (print_node True [] n)" if "n \<in> set root" for n
  proof (rule print_node_ok)
    have "named n" using block_named assms that by (auto simp: config_tree_def list_all_iff)
    then show "all_names (\<lambda>x. is_ok (printed_name x)) n"
      by (rule all_names_mono) (use config_names_print in \<open>auto simp: list_all_iff known_def\<close>)
  qed
  then show ?thesis by (simp add: show_tree_def print_nodes_ok)
qed

section \<open>Building the program from a parsed file\<close>

lemma no_ub_devices:
  "no_ub (fst (UnixUDPSocket_construct sys port a rate s))"
  "no_ub (fst (UnixSerialPort_construct sys device baud features s))"
  by (auto simp: UnixUDPSocket_construct_def create_socket_def UnixSerialPort_construct_def open_port_def
      configure_port_def speed_constant_def system_error_def Let_def split: prod.splits sum.splits if_splits option.splits)

lemma no_ub_parse_udp:
  assumes "udp_node n"
  shows "no_ub (fst (parse_udp sys f k F n s w))"
proof -
  have "\<forall>c \<in> set (node_children n). node_text c \<noteq> None"
    using assms by (auto simp: udp_node_def list_all_iff value_node_def)
  then have "no_ub (udp_options f (node_children n) udp_defaults)" by (rule no_ub_udp_options)
  moreover have "no_ub (fst (UnixUDPSocket_construct sys p a m s))" for p a m by (rule no_ub_devices)
  ultimately show ?thesis
    by (auto simp: parse_udp_def ConnectionFactory_construct_def UDPInterface_construct_def no_ub_def
        split: sum.splits prod.splits) (metis fst_conv)
qed

text \<open>
  Building does not ask the filter about any packet, so that the dialect plays no part in it; in a dialect
  without messages every filter is total.
\<close>

definition no_dialect :: "environment \<Rightarrow> environment" where
  "no_dialect env = env\<lparr>env_mavlink := (env_mavlink env)\<lparr>message_info_by_id := (\<lambda>_. None)\<rparr>\<rparr>"

lemma preload_no_dialect: "preload_addresses (no_dialect env) clk i c addrs w = preload_addresses env clk i c addrs w"
proof (induction addrs arbitrary: i w)
  case (Cons a addrs)
  have level: "env_level (env_in (no_dialect env) n) = env_level (env_in env n)" for n
    by (simp add: env_in_def no_dialect_def)
  have add: "add_address (env_in (no_dialect env) n) t1 t2 a = add_address (env_in env n) t1 t2 a" for n t1 t2
    unfolding add_address_def m_print_def level ..
  have "call_add_address (no_dialect env) rd c a w = call_add_address env rd c a w" for rd
    unfolding call_add_address_def add ..
  then show ?case using Cons by (simp split: prod.split sum.split)
qed simp

lemma parse_serial_no_dialect: "parse_serial sys (no_dialect env) clk F n s w = parse_serial sys env clk F n s w"
proof -
  have "attach_serial (no_dialect env) clk d F addrs w = attach_serial env clk d F addrs w" for d addrs
    unfolding attach_serial_def preload_no_dialect ..
  then show ?thesis unfolding parse_serial_def by (simp only:)
qed

lemma loop_no_dialect:
  "interface_loop sys f (no_dialect env) clk F ns made s w = interface_loop sys f env clk F ns made s w"
  by (induction ns arbitrary: made s w) (simp_all add: parse_serial_no_dialect split: prod.split sum.split)

lemma built_no_dialect: "built (no_dialect env) F [] new_world"
proof -
  have "\<not> packet_wf (env_mavlink (no_dialect env)) p" for p
    by (simp add: packet_wf_def no_dialect_def split: Version.split)
  then have "filter_total (no_dialect env) F (\<lambda>_. {})" by (simp add: filter_total_def)
  then have "unowned (no_dialect env) F new_world"
    using world_inv_empty by (simp add: unowned_def new_world_def idle_def)
  then show ?thesis by (simp add: built_def)
qed

lemma no_ub_parse_serial:
  assumes "serial_node n" "built env F made w" "\<forall>i. readings_ok (clk i)"
  shows "no_ub (fst (parse_serial sys env clk F n s w))"
proof -
  have "\<forall>c \<in> set (node_children n). node_text c \<noteq> None"
    using assms(1) by (auto simp: serial_node_def list_all_iff value_node_def)
  then have "no_ub (serial_options (node_children n) serial_defaults)" by (rule no_ub_serial_options)
  moreover have "no_ub (fst (UnixSerialPort_construct sys d b v s))" for d b v by (rule no_ub_devices)
  moreover have "\<exists>i w'. attach_serial env clk d F addrs w = (Inr i, w')" for d addrs
    using attach_serial_ok assms(2,3) unfolding built_def by blast
  ultimately show ?thesis
    by (auto simp: parse_serial_def no_ub_def split: sum.splits prod.splits option.splits) (metis fst_conv sum.distinct(1) prod.inject)+
qed

lemma no_ub_interface_loop:
  assumes "config_tree ns" "built env F made w" "\<forall>k i. readings_ok (clk k i)"
  shows "no_ub (fst (interface_loop sys f env clk F ns made s w))"
  using assms(1,2)
proof (induction ns arbitrary: made s w)
  case (Cons n ns)
  have tree: "config_tree ns" and n: "default_action_node n \<or> udp_node n \<or> serial_node n \<or> chain_node n"
    using Cons.prems(1) by (auto simp: config_tree_def)
  consider (u) "node_name n = ''config::udp''" "udp_node n" | (s) "node_name n = ''config::serial''" "serial_node n"
    | (o) "node_name n \<noteq> ''config::udp''" "node_name n \<noteq> ''config::serial''"
    using n by (auto simp: default_action_node_def udp_node_def serial_node_def chain_node_def)
  then show ?case
  proof cases
    case u
    obtain r s1 w1 where r: "parse_udp sys f (length made) F n s w = (r, s1, w1)" by (cases "parse_udp sys f (length made) F n s w") auto
    have "no_ub r" using no_ub_parse_udp [OF u(2), of sys f "length made" F s w] r by simp
    show ?thesis
    proof (cases r)
      case (Inr l)
      then have "built env F (made @ [l]) w1" using parse_udp_built [OF r [unfolded Inr] Cons.prems(2)] by blast
      then show ?thesis using Cons.IH [OF tree] r Inr u(1) by simp
    qed (use r u(1) \<open>no_ub r\<close> in simp)
  next
    case s
    obtain r s1 w1 where r: "parse_serial sys env (clk (length made)) F n s w = (r, s1, w1)"
      by (cases "parse_serial sys env (clk (length made)) F n s w") auto
    have "no_ub r" using no_ub_parse_serial [OF s(2) Cons.prems(2), of "clk (length made)" sys s] assms(3) r by simp
    show ?thesis
    proof (cases r)
      case (Inr l)
      then have "built env F (made @ [l]) w1"
        using parse_serial_built [OF r [unfolded Inr] Cons.prems(2)] assms(3) by blast
      then show ?thesis using Cons.IH [OF tree] r Inr s(1) by simp
    qed (use r s(1) \<open>no_ub r\<close> in simp)
  next
    case o
    then show ?thesis using Cons.IH [OF tree Cons.prems(2)] by simp
  qed
qed simp

lemma no_ub_make_app:
  assumes "config_tree root" "char_separator_spec tok" "\<forall>k i. readings_ok (clk k i)"
  shows "no_ub (fst (make_app sys tok f env clk root s))"
proof (cases "parse_filter (env_mavlink env) tok root")
  case (Inl e)
  then show ?thesis using no_ub_parse_filter [OF assms(2,1), of "env_mavlink env"] by (simp add: make_app_def)
next
  case (Inr F)
  from no_ub_interface_loop [OF assms(1) built_no_dialect assms(3), of sys f env F s]
  show ?thesis unfolding loop_no_dialect
    by (auto simp: make_app_def parse_interfaces_def Inr split: prod.split sum.split)
qed

lemma reading_without_ub:
  assumes "follows (pg_match lib) g_grammar" "no_ub (pg_read lib path)"
  shows "no_ub (ConfigParser_construct lib path)"
proof (cases "pg_read lib path")
  case (Inl e)
  then show ?thesis using assms(2) by (simp add: ConfigParser_construct_def sum_bind_def)
next
  case (Inr s)
  then show ?thesis
    using parse_config_outcome [OF assms(1), of path s]
    by (auto simp: ConfigParser_construct_def sum_bind_def no_ub_def grammar_error_def split: sum.splits option.splits)
qed

lemma parsed_tree:
  assumes "follows (pg_match lib) g_grammar" "ConfigParser_construct lib filename = Inr root"
  shows "config_tree root"
proof -
  obtain u n where "parse_config lib filename u = Inr (Some n)" "root = map (node_view lib u) (tn_children n)"
    using assms(2) by (auto simp: ConfigParser_construct_def sum_bind_Inr split: option.splits)
  then show ?thesis using parse_config_outcome [OF assms(1), of filename u] by simp
qed

section \<open>Properties\<close>

text \<open>C38: matching the grammar ends on every text: no repetition goes on without taking a character.\<close>

theorem grammar_terminates: "\<exists>t v. rule_outcome (core g_grammar) (0, s) t v"
  using reference_matcher_follows [OF grammar_loops] by (auto simp: follows_def)

text \<open>C21: a configuration file that can be read gives either a tree of the documented form (blocks of
  settings, chains of rules, default actions, each value a text of its kind), or the error message
  of the rule that must match, or the error for a file without a tree.  The hooks that build
  the tree never work on an empty stack, no node of a failed alternative is left in the tree,
  and \<open>replace_with_first_child\<close> always finds a child.\<close>

theorem config_file_outcome:
  assumes "follows (pg_match lib) g_grammar" "pg_read lib filename = Inr s"
  shows "case ConfigParser_construct lib filename of
      Inr root \<Rightarrow> config_tree root
    | Inl e \<Rightarrow> e = unexpected_error \<or> grammar_error lib filename s e"
  using parse_config_outcome [OF assms(1), of filename s] assms(2)
  by (auto simp: ConfigParser_construct_def split: sum.splits option.splits)

text \<open>C39: a text after the last element that no element begins with, such as a closing brace too many, is
  reported by the error that the source calls technically impossible, without a position.\<close>

theorem config_trailing_text:
  assumes "follows (pg_match lib) g_grammar" "pg_read lib filename = Inr s"
    "rule_outcome (core g_elements) (0, s) t (Matched (p, c # u))"
  shows "ConfigParser_construct lib filename = Inl unexpected_error"
proof -
  let ?t = "Start ''config::grammar'' Store_no 0 # (t @ []) @ [Fail ''config::grammar'' Store_no 0]"
  have must: "rule_outcome (Must (core g_elements)) (0, s) t (Matched (p, c # u))"
    using assms(3) by (rule must_pass) simp
  have eof: "rule_outcome (Seq [Eof]) (p, c # u) [] Failed"
    by (rule seq_stop) (simp_all add: outcome_eof)
  have "rule_outcome (core g_grammar) (0, s) ?t Failed"
    unfolding grammar_core using named_fail [OF seq_step [OF must eof]] by simp
  then have m: "pg_match lib g_grammar s = (?t, Failed)"
    using follows_agree [OF assms(1)] by (metis agree_simps(3) prod.collapse)
  have "builds lib s (Must (core g_elements)) 0 t (Matched (p, c # u))"
    by (rule outcome_builds [OF must elements_moded]) simp_all
  then obtain cs where "\<forall>n st. control_run t (n # st) = Inr (add_children cs n # st)"
    unfolding builds_def verdict.case by blast
  then have "parse_config lib filename s = Inr None"
    by (simp add: parse_config_def tree_parse_def m state_init_def control_run_append)
  then show ?thesis using assms(2) by (simp add: ConfigParser_construct_def)
qed

text \<open>C20: whatever is in the configuration file, reading it, printing its tree and building the program
  from it never runs into behaviour the C++ standard leaves undefined, as an empty stack of nodes, a
  missing content, an empty list of children or an uninitialised mask would be; and printing raises no
  exception.  This includes files whose chains refer to each other in a circle.\<close>

theorem config_without_ub:
  assumes "follows (pg_match lib) g_grammar" "\<forall>msg. pg_read lib filename \<noteq> Inl (Undefined_behaviour msg)"
    "char_separator_spec tok" "\<forall>k i. readings_ok (clk k i)"
  shows "(\<forall>msg. ConfigParser_construct lib filename \<noteq> Inl (Undefined_behaviour msg)) \<and>
    (\<forall>root. ConfigParser_construct lib filename = Inr root \<longrightarrow> is_ok (show_tree root) \<and>
       (\<forall>msg. fst (make_app sys tok split_colon env clk root s) \<noteq> Inl (Undefined_behaviour msg)))"
proof -
  have "no_ub (ConfigParser_construct lib filename)"
    using reading_without_ub [OF assms(1)] assms(2) by (simp add: no_ub_def)
  moreover have "is_ok (show_tree root) \<and> no_ub (fst (make_app sys tok split_colon env clk root s))"
    if "ConfigParser_construct lib filename = Inr root" for root
    by (intro conjI config_tree_prints no_ub_make_app assms(3,4) parsed_tree [OF assms(1) that])
  ultimately show ?thesis unfolding no_ub_def by blast
qed

text \<open>C18: which configurations \<open>parse_filter\<close> accepts: the trees of the grammar in which every chain has a
  name without white space, a chain that is called or jumped to is declared and not the default chain,
  priorities fit an \<open>int\<close>, packet types are known and subnets parse (\<open>config_valid\<close>).  For any other tree
  of the grammar it throws an exception, and never runs into undefined behaviour.  A default chain
  need not be there, although the documentation demands it.\<close>

theorem parse_filter_accepts:
  assumes "config_tree root" "char_separator_spec tok"
  shows "if config_valid ml tok root then \<exists>F. parse_filter ml tok root = Inr F
    else \<exists>e. parse_filter ml tok root = Inl e \<and> (\<forall>msg. e \<noteq> Undefined_behaviour msg)"
  using parse_filter_ok [of ml tok root] no_ub_parse_filter [OF assms(2,1), of ml]
  by (cases "parse_filter ml tok root") (simp_all add: is_ok_def no_ub_def)

section \<open>Witnesses\<close>

text \<open>A library with the reference matcher; there is one file.\<close>

definition sample_pegtl :: "string \<Rightarrow> pegtl" where
  "sample_pegtl s =
     \<lparr>pg_match = reference_matcher, pg_line = (\<lambda>_ _. 1), pg_what = (\<lambda>m source u q. source @ '': '' @ m),
      pg_read = (\<lambda>_. Inr s)\<rparr>"

lemma sample_pegtl_simps [simp]:
  "pg_match (sample_pegtl s) = reference_matcher" "pg_read (sample_pegtl s) f = Inr s"
  by (simp_all add: sample_pegtl_def)

lemma sample_follows: "follows reference_matcher g_grammar"
  by (rule reference_matcher_follows [OF grammar_loops])

definition sample_file :: string where
  "sample_file = ''udp {port 145;} chain default {accept if to 1.2/8;}''"

lemma sample_parsed: "ConfigParser_construct (sample_pegtl sample_file) ''c'' =
  Inr [Node ''config::udp'' 1 None [Node ''config::port'' 1 (Some ''145'') []],
    Node ''config::chain'' 1 (Some ''default'')
      [Node ''config::accept'' 1 None [Node ''config::condition'' 1 None [Node ''config::dest'' 1 (Some ''1.2/8'') []]]]]"
  by code_simp

theorem config_file_outcome_witness:
  "\<exists>root. ConfigParser_construct (sample_pegtl sample_file) ''c'' = Inr root \<and> config_tree root"
proof -
  obtain root where r: "ConfigParser_construct (sample_pegtl sample_file) ''c'' = Inr root"
    using sample_parsed by blast
  have "case ConfigParser_construct (sample_pegtl sample_file) ''c'' of
      Inr root \<Rightarrow> config_tree root
    | Inl e \<Rightarrow> e = unexpected_error \<or> grammar_error (sample_pegtl sample_file) ''c'' sample_file e"
    by (rule config_file_outcome) (simp_all only: sample_pegtl_simps sample_follows)
  then show ?thesis unfolding r sum.case by blast
qed

lemma run_rule_does: "loops_ok r \<Longrightarrow> snd (run_rule r i) = v \<Longrightarrow> rule_outcome r i (fst (run_rule r i)) v"
  by (cases "run_rule r i") (auto intro: run_rule_outcome)

lemma sample_trailing: "snd (run_rule (core g_elements) (0, ''udp {}}'')) = Matched (6, ''}'')"
  by code_simp

theorem config_trailing_text_witness:
  "ConfigParser_construct (sample_pegtl ''udp {}}'') ''c'' = Inl unexpected_error"
proof -
  have "loops_ok (core g_elements)" by code_simp
  from run_rule_does [OF this sample_trailing] show ?thesis
    by (rule config_trailing_text [rotated 2]) (simp_all only: sample_pegtl_simps sample_follows)
qed

theorem config_without_ub_witness:
  "\<exists>root. ConfigParser_construct (sample_pegtl sample_file) ''c'' = Inr root \<and> is_ok (show_tree root) \<and>
     (\<forall>msg. fst (make_app (table_os 0) tokenize (\<lambda>_. []) sample_env sample_readings root []) \<noteq> Inl (Undefined_behaviour msg))"
proof -
  have "follows (pg_match (sample_pegtl sample_file)) g_grammar" by (simp only: sample_pegtl_simps sample_follows)
  moreover have "\<forall>msg. pg_read (sample_pegtl sample_file) ''c'' \<noteq> Inl (Undefined_behaviour msg)" by simp
  ultimately show ?thesis
    using config_without_ub [of "sample_pegtl sample_file" "''c''", OF _ _ tokenize_spec sample_readings_ok,
        of "table_os 0" "\<lambda>_. []" sample_env "[]"] sample_parsed by blast
qed

text \<open>Two trees of the grammar: the second one calls a chain that is not declared.\<close>

definition calling_tree :: "string \<Rightarrow> node list" where
  "calling_tree t =
     [Node ''config::chain'' 1 (Some ''default'') [Node ''config::call'' 1 (Some t) []],
      Node ''config::chain'' 2 (Some ''c'') []]"

theorem parse_filter_accepts_witness:
  "(\<exists>F. parse_filter common_mavlink tokenize (calling_tree ''c'') = Inr F) \<and>
     (\<exists>e. parse_filter common_mavlink tokenize (calling_tree ''d'') = Inl e \<and> (\<forall>msg. e \<noteq> Undefined_behaviour msg))"
proof -
  have "declared (calling_tree t) = {''c''}" for t by (auto simp: declared_def calling_tree_def is_block_def)
  then have "config_valid common_mavlink tokenize (calling_tree t) \<longleftrightarrow> t = ''c''" for t
    by (auto simp: config_valid_def calling_tree_def rule_valid_def action_valid_def Chain_construct_def)
  moreover have names: "name_text ''default''" "name_text ''c''" "name_text ''d''" by code_simp+
  moreover have "config_tree (calling_tree ''c'')" "config_tree (calling_tree ''d'')"
    by (simp_all add: config_tree_def calling_tree_def chain_node_def rule_node_def rule_parts_def opt_node_def
        action_node_def names)
  ultimately show ?thesis
    using parse_filter_accepts [OF _ tokenize_spec, of "calling_tree ''c''" common_mavlink]
      parse_filter_accepts [OF _ tokenize_spec, of "calling_tree ''d''" common_mavlink] by simp
qed

end
