(* ===== verification/System.thy ===== *)
theory System
  imports Traffic ConfigBuild
begin

text \<open>
  The program as a whole: all interfaces over the one network of connections, the one connection
  pool and the one filter they share.  An event is a call that one of the worker threads makes; the
  events of all threads come in any order.
\<close>

section \<open>Events\<close>

record system =
  sy_links :: "Interface list"
  sy_world :: world

text \<open>
  \<open>receive_packet\<close> on the link with the given number, with the bytes its device returned (and, on a
  UDP link, the address they came from), and \<open>send_packet\<close>.
\<close>

datatype event =
    Receive nat "nat \<Rightarrow> readings" "u8 list" IPAddress
  | Transmit nat

definition link_receive ::
  "environment \<Rightarrow> (nat \<Rightarrow> readings) \<Rightarrow> u8 list \<Rightarrow> IPAddress \<Rightarrow> Interface \<Rightarrow> world \<Rightarrow>
   (cpp_error + unit) \<times> Interface \<times> world" where
  "link_receive env clk buffer ip l w =
     (case l of
        SerialLink port i \<Rightarrow>
          (case serial_receive_packet env clk buffer i w of (r, i', w') \<Rightarrow> (r, SerialLink port i', w'))
      | UDPLink socket i \<Rightarrow>
          (case udp_receive_packet env clk buffer ip i w of (r, i', w') \<Rightarrow> (r, UDPLink socket i', w')))"

text \<open>Sending, on devices that take what they are given.\<close>

definition link_send :: "Interface \<Rightarrow> world \<Rightarrow> (cpp_error + unit) \<times> world" where
  "link_send l w =
     (case l of
        SerialLink port i \<Rightarrow>
          (case serial_send_packet (\<lambda>_. Inr ()) i w of (r, w') \<Rightarrow> (map_sum id (\<lambda>_. ()) r, w'))
      | UDPLink socket i \<Rightarrow>
          (case udp_send_packet (\<lambda>_ _. Inr ()) i w of (r, w') \<Rightarrow> (map_sum id (\<lambda>_. ()) r, w')))"

fun system_step :: "environment \<Rightarrow> event \<Rightarrow> system \<Rightarrow> (cpp_error + unit) \<times> system" where
  "system_step env (Receive k clk buffer ip) sy =
     (case link_receive env clk buffer ip (sy_links sy ! k) (sy_world sy) of
        (r, l, w) \<Rightarrow> (r, \<lparr>sy_links = (sy_links sy)[k := l], sy_world = w\<rparr>))"
| "system_step env (Transmit k) sy =
     (case link_send (sy_links sy ! k) (sy_world sy) of (r, w) \<Rightarrow> (r, sy\<lparr>sy_world := w\<rparr>))"

fun system_run :: "environment \<Rightarrow> event list \<Rightarrow> system \<Rightarrow> (cpp_error + unit) \<times> system" where
  "system_run env [] sy = (Inr (), sy)"
| "system_run env (e # es) sy =
     (case system_step env e sy of
        (Inl x, sy') \<Rightarrow> (Inl x, sy')
      | (Inr _, sy') \<Rightarrow> system_run env es sy')"

text \<open>
  The packets that come in are read off a run at the endpoints of the router: a serial link, or an address
  on a UDP link.
\<close>

type_synonym endpoint = "nat \<times> IPAddress option"

text \<open>The packets the parser completes in a block of bytes, and the endpoint they came from.\<close>

definition link_packets :: "environment \<Rightarrow> u8 list \<Rightarrow> IPAddress \<Rightarrow> Interface \<Rightarrow> Packet list" where
  "link_packets env buffer ip l =
     packets_of (env_mavlink env)
       (case l of
          SerialLink port i \<Rightarrow> fst (spec_run (env_mavlink env) buffer (pp_buffer (ser_parser i)))
        | UDPLink socket i \<Rightarrow> datagram_frames (env_mavlink env) buffer ip i)"

definition link_endpoint :: "nat \<Rightarrow> IPAddress \<Rightarrow> Interface \<Rightarrow> endpoint" where
  "link_endpoint k ip l = (k, case l of SerialLink port i \<Rightarrow> None | UDPLink socket i \<Rightarrow> Some ip)"

fun event_input :: "environment \<Rightarrow> event \<Rightarrow> system \<Rightarrow> (endpoint \<times> Packet) list" where
  "event_input env (Receive k clk buffer ip) sy =
     map (Pair (link_endpoint k ip (sy_links sy ! k))) (link_packets env buffer ip (sy_links sy ! k))"
| "event_input env (Transmit k) sy = []"

fun run_input :: "environment \<Rightarrow> event list \<Rightarrow> system \<Rightarrow> (endpoint \<times> Packet) list" where
  "run_input env [] sy = []"
| "run_input env (e # es) sy = event_input env e sy @ run_input env es (snd (system_step env e sy))"

text \<open>
  What is asked of an event: the link exists, a packet is handled within the two minutes addresses
  live, no version 1 packet is too short for its destination, and fewer than \<open>2 ^ 64\<close> packets wait.
\<close>

fun admissible :: "environment \<Rightarrow> system \<Rightarrow> event \<Rightarrow> bool" where
  "admissible env sy (Receive k clk buffer ip) \<longleftrightarrow>
     k < length (sy_links sy) \<and> (\<forall>i. readings_ok (clk i)) \<and>
     (case sy_links sy ! k of
        SerialLink port i \<Rightarrow>
          routable (env_mavlink env) (fst (spec_run (env_mavlink env) buffer (pp_buffer (ser_parser i))))
      | UDPLink socket i \<Rightarrow>
          routable (env_mavlink env) (datagram_frames (env_mavlink env) buffer ip i))"
| "admissible env sy (Transmit k) \<longleftrightarrow>
     k < length (sy_links sy) \<and> counted (w_net (sy_world sy)) k < 2 ^ 64"

fun admissible_run :: "environment \<Rightarrow> system \<Rightarrow> event list \<Rightarrow> bool" where
  "admissible_run env sy [] = True"
| "admissible_run env sy (e # es) \<longleftrightarrow>
     admissible env sy e \<and> admissible_run env (snd (system_step env e sy)) es"

lemma admissible_run_append:
  "system_run env es sy = (Inr (), sy') \<Longrightarrow>
   admissible_run env sy (es @ fs) \<longleftrightarrow> admissible_run env sy es \<and> admissible_run env sy' fs"
proof (induction es arbitrary: sy)
  case (Cons e es)
  then obtain sy1 where "system_step env e sy = (Inr (), sy1)" "system_run env es sy1 = (Inr (), sy')"
    by (auto split: prod.splits sum.splits simp del: system_step.simps)
  then show ?case using Cons.IH by (simp del: system_step.simps)
qed simp

text \<open>
  The same without a condition on what arrives; nothing is asked of what would come after an exception.
\<close>

fun timely :: "system \<Rightarrow> event \<Rightarrow> bool" where
  "timely sy (Receive k clk buffer ip) \<longleftrightarrow> k < length (sy_links sy) \<and> (\<forall>i. readings_ok (clk i))"
| "timely sy (Transmit k) \<longleftrightarrow> k < length (sy_links sy) \<and> counted (w_net (sy_world sy)) k < 2 ^ 64"

fun timely_run :: "environment \<Rightarrow> system \<Rightarrow> event list \<Rightarrow> bool" where
  "timely_run env sy [] = True"
| "timely_run env sy (e # es) \<longleftrightarrow>
     timely sy e \<and>
     (case system_step env e sy of
        (Inl x, sy') \<Rightarrow> True
      | (Inr _, sy') \<Rightarrow> timely_run env sy' es)"

definition short_received :: "environment \<Rightarrow> (endpoint \<times> Packet) list \<Rightarrow> bool" where
  "short_received env ins \<longleftrightarrow> (\<exists>(x, p) \<in> set ins. v1_too_short (env_mavlink env) p)"

lemma short_received_append [simp]:
  "short_received env (ins @ ins') \<longleftrightarrow> short_received env ins \<or> short_received env ins'"
  by (auto simp: short_received_def)

lemma routable_or_short:
  assumes "mavlink_tables_agree ml" "\<not> routable ml (fst (spec_run ml buffer d))"
  shows "\<exists>p \<in> set (packets_of ml (fst (spec_run ml buffer d))). v1_too_short ml p"
  using assms(2) packets_of_wf [OF spec_run_complete, of _ ml buffer d] dest_or_short [OF _ assms(1)]
  by (auto simp: routable_def)

lemma admissible_or_short:
  assumes "mavlink_tables_agree (env_mavlink env)" "timely sy e" "\<not> admissible env sy e"
  shows "short_received env (event_input env e sy)"
proof (cases e)
  case (Receive k clk buffer ip)
  then have "\<exists>p \<in> set (link_packets env buffer ip (sy_links sy ! k)). v1_too_short (env_mavlink env) p"
    using assms(2,3) routable_or_short [OF assms(1)]
    by (cases "sy_links sy ! k") (simp_all add: link_packets_def datagram_frames_def)
  then show ?thesis by (auto simp: Receive short_received_def)
next
  case (Transmit k)
  then show ?thesis using assms(2,3) by simp
qed

lemma timely_admissible: "admissible env sy e \<Longrightarrow> timely sy e"
  by (cases e) simp_all

lemma admissible_run_prefix: "admissible_run env sy (es @ fs) \<Longrightarrow> admissible_run env sy es"
  by (induction es arbitrary: sy) (simp_all del: system_step.simps)

section \<open>The invariant\<close>

text \<open>
  Every link satisfies the invariant of its kind; the connection of a serial link is registered with
  the pool and belongs to no factory, and the factory of a UDP link has the number of the link.
\<close>

definition link_inv :: "environment \<Rightarrow> Filter \<Rightarrow> world \<Rightarrow> nat \<Rightarrow> Interface \<Rightarrow> bool" where
  "link_inv env F w k l =
     (case l of
        SerialLink port i \<Rightarrow>
          serial_inv env F (i, w) \<and> parser_inv (env_mavlink env) (ser_parser i) \<and>
          net_owner (w_net w) (ser_connection i) = None \<and> ser_connection i \<in> set (w_pool w) \<and>
          (\<exists>conn. net_conns (w_net w) (ser_connection i) = Some conn \<and> pq_running (conn_queue conn))
      | UDPLink socket i \<Rightarrow>
          udp_inv env F (i, w) \<and> parser_inv (env_mavlink env) (udp_parser i) \<and>
          cf_number (udp_factory i) = k)"

definition system_inv :: "environment \<Rightarrow> Filter \<Rightarrow> system \<Rightarrow> bool" where
  "system_inv env F sy \<longleftrightarrow>
     world_inv env F (sy_world sy) \<and>
     (\<forall>k < length (sy_links sy). link_inv env F (sy_world sy) k (sy_links sy ! k))"

text \<open>What one link does leaves the others as they are.\<close>

lemma owned_other:
  assumes "accounted (w_net w)" "owners_kept {k} w w'" "j \<noteq> k"
  shows "owned (w_net w') j = owned (w_net w) j"
proof -
  have "net_conns (w_net w) c \<noteq> None" if "net_owner (w_net w) c = Some j" for c
    using assms(1) that by (auto simp: accounted_def)
  then show ?thesis using assms(2,3) by (auto simp: owned_def owners_kept_def)
qed

lemma link_inv_other:
  assumes "link_inv env F w j l" "world_inv env F w" "world_inv env F w'" "net_keeps w w'" "owners_kept {k} w w'" "j \<noteq> k"
  shows "link_inv env F w' j l"
proof (cases l)
  case (SerialLink port i)
  then obtain conn where conn: "net_conns (w_net w) (ser_connection i) = Some conn" "pq_running (conn_queue conn)"
      "net_owner (w_net w) (ser_connection i) = None" "parser_inv (env_mavlink env) (ser_parser i)"
      "ser_connection i \<in> set (w_pool w)"
    using assms(1) by (auto simp: link_inv_def)
  then obtain conn' where "net_conns (w_net w') (ser_connection i) = Some conn'" "pq_running (conn_queue conn')"
      "ser_connection i \<in> set (w_pool w')"
    using assms(4) unfolding net_keeps_def keeps_def by blast
  moreover have "net_owner (w_net w') (ser_connection i) = None"
    using assms(5) conn(1,3) by (auto simp: owners_kept_def)
  ultimately show ?thesis using assms(3) conn(4) SerialLink by (simp add: link_inv_def serial_inv_def)
next
  case (UDPLink socket i)
  have inv: "udp_inv env F (i, w)" "cf_number (udp_factory i) = j" using assms(1) UDPLink by (auto simp: link_inv_def)
  have "accounted (w_net w)" using assms(2) by (simp add: world_inv_def)
  then have own: "owned (w_net w') j = owned (w_net w) j" using owned_other assms(5,6) by blast
  have each: "\<exists>conn. net_conns (w_net w') d = Some conn \<and> conn_name conn = show_IPAddress ip \<and>
      conn_mirror conn = cf_mirror (udp_factory i) \<and> pq_running (conn_queue conn) \<and> d \<in> set (w_pool w')"
    if ic: "(ip, d) \<in> set (udp_connections i)" for ip d
  proof -
    obtain conn where "net_conns (w_net w) d = Some conn" "conn_name conn = show_IPAddress ip"
        "conn_mirror conn = cf_mirror (udp_factory i)" "pq_running (conn_queue conn)" "d \<in> set (w_pool w)"
      using inv(1) ic by (auto simp: udp_inv_def Let_def)
    then show ?thesis using assms(4) unfolding net_keeps_def keeps_def by fastforce
  qed
  have "\<forall>(ip, d) \<in> set (udp_connections i). \<exists>conn. net_conns (w_net w') d = Some conn \<and>
      conn_name conn = show_IPAddress ip \<and> conn_mirror conn = cf_mirror (udp_factory i) \<and>
      pq_running (conn_queue conn) \<and> d \<in> set (w_pool w')"
    by (intro ballI case_prodI2, rule each, simp only:)
  then have "udp_inv env F (i, w')"
    using inv assms(3) own by (simp add: udp_inv_def Let_def)
  then show ?thesis using assms(1) UDPLink by (simp add: link_inv_def)
qed

lemma system_inv_step:
  assumes "system_inv env F sy" "k < length (sy_links sy)" "world_inv env F w" "net_keeps (sy_world sy) w"
    "owners_kept {k} (sy_world sy) w" "link_inv env F w k l"
  shows "system_inv env F \<lparr>sy_links = (sy_links sy)[k := l], sy_world = w\<rparr>"
proof -
  have "link_inv env F w j ((sy_links sy)[k := l] ! j)" if "j < length (sy_links sy)" for j
    using link_inv_other [OF _ _ assms(3-5), of j] assms(1,2,6) that
    by (cases "j = k") (auto simp: system_inv_def)
  then show ?thesis using assms(3) by (simp add: system_inv_def)
qed

section \<open>Events keep the invariant\<close>

lemma owners_kept_more:
  assumes "owners_kept {} w w'"
  shows "owners_kept {k} w w'"
proof -
  have "net_owner (w_net w) c = Some g" if "net_owner (w_net w') c = Some g" for c g
    using assms that unfolding owners_kept_def by blast
  then show ?thesis using assms unfolding owners_kept_def by blast
qed

lemma owners_kept_none:
  assumes "owners_kept fs w w'" "net_conns (w_net w) c = Some conn" "net_owner (w_net w) c = None"
  shows "net_owner (w_net w') c = None"
  using assms unfolding owners_kept_def by (metis option.discI)

lemma link_receive_ok:
  assumes "system_inv env F sy" "admissible env sy (Receive k clk buffer ip)"
  shows "\<exists>l w. link_receive env clk buffer ip (sy_links sy ! k) (sy_world sy) = (Inr (), l, w) \<and>
    world_inv env F w \<and> net_keeps (sy_world sy) w \<and> owners_kept {k} (sy_world sy) w \<and> link_inv env F w k l"
proof -
  let ?w = "sy_world sy"
  have adm: "k < length (sy_links sy)" "\<forall>i. readings_ok (clk i)" using assms(2) by auto
  have inv: "link_inv env F ?w k (sy_links sy ! k)" using assms(1) adm(1) by (simp add: system_inv_def)
  show ?thesis
  proof (cases "sy_links sy ! k")
    case (SerialLink port i)
    have pre: "serial_inv env F (i, ?w)" "parser_inv (env_mavlink env) (ser_parser i)"
        "net_owner (w_net ?w) (ser_connection i) = None" "ser_connection i \<in> set (w_pool ?w)"
        "routable (env_mavlink env) (fst (spec_run (env_mavlink env) buffer (pp_buffer (ser_parser i))))"
      using inv assms(2) SerialLink by (auto simp: link_inv_def)
    obtain conn where conn: "net_conns (w_net ?w) (ser_connection i) = Some conn" "pq_running (conn_queue conn)"
      using inv SerialLink by (auto simp: link_inv_def)
    obtain i' w' where r: "serial_receive_packet env clk buffer i ?w = (Inr (), i', w')"
        "serial_inv env F (i', w')" "parser_inv (env_mavlink env) (ser_parser i')"
        "ser_connection i' = ser_connection i" "net_keeps ?w w'" "owners_kept {} ?w w'"
      using serial_receive_ok [OF pre(1,2) adm(2) pre(5)] by blast
    have "net_owner (w_net w') (ser_connection i) = None" by (rule owners_kept_none [OF r(6) conn(1) pre(3)])
    moreover obtain conn' where "net_conns (w_net w') (ser_connection i) = Some conn'" "pq_running (conn_queue conn')"
        "ser_connection i \<in> set (w_pool w')"
      using r(5) conn pre(4) unfolding net_keeps_def keeps_def by blast
    ultimately have "link_inv env F w' k (SerialLink port i')" using r(2-4) by (simp add: link_inv_def)
    moreover have "world_inv env F w'" using r(2) by (simp add: serial_inv_def)
    ultimately show ?thesis
      using r(1,5) owners_kept_more [OF r(6)] SerialLink by (simp add: link_receive_def)
  next
    case (UDPLink socket i)
    have pre: "udp_inv env F (i, ?w)" "parser_inv (env_mavlink env) (udp_parser i)" "cf_number (udp_factory i) = k"
        "routable (env_mavlink env) (datagram_frames (env_mavlink env) buffer ip i)"
      using inv assms(2) UDPLink by (auto simp: link_inv_def)
    obtain i' w' where r: "udp_receive_packet env clk buffer ip i ?w = (Inr (), i', w')"
        "udp_inv env F (i', w')" "parser_inv (env_mavlink env) (udp_parser i')"
        "udp_factory i' = udp_factory i" "net_keeps ?w w'" "owners_kept {k} ?w w'"
      using udp_receive_ok [OF pre(1,2) adm(2) pre(4)] pre(3) by blast
    have "link_inv env F w' k (UDPLink socket i')" using r(2-4) pre(3) by (simp add: link_inv_def)
    moreover have "world_inv env F w'" using r(2) by (simp add: udp_inv_def Let_def)
    ultimately show ?thesis using r(1,5,6) UDPLink by (simp add: link_receive_def)
  qed
qed

lemma serial_send_ok:
  assumes "world_inv env F w" "net_conns (w_net w) (ser_connection i) = Some conn" "pq_running (conn_queue conn)"
    "net_owner (w_net w) (ser_connection i) = None"
  shows "\<exists>out w'. serial_send_packet (\<lambda>_. Inr ()) i w = (Inr out, w') \<and> world_inv env F w' \<and> net_keeps w w' \<and>
    net_owner (w_net w') = net_owner (w_net w) \<and>
    w' = w\<lparr>w_net := (w_net w)\<lparr>net_conns := (net_conns (w_net w))(ser_connection i \<mapsto> popped conn)\<rparr>\<rparr> \<and>
    out = (case head_of (w_net w) (ser_connection i) of None \<Rightarrow> [] | Some p \<Rightarrow> [pkt_data p])"
proof -
  let ?c = "ser_connection i"
  let ?n = "(w_net w)\<lparr>net_conns := (net_conns (w_net w))(?c \<mapsto> popped conn)\<rparr>"
  note nx = next_packet_head [OF assms(2,3)]
  have free: "net_owner (w_net w) d \<noteq> None \<Longrightarrow> d \<noteq> ?c" for d using assms(4) by auto
  have acc: "accounted (w_net w)" using assms(1) by (simp add: world_inv_def)
  have "counted ?n f = counted (w_net w) f" for f
    unfolding counted_def using assms(4) by (intro sum.cong) (auto simp: owned_def queued_def)
  moreover have "owned ?n f = owned (w_net w) f" for f by (simp add: owned_def)
  ultimately have "accounted ?n"
    using acc assms(4) by (auto simp: accounted_def)
  moreover have "conn_inv F (popped conn) \<and> ?c < w_next w"
    using assms(1,2) popped_inv(1) [OF assms(3)] by (simp add: world_inv_def)
  ultimately have "world_inv env F (w\<lparr>w_net := ?n\<rparr>)" using assms(1) by (simp add: world_inv_def)
  moreover have "net_keeps w (w\<lparr>w_net := ?n\<rparr>)"
    using assms(2) popped_inv(2) [OF assms(3)] by (auto simp: net_keeps_def) (simp_all add: keeps_def)
  moreover have "serial_send_packet (\<lambda>_. Inr ()) i w =
      (Inr (case head_of (w_net w) ?c of None \<Rightarrow> [] | Some p \<Rightarrow> [pkt_data p]), w\<lparr>w_net := ?n\<rparr>)"
    using assms(2) nx(1) by (simp add: serial_send_packet_def Let_def split: option.split)
  ultimately show ?thesis by (intro exI [of _ "w\<lparr>w_net := ?n\<rparr>"] exI) simp
qed

lemma take_heads_keeps:
  assumes "udp_inv env F (i, w)" "n' = (take_heads (udp_connections i) (w_net w))\<lparr>net_sems := s\<rparr>"
  shows "net_keeps w (w\<lparr>w_net := n'\<rparr>)"
  unfolding net_keeps_def
proof (intro allI impI)
  fix c conn
  assume c: "net_conns (w_net w) c = Some conn"
  show "\<exists>conn'. net_conns (w_net (w\<lparr>w_net := n'\<rparr>)) c = Some conn' \<and> keeps conn conn' \<and>
      (c \<in> set (w_pool w) \<longrightarrow> c \<in> set (w_pool (w\<lparr>w_net := n'\<rparr>)))"
  proof (cases "c \<in> snd ` set (udp_connections i)")
    case True
    then obtain ip where "(ip, c) \<in> set (udp_connections i)" by auto
    then have "pq_running (conn_queue conn)" using assms(1) c by (fastforce simp: udp_inv_def Let_def)
    then show ?thesis using True c popped_inv(2) by (simp add: assms(2) take_heads_def)
  next
    case False
    then show ?thesis using c by (simp add: assms(2) take_heads_def keeps_def)
  qed
qed

lemma link_send_ok:
  assumes "system_inv env F sy" "admissible env sy (Transmit k)"
  shows "\<exists>w. link_send (sy_links sy ! k) (sy_world sy) = (Inr (), w) \<and> world_inv env F w \<and>
    net_keeps (sy_world sy) w \<and> owners_kept {k} (sy_world sy) w \<and> link_inv env F w k (sy_links sy ! k)"
proof -
  let ?w = "sy_world sy"
  have adm: "k < length (sy_links sy)" "counted (w_net ?w) k < 2 ^ 64" using assms(2) by auto
  have inv: "link_inv env F ?w k (sy_links sy ! k)" "world_inv env F ?w"
    using assms(1) adm(1) by (simp_all add: system_inv_def)
  show ?thesis
  proof (cases "sy_links sy ! k")
    case (SerialLink port i)
    obtain conn where conn: "net_conns (w_net ?w) (ser_connection i) = Some conn" "pq_running (conn_queue conn)"
        "net_owner (w_net ?w) (ser_connection i) = None" "parser_inv (env_mavlink env) (ser_parser i)"
        "ser_connection i \<in> set (w_pool ?w)"
      using inv(1) SerialLink by (auto simp: link_inv_def)
    obtain out w' where w': "serial_send_packet (\<lambda>_. Inr ()) i ?w = (Inr out, w')" "world_inv env F w'" "net_keeps ?w w'"
        "net_owner (w_net w') = net_owner (w_net ?w)"
      using serial_send_ok [OF inv(2) conn(1-3)] by blast
    obtain conn' where "net_conns (w_net w') (ser_connection i) = Some conn'" "pq_running (conn_queue conn')"
        "ser_connection i \<in> set (w_pool w')"
      using w'(3) conn(1,2,5) unfolding net_keeps_def keeps_def by blast
    then have "link_inv env F w' k (SerialLink port i)"
      using w'(2,4) conn(3,4) by (simp add: link_inv_def serial_inv_def)
    then show ?thesis using w' owners_kept_same [OF w'(4)] SerialLink by (simp add: link_send_def)
  next
    case (UDPLink socket i)
    have pre: "udp_inv env F (i, ?w)" "parser_inv (env_mavlink env) (udp_parser i)" "cf_number (udp_factory i) = k"
      using inv(1) UDPLink by (auto simp: link_inv_def)
    have "counted (w_net ?w) (cf_number (udp_factory i)) < 2 ^ 64" using adm(2) pre(3) by simp
    then obtain n' where n': "udp_send_packet (\<lambda>_ _. Inr ()) i ?w = (Inr (heads (w_net ?w) (udp_connections i)), ?w\<lparr>w_net := n'\<rparr>)"
        "n' = (take_heads (udp_connections i) (w_net ?w))\<lparr>net_sems := net_sems n'\<rparr>"
        "udp_inv env F (i, ?w\<lparr>w_net := n'\<rparr>)"
      using udp_send_ok [OF pre(1), of "\<lambda>_ _. Inr ()"] by auto
    have own: "net_owner n' = net_owner (w_net ?w)" by (subst n'(2)) simp
    have "net_keeps ?w (?w\<lparr>w_net := n'\<rparr>)" by (rule take_heads_keeps [OF pre(1) n'(2)])
    moreover have "owners_kept {k} ?w (?w\<lparr>w_net := n'\<rparr>)" by (rule owners_kept_same) (simp add: own)
    moreover have "world_inv env F (?w\<lparr>w_net := n'\<rparr>)" using n'(3) by (simp add: udp_inv_def Let_def)
    moreover have "link_inv env F (?w\<lparr>w_net := n'\<rparr>) k (UDPLink socket i)"
      using n'(3) pre(2,3) by (simp add: link_inv_def)
    ultimately show ?thesis using n'(1) UDPLink by (simp add: link_send_def)
  qed
qed

lemma system_step_ok:
  assumes "system_inv env F sy" "admissible env sy e"
  shows "\<exists>sy'. system_step env e sy = (Inr (), sy') \<and> system_inv env F sy'"
proof (cases e)
  case (Receive k clk buffer ip)
  have k: "k < length (sy_links sy)" using assms(2) Receive by simp
  obtain l w where l: "link_receive env clk buffer ip (sy_links sy ! k) (sy_world sy) = (Inr (), l, w)"
      "world_inv env F w" "net_keeps (sy_world sy) w" "owners_kept {k} (sy_world sy) w" "link_inv env F w k l"
    using link_receive_ok [OF assms(1)] assms(2) Receive by blast
  show ?thesis using system_inv_step [OF assms(1) k l(2-5)] l(1) Receive by simp
next
  case (Transmit k)
  have k: "k < length (sy_links sy)" using assms(2) Transmit by simp
  obtain w where w: "link_send (sy_links sy ! k) (sy_world sy) = (Inr (), w)" "world_inv env F w"
      "net_keeps (sy_world sy) w" "owners_kept {k} (sy_world sy) w" "link_inv env F w k (sy_links sy ! k)"
    using link_send_ok [OF assms(1)] assms(2) Transmit by blast
  have "sy\<lparr>sy_world := w\<rparr> = \<lparr>sy_links = (sy_links sy)[k := sy_links sy ! k], sy_world = w\<rparr>"
    by (cases sy) simp
  then have "system_inv env F (sy\<lparr>sy_world := w\<rparr>)"
    using system_inv_step [OF assms(1) k w(2-5)] by (simp only:)
  then show ?thesis using w(1) Transmit by simp
qed

lemma system_run_ok:
  "system_inv env F sy \<Longrightarrow> admissible_run env sy es \<Longrightarrow>
   \<exists>sy'. system_run env es sy = (Inr (), sy') \<and> system_inv env F sy'"
proof (induction es arbitrary: sy)
  case (Cons e es)
  obtain sy1 where "system_step env e sy = (Inr (), sy1)" "system_inv env F sy1"
    using system_step_ok [OF Cons.prems(1), of e] Cons.prems(2) by auto
  then show ?case using Cons by auto
qed simp

text \<open>A run in time is admissible unless a packet that is too short arrives.\<close>

lemma admissible_run_or_short:
  "system_inv env F sy \<Longrightarrow> mavlink_tables_agree (env_mavlink env) \<Longrightarrow> timely_run env sy es \<Longrightarrow>
   admissible_run env sy es \<or> short_received env (run_input env es sy)"
proof (induction es arbitrary: sy)
  case (Cons e es)
  show ?case
  proof (cases "admissible env sy e")
    case True
    then obtain sy1 where sy1: "system_step env e sy = (Inr (), sy1)" "system_inv env F sy1"
      using system_step_ok [OF Cons.prems(1)] by blast
    then have "admissible_run env sy1 es \<or> short_received env (run_input env es sy1)"
      using Cons.IH [OF sy1(2) Cons.prems(2)] Cons.prems(3) by (simp del: system_step.simps)
    then show ?thesis using True sy1(1) by (auto simp del: system_step.simps admissible.simps event_input.simps)
  next
    case False
    have "timely sy e" using Cons.prems(3) by (simp del: timely.simps)
    from admissible_or_short [OF Cons.prems(2) this False] show ?thesis by (simp del: event_input.simps)
  qed
qed simp

lemma admissible_run_timely:
  "system_inv env F sy \<Longrightarrow> admissible_run env sy es \<Longrightarrow> timely_run env sy es"
proof (induction es arbitrary: sy)
  case (Cons e es)
  then obtain sy1 where "system_step env e sy = (Inr (), sy1)" "system_inv env F sy1"
    using system_step_ok [OF Cons.prems(1), of e] by auto
  then show ?case
    using Cons timely_admissible [of env sy e] by (simp del: system_step.simps timely.simps admissible.simps)
qed simp

lemma built_system:
  assumes "built env F made w"
  shows "system_inv env F \<lparr>sy_links = made, sy_world = w\<rparr>"
proof -
  have w: "world_inv env F w" "net_owner (w_net w) = (\<lambda>_. None)" using assms by (auto simp: built_def unowned_def)
  have "link_inv env F w k (made ! k)" if k: "k < length made" for k
  proof -
    have l: "link_built F w k (made ! k)" using assms k by (simp add: built_def)
    show ?thesis
      using built_link_inv [OF assms k] l w(2) parser_inv_initial
      by (cases "made ! k") (auto simp: link_inv_def link_built_def)
  qed
  then show ?thesis using w(1) by (simp add: system_inv_def)
qed

section \<open>Properties\<close>

definition system_of :: "App \<Rightarrow> world \<Rightarrow> system" where
  "system_of app w = \<lparr>sy_links = map fst app, sy_world = w\<rparr>"

text \<open>C11: the whole program, from the configuration file on.  If the chains do not refer to each other in
  a circle, then whatever bytes arrive on whichever interfaces and in whatever order the threads receive
  and send, no exception is raised and every interface keeps its invariant: the filter decides every
  packet, every semaphore counts the packets waiting on its interface's connections, every address
  has its one connection.  The one exception to this is the version 1 packet too short for a target field of
  its message, which the program lets in and reads past the end of.  The calls are taken one at a time, each
  packet is handled within the two minutes an address lives, fewer than \<open>2 ^ 64\<close> packets wait on an
  interface, and the devices take what they are given.\<close>

theorem program_runs:
  assumes "make_app sys tok split_colon env clk root s = (Inr app, s', w)" "config_ranked rank root"
    "\<forall>k i. readings_ok (clk k i)" "mavlink_tables_agree (env_mavlink env)"
    "timely_run env (system_of app w) es"
  shows "\<exists>F. parse_filter (env_mavlink env) tok root = Inr F \<and>
    ((\<exists>sy. system_run env es (system_of app w) = (Inr (), sy) \<and> system_inv env F sy) \<or>
     short_received env (run_input env es (system_of app w)))"
proof -
  from make_app_built [OF assms(1-3)] obtain F where F: "parse_filter (env_mavlink env) tok root = Inr F"
      "built env F (map fst app) w" by blast
  have inv: "system_inv env F (system_of app w)" using built_system [OF F(2)] by (simp add: system_of_def)
  then show ?thesis using admissible_run_or_short [OF inv assms(4,5)] system_run_ok F(1) by blast
qed

lemma transmit_links [simp]: "sy_links (snd (system_step env (Transmit k) sy)) = sy_links sy"
  by (simp split: prod.split)

definition sample_events :: "event list" where
  "sample_events = [Receive 0 (sample_readings 0) sample_heartbeat (MkIPAddress 1 14550), Transmit 1]"

text \<open>A program with a UDP interface and a serial port, in this order.\<close>

lemma two_links:
  assumes "make_app sys (\<lambda>_. []) (\<lambda>_. []) sample_env sample_readings root s = (Inr app, s', w)"
    "config_ranked rank root" "map node_name (filter is_link root) = [''config::udp'', ''config::serial'']"
  shows "\<exists>F socket i l1. built sample_env F (map fst app) w \<and> map fst app = [UDPLink socket i, l1] \<and>
    udp_connections i = [] \<and>
    (\<forall>ip. datagram_frames common_mavlink sample_heartbeat ip i = [(V1, sample_heartbeat)])"
proof -
  from make_app_built [OF assms(1,2) sample_readings_ok] obtain F where F: "built sample_env F (map fst app) w"
      "map link_kind (map fst app) = [''config::udp'', ''config::serial'']" unfolding assms(3) by blast
  obtain l0 l1 where links: "map fst app = [l0, l1]" "link_kind l0 = ''config::udp''"
    using F(2) by (auto simp: Cons_eq_map_conv map_eq_Cons_conv)
  obtain socket i where l0: "l0 = UDPLink socket i" using links(2) by (cases l0) (auto simp: link_kind_def)
  have "\<forall>k < 2. link_built F w k ([l0, l1] ! k)" using F(1) links(1) by (simp add: built_def)
  then have "link_built F w 0 l0" by (elim allE [of _ 0]) simp
  then have i: "carried ip i = []" "udp_connections i = []" for ip
    by (simp_all add: l0 link_built_def carried_def parser_initial_def)
  then have "datagram_frames common_mavlink sample_heartbeat ip i = [(V1, sample_heartbeat)]" for ip
    using sample_run by (simp add: datagram_frames_def)
  then show ?thesis
    using F(1) links(1) l0 i(2) by (intro exI [of _ F] exI [of _ socket] exI [of _ i] exI [of _ l1]) simp
qed

lemma two_links_admissible:
  assumes "make_app sys (\<lambda>_. []) (\<lambda>_. []) sample_env sample_readings root s = (Inr app, s', w)"
    "config_ranked rank root" "map node_name (filter is_link root) = [''config::udp'', ''config::serial'']"
  shows "admissible_run sample_env (system_of app w) sample_events"
proof -
  let ?e = "Receive 0 (sample_readings 0) sample_heartbeat (MkIPAddress 1 14550)"
  obtain F socket i l1 where F: "built sample_env F (map fst app) w" "map fst app = [UDPLink socket i, l1]"
      "\<forall>ip. datagram_frames common_mavlink sample_heartbeat ip i = [(V1, sample_heartbeat)]"
    using two_links [OF assms] by (elim exE conjE) (rule that)
  have sy: "sy_links (system_of app w) = [UDPLink socket i, l1]" by (simp add: system_of_def F(2))
  have adm: "admissible sample_env (system_of app w) ?e"
    using sample_readings_ok sample_routable F(3) by (simp add: sy)
  have inv: "system_inv sample_env F (system_of app w)" using built_system [OF F(1)] by (simp add: system_of_def)
  obtain l w1 where l: "link_receive sample_env (sample_readings 0) sample_heartbeat (MkIPAddress 1 14550)
        (sy_links (system_of app w) ! 0) (sy_world (system_of app w)) = (Inr (), l, w1)"
      "owners_kept {0} (sy_world (system_of app w)) w1"
    using link_receive_ok [OF inv adm] by blast
  have "net_owner (w_net w) = (\<lambda>_. None)" using F(1) by (simp add: built_def unowned_def)
  then have "owned (w_net w1) 1 = {}" using l(2) by (auto simp: owned_def owners_kept_def system_of_def)
  then have "counted (w_net w1) 1 = 0" by (simp add: counted_def)
  then have "admissible sample_env (snd (system_step sample_env ?e (system_of app w))) (Transmit 1)"
    using l(1) by (simp add: sy)
  then show ?thesis using adm by (simp add: sample_events_def del: system_step.simps admissible.simps)
qed

lemma sample_admissible:
  "make_app (table_os 0) (\<lambda>_. []) (\<lambda>_. []) sample_env sample_readings sample_links [] = (Inr app, s', w) \<Longrightarrow>
   admissible_run sample_env (system_of app w) sample_events"
  by (rule two_links_admissible [OF _ sample_ranked]) (simp_all add: sample_links_def sample_tree_def is_link_def)

lemma two_links_input:
  assumes "make_app sys (\<lambda>_. []) (\<lambda>_. []) sample_env sample_readings root s = (Inr app, s', w)"
    "config_ranked rank root" "map node_name (filter is_link root) = [''config::udp'', ''config::serial'']"
  shows "timely_run sample_env (system_of app w) sample_events"
    "\<not> short_received sample_env (run_input sample_env sample_events (system_of app w))"
proof -
  obtain F socket i l1 where F: "built sample_env F (map fst app) w" "map fst app = [UDPLink socket i, l1]"
      "\<forall>ip. datagram_frames common_mavlink sample_heartbeat ip i = [(V1, sample_heartbeat)]"
    using two_links [OF assms] by (elim exE conjE) (rule that)
  have inv: "system_inv sample_env F (system_of app w)" using built_system [OF F(1)] by (simp add: system_of_def)
  show "timely_run sample_env (system_of app w) sample_events"
    by (rule admissible_run_timely [OF inv two_links_admissible [OF assms]])
  have "\<not> v1_too_short common_mavlink heartbeat"
    using dest_or_short [OF heartbeat_wf common_tables_agree] by (simp add: heartbeat_queries)
  then show "\<not> short_received sample_env (run_input sample_env sample_events (system_of app w))"
    using F(2,3) by (simp add: sample_events_def short_received_def system_of_def link_packets_def heartbeat_frames
        del: system_step.simps)
qed

lemma sample_link_kinds: "map node_name (filter is_link sample_links) = [''config::udp'', ''config::serial'']"
  by (simp add: sample_links_def sample_tree_def is_link_def)

theorem program_runs_witness:
  "\<exists>app s' w sy. make_app (table_os 0) (\<lambda>_. []) (\<lambda>_. []) sample_env sample_readings sample_links [] = (Inr app, s', w) \<and>
     system_run sample_env sample_events (system_of app w) = (Inr (), sy)"
proof -
  obtain app s' w where a: "make_app (table_os 0) (\<lambda>_. []) (\<lambda>_. []) sample_env sample_readings sample_links [] = (Inr app, s', w)"
    using sample_app by blast
  have tables: "mavlink_tables_agree (env_mavlink sample_env)" using common_tables_agree by simp
  note input = two_links_input [OF a sample_ranked sample_link_kinds]
  from program_runs [OF a sample_ranked sample_readings_ok tables input(1)] input(2) a show ?thesis by blast
qed

end
