(* ===== verification/Forwarding.thy ===== *)
theory Forwarding
  imports System
begin

text \<open>
  What the whole program sends is what it received.  The packets that come in and the bytes that
  go out are read off a run of the theory \<open>System\<close> at the endpoints of the router: a serial link, or an
  address on a UDP link.
\<close>

section \<open>The traffic of a run\<close>

text \<open>What a call of \<open>send_packet\<close> gives to the device.\<close>

definition link_output :: "Interface \<Rightarrow> world \<Rightarrow> (IPAddress option \<times> u8 list) list" where
  "link_output l w =
     (case l of
        SerialLink port i \<Rightarrow>
          (case fst (serial_send_packet (\<lambda>_. Inr ()) i w) of
             Inl e \<Rightarrow> []
           | Inr out \<Rightarrow> map (\<lambda>d. (None, d)) out)
      | UDPLink socket i \<Rightarrow>
          (case fst (udp_send_packet (\<lambda>_ _. Inr ()) i w) of
             Inl e \<Rightarrow> []
           | Inr out \<Rightarrow> map (\<lambda>(d, ip). (Some ip, d)) out))"

fun event_output :: "event \<Rightarrow> system \<Rightarrow> (endpoint \<times> u8 list) list" where
  "event_output (Receive k clk buffer ip) sy = []"
| "event_output (Transmit k) sy =
     map (\<lambda>(a, d). ((k, a), d)) (link_output (sy_links sy ! k) (sy_world sy))"

fun run_output :: "environment \<Rightarrow> event list \<Rightarrow> system \<Rightarrow> (endpoint \<times> u8 list) list" where
  "run_output env [] sy = []"
| "run_output env (e # es) sy = event_output e sy @ run_output env es (snd (system_step env e sy))"

text \<open>
  The bytes sent to an endpoint, and the bytes of the packets that came from the other endpoints and
  that the filter accepts for some address.
\<close>

definition sent_out :: "endpoint \<Rightarrow> (endpoint \<times> u8 list) list \<Rightarrow> u8 list multiset" where
  "sent_out x outs = mset (map snd (filter (\<lambda>y. fst y = x) outs))"

definition from_others ::
  "environment \<Rightarrow> Filter \<Rightarrow> endpoint \<Rightarrow> (endpoint \<times> Packet) list \<Rightarrow> u8 list multiset" where
  "from_others env F x ins = through env F (\<lambda>_. {}) (map snd (filter (\<lambda>y. fst y \<noteq> x) ins))"

text \<open>What waits for an endpoint.\<close>

definition endpoint_conn :: "Interface list \<Rightarrow> endpoint \<Rightarrow> nat option" where
  "endpoint_conn links x =
     (if fst x < length links
      then (case links ! fst x of
              SerialLink port i \<Rightarrow> (if snd x = None then Some (ser_connection i) else None)
            | UDPLink socket i \<Rightarrow> Option.bind (snd x) (map_of (udp_connections i)))
      else None)"

definition conn_waiting :: "network \<Rightarrow> nat option \<Rightarrow> u8 list multiset" where
  "conn_waiting n c = (case Option.bind c (net_conns n) of None \<Rightarrow> {#} | Some conn \<Rightarrow> queue_data conn)"

definition waiting :: "system \<Rightarrow> endpoint \<Rightarrow> u8 list multiset" where
  "waiting sy x = conn_waiting (w_net (sy_world sy)) (endpoint_conn (sy_links sy) x)"

lemma sent_out_simps [simp]:
  "sent_out x [] = {#}" "sent_out x (outs @ outs') = sent_out x outs + sent_out x outs'"
  by (simp_all add: sent_out_def)

lemma from_others_simps [simp]:
  "from_others env F x [] = {#}" "from_others env F x (ins @ ins') = from_others env F x ins + from_others env F x ins'"
  by (simp_all add: from_others_def)

lemma from_others_event:
  "from_others env F x (map (Pair y) ps) = (if x = y then {#} else through env F (\<lambda>_. {}) ps)"
  by (simp add: from_others_def filter_map o_def)

section \<open>Receiving\<close>

lemma endpoint_conn_exists:
  assumes "system_inv env F sy" "endpoint_conn (sy_links sy) x = Some c"
  shows "\<exists>conn. net_conns (w_net (sy_world sy)) c = Some conn \<and> pq_running (conn_queue conn)"
proof -
  let ?l = "sy_links sy ! fst x"
  have k: "fst x < length (sy_links sy)" using assms(2) by (simp add: endpoint_conn_def split: if_splits)
  then have inv: "link_inv env F (sy_world sy) (fst x) ?l" using assms(1) by (simp add: system_inv_def)
  show ?thesis
  proof (cases ?l)
    case (SerialLink port i)
    then show ?thesis using inv assms(2) k by (auto simp: link_inv_def endpoint_conn_def split: if_splits)
  next
    case (UDPLink socket i)
    then obtain ip where "map_of (udp_connections i) ip = Some c"
      using assms(2) k by (auto simp: endpoint_conn_def bind_eq_Some_conv)
    then have "(ip, c) \<in> set (udp_connections i)" by (rule map_of_SomeD)
    then show ?thesis using inv UDPLink by (fastforce simp: link_inv_def udp_inv_def Let_def)
  qed
qed

lemma conn_waiting_gains:
  assumes "gains env F ps w w'" "net_guards (w_net w) = (\<lambda>_. {})"
    "c = None \<or> Option.bind c (net_conns (w_net w)) \<noteq> None"
  shows "conn_waiting (w_net w') c \<subseteq># conn_waiting (w_net w) c + through env F (\<lambda>_. {}) ps"
proof (cases "Option.bind c (net_conns (w_net w))")
  case None
  then show ?thesis using assms(3) by (simp add: conn_waiting_def)
next
  case (Some conn)
  then obtain d where d: "c = Some d" "net_conns (w_net w) d = Some conn" by (auto simp: bind_eq_Some_conv)
  then obtain conn' where "net_conns (w_net w') d = Some conn'"
      "queue_data conn' \<subseteq># queue_data conn + through env F (\<lambda>_. {}) ps"
    using assms(1,2) unfolding gains_def by metis
  then show ?thesis using d by (simp add: conn_waiting_def)
qed

text \<open>
  A block of bytes: the other endpoints keep their connections, and the queue of the endpoint the
  block came from does not change.
\<close>

lemma link_receive_serial:
  assumes "system_inv env F sy" "admissible env sy (Receive k clk buffer ip)" "sy_links sy ! k = SerialLink port i"
    "link_receive env clk buffer ip (sy_links sy ! k) (sy_world sy) = (r, l, w)"
  shows "gains env F (link_packets env buffer ip (sy_links sy ! k)) (sy_world sy) w"
    "endpoint_conn ((sy_links sy)[k := l]) x = endpoint_conn (sy_links sy) x"
    "conn_waiting (w_net w) (endpoint_conn (sy_links sy) (k, None)) = waiting sy (k, None)"
proof -
  have k: "k < length (sy_links sy)" using assms(2) by simp
  have inv: "link_inv env F (sy_world sy) k (SerialLink port i)"
    using assms(1,3) k by (metis system_inv_def)
  have pre: "serial_inv env F (i, sy_world sy)" "parser_inv (env_mavlink env) (ser_parser i)"
      "\<forall>i. readings_ok (clk i)"
      "routable (env_mavlink env) (fst (spec_run (env_mavlink env) buffer (pp_buffer (ser_parser i))))"
    using inv assms(2,3) by (simp_all add: link_inv_def)
  obtain i' where l: "l = SerialLink port i'" "ser_connection i' = ser_connection i"
      "serial_queue (i', w) = serial_queue (i, sy_world sy)"
      "gains env F (packets_of (env_mavlink env)
        (fst (spec_run (env_mavlink env) buffer (pp_buffer (ser_parser i))))) (sy_world sy) w"
    using serial_receive_ok [OF pre] assms(3,4) by (auto simp: link_receive_def)
  show "gains env F (link_packets env buffer ip (sy_links sy ! k)) (sy_world sy) w"
    using l(4) by (simp add: link_packets_def assms(3))
  show "endpoint_conn ((sy_links sy)[k := l]) x = endpoint_conn (sy_links sy) x"
    using l(1,2) assms(3) by (cases "fst x = k") (simp_all add: endpoint_conn_def)
  show "conn_waiting (w_net w) (endpoint_conn (sy_links sy) (k, None)) = waiting sy (k, None)"
    using l(2,3) k assms(3)
    by (auto simp: waiting_def conn_waiting_def endpoint_conn_def serial_queue_def queue_data_def split: option.splits)
qed

lemma udp_lookup_kept:
  assumes "map_of (udp_connections u) \<subseteq>\<^sub>m map_of (udp_connections u')"
    "udp_known (u', w') \<subseteq> insert ip (udp_known (u, w))" "jp \<noteq> ip"
  shows "map_of (udp_connections u') jp = map_of (udp_connections u) jp"
proof (cases "map_of (udp_connections u) jp")
  case None
  then have "jp \<notin> fst ` set (udp_connections u)" by (simp add: map_of_eq_None_iff)
  then have "jp \<notin> fst ` set (udp_connections u')" using assms(2,3) by (auto simp: udp_known_def)
  then have "map_of (udp_connections u') jp = None" by (simp add: map_of_eq_None_iff)
  then show ?thesis using None by simp
next
  case (Some c)
  then show ?thesis using assms(1) by (auto simp: map_le_def dom_def)
qed

lemma link_receive_udp:
  assumes "system_inv env F sy" "admissible env sy (Receive k clk buffer ip)" "sy_links sy ! k = UDPLink socket i"
    "link_receive env clk buffer ip (sy_links sy ! k) (sy_world sy) = (r, l, w)"
  shows "gains env F (link_packets env buffer ip (sy_links sy ! k)) (sy_world sy) w"
    "x \<noteq> (k, Some ip) \<Longrightarrow> endpoint_conn ((sy_links sy)[k := l]) x = endpoint_conn (sy_links sy) x"
    "conn_waiting (w_net w) (endpoint_conn ((sy_links sy)[k := l]) (k, Some ip)) = waiting sy (k, Some ip)"
proof -
  have k: "k < length (sy_links sy)" using assms(2) by simp
  have inv: "link_inv env F (sy_world sy) k (UDPLink socket i)"
    using assms(1,3) k by (metis system_inv_def)
  have pre: "udp_inv env F (i, sy_world sy)" "parser_inv (env_mavlink env) (udp_parser i)"
      "\<forall>i. readings_ok (clk i)"
      "routable (env_mavlink env) (datagram_frames (env_mavlink env) buffer ip i)"
    using inv assms(2,3) by (simp_all add: link_inv_def)
  obtain i' where l: "l = UDPLink socket i'" "sender_queue ip (i', w) = sender_queue ip (i, sy_world sy)"
      "map_of (udp_connections i) \<subseteq>\<^sub>m map_of (udp_connections i')"
      "gains env F (packets_of (env_mavlink env) (datagram_frames (env_mavlink env) buffer ip i)) (sy_world sy) w"
      "udp_known (i', w) = (if packets_of (env_mavlink env) (datagram_frames (env_mavlink env) buffer ip i) = []
         then udp_known (i, sy_world sy) else insert ip (udp_known (i, sy_world sy)))"
    using udp_receive_ok [OF pre] assms(3,4) by (auto simp: link_receive_def Let_def)
  have known: "udp_known (i', w) \<subseteq> insert ip (udp_known (i, sy_world sy))" using l(5) by auto
  show "gains env F (link_packets env buffer ip (sy_links sy ! k)) (sy_world sy) w"
    using l(4) by (simp add: link_packets_def assms(3))
  have same: "jp \<noteq> ip \<Longrightarrow> map_of (udp_connections i') jp = map_of (udp_connections i) jp" for jp
    by (rule udp_lookup_kept [OF l(3) known])
  show "endpoint_conn ((sy_links sy)[k := l]) x = endpoint_conn (sy_links sy) x" if "x \<noteq> (k, Some ip)"
    using l(1) assms(3) that same k
    by (cases x; cases "fst x = k"; cases "snd x") (simp_all add: endpoint_conn_def)
  show "conn_waiting (w_net w) (endpoint_conn ((sy_links sy)[k := l]) (k, Some ip)) = waiting sy (k, Some ip)"
    using l(1,2) k assms(3)
    by (auto simp: waiting_def conn_waiting_def endpoint_conn_def sender_queue_def queue_data_def split: option.splits)
qed

lemma receive_waiting:
  assumes "system_inv env F sy" "admissible env sy (Receive k clk buffer ip)"
    "net_guards (w_net (sy_world sy)) = (\<lambda>_. {})"
  defines "e \<equiv> Receive k clk buffer ip"
  shows "waiting (snd (system_step env e sy)) x \<subseteq># waiting sy x + from_others env F x (event_input env e sy)"
    "net_guards (w_net (sy_world (snd (system_step env e sy)))) = (\<lambda>_. {})"
proof -
  let ?y = "link_endpoint k ip (sy_links sy ! k)" and ?ps = "link_packets env buffer ip (sy_links sy ! k)"
  obtain r l w where run: "link_receive env clk buffer ip (sy_links sy ! k) (sy_world sy) = (r, l, w)"
    by (metis prod_cases3)
  then have step: "snd (system_step env e sy) = \<lparr>sy_links = (sy_links sy)[k := l], sy_world = w\<rparr>"
    by (simp add: e_def)
  have all: "gains env F ?ps (sy_world sy) w"
      "x \<noteq> ?y \<Longrightarrow> endpoint_conn ((sy_links sy)[k := l]) x = endpoint_conn (sy_links sy) x"
      "conn_waiting (w_net w) (endpoint_conn ((sy_links sy)[k := l]) ?y) = waiting sy ?y"
    using link_receive_serial [OF assms(1,2) _ run] link_receive_udp [OF assms(1,2) _ run]
    by (cases "sy_links sy ! k"; simp add: link_endpoint_def)+
  show "net_guards (w_net (sy_world (snd (system_step env e sy)))) = (\<lambda>_. {})"
    using all(1) assms(3) by (simp add: step gains_def)
  show "waiting (snd (system_step env e sy)) x \<subseteq># waiting sy x + from_others env F x (event_input env e sy)"
  proof (cases "x = ?y")
    case True
    then show ?thesis using all(3) by (simp add: step waiting_def)
  next
    case False
    have "endpoint_conn (sy_links sy) x = None \<or>
        Option.bind (endpoint_conn (sy_links sy) x) (net_conns (w_net (sy_world sy))) \<noteq> None"
      using endpoint_conn_exists [OF assms(1), of x] by (cases "endpoint_conn (sy_links sy) x") auto
    from conn_waiting_gains [OF all(1) assms(3) this] show ?thesis
      using all(2) False unfolding step waiting_def by (simp add: e_def from_others_event)
  qed
qed

section \<open>Sending\<close>

lemma queue_data_popped:
  assumes "net_conns n c = Some conn" "pq_running (conn_queue conn)"
  shows "queue_data conn =
    queue_data (popped conn) + (case head_of n c of None \<Rightarrow> {#} | Some p \<Rightarrow> {#pkt_data p#})"
proof (cases "pq_queue (conn_queue conn) = []")
  case True
  then show ?thesis
    using assms by (simp add: queue_data_def popped_def next_packet_def pq_get_packet_def head_of_def Let_def)
next
  case False
  then obtain x xs where q: "pq_queue (conn_queue conn) = x # xs" by (cases "pq_queue (conn_queue conn)") auto
  have "pq_top (x # xs) \<in># mset (x # xs)" using pq_top_in [of "x # xs"] by simp
  then have "mset (x # xs) = add_mset (pq_top (x # xs)) (mset (pq_pop (x # xs)))"
    by (simp only: pq_pop_def mset_remove1 insert_DiffM)
  from arg_cong [OF this, of "image_mset (\<lambda>q. pkt_data (qp_packet q))"] show ?thesis
    using assms q by (simp add: queue_data_def popped_def next_packet_def pq_get_packet_def head_of_def Let_def)
qed

text \<open>Taking packets off some queues takes nothing away from the others.\<close>

lemma conn_waiting_popped:
  assumes "\<And>d conn. net_conns n d = Some conn \<Longrightarrow> net_conns n' d = Some conn \<or>
      (pq_running (conn_queue conn) \<and> net_conns n' d = Some (popped conn))"
    "\<And>d. net_conns n d = None \<Longrightarrow> net_conns n' d = None"
  shows "conn_waiting n' c \<subseteq># conn_waiting n c"
proof (cases c)
  case (Some d)
  show ?thesis
  proof (cases "net_conns n d")
    case None
    then show ?thesis using Some assms(2) by (simp add: conn_waiting_def)
  next
    case conn: (Some conn)
    then show ?thesis
      using Some assms(1) [OF conn] queue_data_popped [OF conn]
      by (auto simp: conn_waiting_def)
  qed
qed (simp add: conn_waiting_def)

lemma sent_out_single [simp]: "sent_out x [(y, d)] = (if y = x then {#d#} else {#})"
  by (simp add: sent_out_def)

text \<open>
  What a call of \<open>send_packet\<close> on the link \<open>k\<close> does: each endpoint of the link is sent the next packet of
  its connection, which is taken off the queue, and nothing else changes.
\<close>

definition serves :: "system \<Rightarrow> nat \<Rightarrow> world \<Rightarrow> endpoint \<Rightarrow> bool" where
  "serves sy k w x \<longleftrightarrow>
     (let n = w_net (sy_world sy); out = sent_out x (event_output (Transmit k) sy) in
      case endpoint_conn (sy_links sy) x of
        None \<Rightarrow> out = {#}
      | Some c \<Rightarrow>
          if fst x = k
          then net_conns (w_net w) c = map_option popped (net_conns n c) \<and>
               out = (case head_of n c of None \<Rightarrow> {#} | Some p \<Rightarrow> {#pkt_data p#})
          else out = {#})"

text \<open>The connections of a link.\<close>

definition link_conns :: "Interface \<Rightarrow> nat set" where
  "link_conns l =
     (case l of SerialLink port i \<Rightarrow> {ser_connection i} | UDPLink socket i \<Rightarrow> snd ` set (udp_connections i))"

definition took :: "system \<Rightarrow> nat \<Rightarrow> world \<Rightarrow> bool" where
  "took sy k w \<longleftrightarrow>
     (let n = w_net (sy_world sy); n' = w_net w in
      net_guards n' = net_guards n \<and>
      (\<forall>d conn. net_conns n d = Some conn \<longrightarrow>
         net_conns n' d = Some conn \<or> (pq_running (conn_queue conn) \<and> net_conns n' d = Some (popped conn))) \<and>
      (\<forall>d. net_conns n d = None \<longrightarrow> net_conns n' d = None) \<and>
      (\<forall>d. d \<notin> link_conns (sy_links sy ! k) \<longrightarrow> net_conns n' d = net_conns n d) \<and>
      (\<forall>x. serves sy k w x))"

lemma transmit_serial:
  assumes "system_inv env F sy" "k < length (sy_links sy)" "sy_links sy ! k = SerialLink port i"
    "link_send (sy_links sy ! k) (sy_world sy) = (r, w)"
  shows "took sy k w"
proof -
  let ?w = "sy_world sy" and ?c = "ser_connection i"
  have inv: "link_inv env F ?w k (SerialLink port i)" "world_inv env F ?w"
    using assms(1-3) by (metis system_inv_def)+
  then obtain conn where conn: "net_conns (w_net ?w) ?c = Some conn" "pq_running (conn_queue conn)"
      "net_owner (w_net ?w) ?c = None" by (auto simp: link_inv_def)
  let ?n = "(w_net ?w)\<lparr>net_conns := (net_conns (w_net ?w))(?c \<mapsto> popped conn)\<rparr>"
  have send: "serial_send_packet (\<lambda>_. Inr ()) i ?w =
      (Inr (case head_of (w_net ?w) ?c of None \<Rightarrow> [] | Some p \<Rightarrow> [pkt_data p]), ?w\<lparr>w_net := ?n\<rparr>)"
    using serial_send_ok [OF inv(2) conn] by auto
  then have w: "w = ?w\<lparr>w_net := ?n\<rparr>" using assms(3,4) by (simp add: link_send_def)
  have "sent_out x (event_output (Transmit k) sy) =
      (if x = (k, None) then (case head_of (w_net ?w) ?c of None \<Rightarrow> {#} | Some p \<Rightarrow> {#pkt_data p#}) else {#})" for x
    using assms(3) send by (auto simp: link_output_def split: option.split)
  moreover have "endpoint_conn (sy_links sy) x = (if x = (k, None) then Some ?c else None)" if "fst x = k" for x
    using that assms(2,3) by (cases x) (simp add: endpoint_conn_def)
  ultimately have "serves sy k w x" for x
    using conn by (cases "fst x = k") (auto simp: serves_def Let_def w simp del: event_output.simps split: option.split)
  then show ?thesis
    using conn assms(3) unfolding took_def Let_def by (auto simp: w link_conns_def)
qed

lemma sent_out_udp:
  assumes "sy_links sy ! k = UDPLink socket i"
    "udp_send_packet (\<lambda>_ _. Inr ()) i (sy_world sy) = (Inr out, w)"
  shows "sent_out x (event_output (Transmit k) sy) =
    (if fst x = k then (case snd x of None \<Rightarrow> {#} | Some ip \<Rightarrow> mset (sent_to ip out)) else {#})"
proof -
  have "event_output (Transmit k) sy = map (\<lambda>(d, ip). ((k, Some ip), d)) out"
    using assms by (simp add: link_output_def split_def)
  then show ?thesis
    by (cases x; cases "snd x") (auto simp: sent_out_def sent_to_def filter_map o_def split_def)
qed

lemma transmit_udp:
  assumes "system_inv env F sy" "admissible env sy (Transmit k)" "sy_links sy ! k = UDPLink socket i"
    "link_send (sy_links sy ! k) (sy_world sy) = (r, w)"
  shows "took sy k w"
proof -
  let ?w = "sy_world sy" and ?cs = "udp_connections i"
  have k: "k < length (sy_links sy)" using assms(2) by simp
  have "link_inv env F ?w k (UDPLink socket i)" using assms(1,3) k by (metis system_inv_def)
  then have inv: "udp_inv env F (i, ?w)" "cf_number (udp_factory i) = k" by (simp_all add: link_inv_def)
  have keys: "distinct (map fst ?cs)" using inv(1) cmap.distinct_keys [of ?cs] by (auto simp: udp_inv_def Let_def)
  have each: "\<exists>conn. net_conns (w_net ?w) c = Some conn \<and> pq_running (conn_queue conn)" if "(ip, c) \<in> set ?cs" for ip c
    using inv(1) that by (auto simp: udp_inv_def Let_def)
  have "counted (w_net ?w) (cf_number (udp_factory i)) < 2 ^ 64" using assms(2) inv(2) by simp
  then obtain n' where n': "udp_send_packet (\<lambda>_ _. Inr ()) i ?w = (Inr (heads (w_net ?w) ?cs), ?w\<lparr>w_net := n'\<rparr>)"
      "n' = (take_heads ?cs (w_net ?w))\<lparr>net_sems := net_sems n'\<rparr>"
    using udp_send_ok [OF inv(1), of "\<lambda>_ _. Inr ()"] by auto
  have w: "w = ?w\<lparr>w_net := n'\<rparr>" using assms(3,4) n'(1) by (simp add: link_send_def)
  have cs: "net_conns n' = net_conns (take_heads ?cs (w_net ?w))" by (subst n'(2)) simp
  have g: "net_guards n' = net_guards (w_net ?w)" by (subst n'(2)) (simp add: take_heads_def)
  have taken: "net_conns n' d = (if d \<in> snd ` set ?cs then map_option popped (net_conns (w_net ?w) d)
      else net_conns (w_net ?w) d)" for d
    by (simp add: cs take_heads_def)
  have old: "net_conns n' d = Some conn \<or> (pq_running (conn_queue conn) \<and> net_conns n' d = Some (popped conn))"
    if "net_conns (w_net ?w) d = Some conn" for d conn
    using that each taken [of d] by (cases "d \<in> snd ` set ?cs") fastforce+
  have "serves sy k w x" for x
  proof (cases "fst x = k")
    case True
    then have x: "endpoint_conn (sy_links sy) x = Option.bind (snd x) (map_of ?cs)"
      using k assms(3) by (simp add: endpoint_conn_def)
    show ?thesis
    proof (cases "snd x")
      case None
      then show ?thesis
        using True x by (simp add: serves_def sent_out_udp [OF assms(3) n'(1)] del: event_output.simps)
    next
      case (Some ip)
      have "map_of ?cs ip = Some c \<Longrightarrow> c \<in> snd ` set ?cs" for c by (force dest: map_of_SomeD)
      then show ?thesis
        using True x Some sent_to_heads [OF keys, of ip "w_net ?w"]
        by (auto simp: serves_def Let_def w sent_out_udp [OF assms(3) n'(1)] taken
            simp del: event_output.simps split: option.split)
    qed
  next
    case False
    then show ?thesis
      by (simp add: serves_def sent_out_udp [OF assms(3) n'(1)] del: event_output.simps split: option.split)
  qed
  moreover have "net_conns (w_net ?w) d = None \<Longrightarrow> net_conns n' d = None" for d using taken [of d] by simp
  ultimately show ?thesis
    using g old taken assms(3) unfolding took_def Let_def by (simp add: w link_conns_def)
qed

text \<open>What is sent to an endpoint of the link is what its queue loses, and is something if the queue has something.\<close>

lemma took_own:
  assumes "system_inv env F sy" "took sy k w" "fst x = k"
  shows "conn_waiting (w_net w) (endpoint_conn (sy_links sy) x) + sent_out x (event_output (Transmit k) sy) = waiting sy x"
    "waiting sy x \<noteq> {#} \<Longrightarrow> sent_out x (event_output (Transmit k) sy) \<noteq> {#}"
proof -
  let ?n = "w_net (sy_world sy)"
  have t: "serves sy k w x" using assms(2) unfolding took_def Let_def by blast
  have "conn_waiting (w_net w) (endpoint_conn (sy_links sy) x) + sent_out x (event_output (Transmit k) sy) = waiting sy x \<and>
      (waiting sy x \<noteq> {#} \<longrightarrow> sent_out x (event_output (Transmit k) sy) \<noteq> {#})"
  proof (cases "endpoint_conn (sy_links sy) x")
    case None
    then show ?thesis using t by (simp add: serves_def waiting_def conn_waiting_def del: event_output.simps)
  next
    case (Some c)
    obtain conn where conn: "net_conns ?n c = Some conn" "pq_running (conn_queue conn)"
      using endpoint_conn_exists [OF assms(1) Some] by blast
    have "head_of ?n c = None \<Longrightarrow> queue_data conn = {#}"
      using conn(1) by (auto simp: head_of_def queue_data_def split: list.splits)
    then show ?thesis
      using t Some conn(1) queue_data_popped [OF conn] assms(3)
      by (cases "head_of ?n c") (simp_all add: serves_def waiting_def conn_waiting_def del: event_output.simps)
  qed
  then show "conn_waiting (w_net w) (endpoint_conn (sy_links sy) x) + sent_out x (event_output (Transmit k) sy) = waiting sy x"
    "waiting sy x \<noteq> {#} \<Longrightarrow> sent_out x (event_output (Transmit k) sy) \<noteq> {#}" by blast+
qed

lemma took_other:
  assumes "took sy k w" "fst x \<noteq> k"
  shows "conn_waiting (w_net w) c \<subseteq># conn_waiting (w_net (sy_world sy)) c"
    "sent_out x (event_output (Transmit k) sy) = {#}"
proof -
  show "conn_waiting (w_net w) c \<subseteq># conn_waiting (w_net (sy_world sy)) c"
    using assms(1) unfolding took_def Let_def by (intro conn_waiting_popped) blast+
  show "sent_out x (event_output (Transmit k) sy) = {#}"
  proof -
    have "serves sy k w x" using assms(1) unfolding took_def Let_def by blast
    then show ?thesis using assms(2) by (auto simp: serves_def Let_def simp del: event_output.simps split: option.splits)
  qed
qed

lemma transmit_took:
  assumes "system_inv env F sy" "admissible env sy (Transmit k)"
  shows "\<exists>w. snd (system_step env (Transmit k) sy) = sy\<lparr>sy_world := w\<rparr> \<and> took sy k w"
proof -
  obtain r w where run: "link_send (sy_links sy ! k) (sy_world sy) = (r, w)" by (metis surj_pair)
  have "k < length (sy_links sy)" using assms(2) by simp
  then have "took sy k w"
    using transmit_serial [OF assms(1) _ _ run] transmit_udp [OF assms _ run] by (cases "sy_links sy ! k") blast+
  then show ?thesis using run by auto
qed

lemma transmit_waiting:
  assumes "system_inv env F sy" "admissible env sy (Transmit k)"
  shows "waiting (snd (system_step env (Transmit k) sy)) x + sent_out x (event_output (Transmit k) sy) \<subseteq># waiting sy x"
    "net_guards (w_net (sy_world (snd (system_step env (Transmit k) sy)))) = net_guards (w_net (sy_world sy))"
proof -
  obtain w where step: "snd (system_step env (Transmit k) sy) = sy\<lparr>sy_world := w\<rparr>" and w: "took sy k w"
    using transmit_took [OF assms] by blast
  show "net_guards (w_net (sy_world (snd (system_step env (Transmit k) sy)))) = net_guards (w_net (sy_world sy))"
    unfolding step using w by (simp add: took_def Let_def)
  have "conn_waiting (w_net w) (endpoint_conn (sy_links sy) x) + sent_out x (event_output (Transmit k) sy) \<subseteq># waiting sy x"
  proof (cases "fst x = k")
    case True
    then show ?thesis using took_own(1) [OF assms(1) w] by simp
  next
    case False
    from took_other [OF w False] show ?thesis by (simp add: waiting_def del: event_output.simps)
  qed
  then show "waiting (snd (system_step env (Transmit k) sy)) x + sent_out x (event_output (Transmit k) sy) \<subseteq># waiting sy x"
    unfolding step waiting_def by simp
qed

section \<open>Runs\<close>

lemma event_waiting:
  assumes "system_inv env F sy" "admissible env sy e" "net_guards (w_net (sy_world sy)) = (\<lambda>_. {})"
  shows "waiting (snd (system_step env e sy)) x + sent_out x (event_output e sy) \<subseteq>#
      waiting sy x + from_others env F x (event_input env e sy)"
    "net_guards (w_net (sy_world (snd (system_step env e sy)))) = (\<lambda>_. {})"
proof (atomize (full), cases e)
  case (Receive k clk buffer ip)
  then show "waiting (snd (system_step env e sy)) x + sent_out x (event_output e sy) \<subseteq>#
      waiting sy x + from_others env F x (event_input env e sy) \<and>
      net_guards (w_net (sy_world (snd (system_step env e sy)))) = (\<lambda>_. {})"
    using receive_waiting [OF assms(1) _ assms(3)] assms(2) by (simp del: system_step.simps event_input.simps)
next
  case (Transmit k)
  then show "waiting (snd (system_step env e sy)) x + sent_out x (event_output e sy) \<subseteq>#
      waiting sy x + from_others env F x (event_input env e sy) \<and>
      net_guards (w_net (sy_world (snd (system_step env e sy)))) = (\<lambda>_. {})"
    using transmit_waiting [OF assms(1)] assms(2,3) by (simp del: system_step.simps event_output.simps)
qed

lemma run_waiting:
  "system_inv env F sy \<Longrightarrow> admissible_run env sy es \<Longrightarrow> net_guards (w_net (sy_world sy)) = (\<lambda>_. {}) \<Longrightarrow>
   waiting (snd (system_run env es sy)) x + sent_out x (run_output env es sy) \<subseteq>#
     waiting sy x + from_others env F x (run_input env es sy)"
proof (induction es arbitrary: sy)
  case (Cons e es)
  have adm: "admissible env sy e" "admissible_run env (snd (system_step env e sy)) es"
    using Cons.prems(2) by simp_all
  obtain sy1 where sy1: "system_step env e sy = (Inr (), sy1)" "system_inv env F sy1"
    using system_step_ok [OF Cons.prems(1) adm(1)] by blast
  note step = event_waiting [OF Cons.prems(1) adm(1) Cons.prems(3), unfolded sy1(1) snd_conv]
  have "waiting (snd (system_run env es sy1)) x + sent_out x (run_output env es sy1) \<subseteq>#
      waiting sy1 x + from_others env F x (run_input env es sy1)"
    using Cons.IH [OF sy1(2) _ step(2)] adm(2) sy1(1) by simp
  from subset_mset.add_mono [OF this step(1) [of x]] show ?case
    using sy1(1) by (simp add: ac_simps del: system_step.simps)
qed simp

lemma run_guards:
  "system_inv env F sy \<Longrightarrow> admissible_run env sy es \<Longrightarrow> net_guards (w_net (sy_world sy)) = (\<lambda>_. {}) \<Longrightarrow>
   net_guards (w_net (sy_world (snd (system_run env es sy)))) = (\<lambda>_. {})"
proof (induction es arbitrary: sy)
  case (Cons e es)
  obtain sy1 where sy1: "system_step env e sy = (Inr (), sy1)" "system_inv env F sy1"
    using system_step_ok [OF Cons.prems(1), of e] Cons.prems(2) by auto
  then show ?case
    using Cons.IH [OF sy1(2)] event_waiting(2) [OF Cons.prems(1) _ Cons.prems(3), of e] Cons.prems(2)
    by (simp del: system_step.simps)
qed simp

lemma waiting_start:
  assumes "built env F (map fst app) w"
  shows "waiting (system_of app w) x = {#}" "net_guards (w_net (sy_world (system_of app w))) = (\<lambda>_. {})"
proof -
  have idle: "idle w" using assms by (simp add: built_def unowned_def)
  then show "net_guards (w_net (sy_world (system_of app w))) = (\<lambda>_. {})" by (simp add: system_of_def idle_def)
  show "waiting (system_of app w) x = {#}"
    using idle by (auto simp: waiting_def conn_waiting_def system_of_def idle_def queue_data_def
        bind_eq_Some_conv split: option.split)
qed

section \<open>Property\<close>



end
