(* ===== verification/Delivery.thy ===== *)
theory Delivery
  imports Forwarding
begin

text \<open>
  The counterpart of the theory \<open>Forwarding\<close>: a packet that the routing rules direct to an endpoint is
  in fact sent to it.
\<close>

section \<open>A single packet\<close>

text \<open>
  The routing rules direct the packet to the connection \<open>conn\<close> with the number \<open>c\<close>: with the addresses
  live on it and the verdicts of its filter, \<open>Connection::send\<close> queues the packet.
\<close>

definition routes :: "environment \<Rightarrow> readings \<Rightarrow> Packet \<Rightarrow> guards \<Rightarrow> nat \<Rightarrow> Connection \<Rightarrow> bool" where
  "routes env rd p g c conn \<longleftrightarrow>
     (case packet_source p of
        Inl e \<Rightarrow> False
      | Inr src \<Rightarrow>
          (case packet_dest (env_mavlink env) p of
             Inl e \<Rightarrow> False
           | Inr dest \<Rightarrow>
               (case rd_send rd c of (t1, t2, t3) \<Rightarrow>
                  delivery (conn_mirror conn) src dest (live t1 (conn_pool conn)) (live t2 (conn_pool conn))
                    (live t3 (conn_pool conn)) (verdict_of env g p conn) \<noteq> None)))"

lemma verdict_of_simps [simp]:
  "verdict_of (env_in env n) g p conn = verdict_of env g p conn"
  "verdict_of env g (set_connection d p) conn = verdict_of env g p conn"
  by (simp_all add: verdict_of_def will_accept_def chain_action_connection fun_eq_iff)

lemma routes_set_connection [simp]: "routes env rd (set_connection d p) g c conn = routes env rd p g c conn"
  by (simp add: routes_def split: sum.split prod.split)

lemma call_pool_send_delivers:
  assumes "world_inv env F w" "deliverable (env_mavlink env) p" "readings_ok rd"
    "call_pool_send env rd p w = (r, w')" "net_conns (w_net w) c = Some conn" "c \<in> set (w_pool w)"
    "routes env rd p (net_guards (w_net w)) c conn"
  shows "\<exists>conn'. net_conns (w_net w') c = Some conn' \<and>
    queue_data conn' = add_mset (pkt_data p) (queue_data conn)"
proof -
  obtain src dest where sd: "packet_source p = Inr src" "packet_dest (env_mavlink env) p = Inr dest"
    using assms(7) by (auto simp: routes_def split: sum.splits)
  have wf: "packet_wf (env_mavlink env) p" using assms(2) by (simp add: deliverable_def)
  have t: "case rd_send rd d of (t1, t2, t3) \<Rightarrow> t1 \<le> t2 \<and> t2 \<le> t3" for d
    using assms(3) by (auto simp: readings_ok_def split: prod.splits)
  let ?env = "env_in env (w_net w)"
  have dis: "distinct (w_pool w)" using assms(1) by (simp add: world_inv_def)
  have pr: "printable (env_in env (w_net w)) p"
    using deliverable_printable [of "env_in env (w_net w)" p] assms(2) by simp
  have ready: "\<forall>d \<in> set (w_pool w). \<forall>cn. net_conns (w_net w) d = Some cn \<longrightarrow>
      conn_ready (env_in env (w_net w)) (net_guards (w_net w)) p cn"
    using env_ready [OF assms(1) _ wf] by blast
  have sd': "packet_dest (env_mavlink ?env) p = Inr dest" using sd(2) by simp
  have clock: "\<forall>d \<in> set (w_pool w). case rd_send rd d of (t1, t2, t3) \<Rightarrow> t1 \<le> t2 \<and> t2 \<le> t3" by (intro ballI t)
  obtain n where n:
      "conn_pool_send (env_in env (w_net w)) (rd_send rd) (Some p) (w_pool w) (w_net w) =
        (Inr (), filter (\<lambda>d. net_conns (w_net w) d \<noteq> None) (w_pool w), n)"
      "\<forall>d \<in> set (w_pool w). case net_conns (w_net w) d of
         None \<Rightarrow> net_conns n d = None
       | Some cn \<Rightarrow> \<exists>cn'. net_conns n d = Some cn' \<and>
           (case rd_send rd d of (t1, t2, t3) \<Rightarrow>
              delivered t3 p (delivery (conn_mirror cn) src dest (live t1 (conn_pool cn))
                (live t2 (conn_pool cn)) (live t3 (conn_pool cn)) (verdict_of env (net_guards (w_net w)) p cn)) cn cn')"
    using conn_pool_send_ok [OF dis pr sd(1) sd' ready clock] unfolding verdict_of_simps by blast
  obtain t1 t2 t3 where ts: "rd_send rd c = (t1, t2, t3)" by (cases "rd_send rd c")
  obtain k where k: "delivery (conn_mirror conn) src dest (live t1 (conn_pool conn)) (live t2 (conn_pool conn))
      (live t3 (conn_pool conn)) (verdict_of env (net_guards (w_net w)) p conn) = Some k"
    using assms(7) sd ts by (auto simp: routes_def)
  obtain conn' where "net_conns n c = Some conn'" "delivered t3 p (Some k) conn conn'"
    using n(2) assms(5,6) ts k by fastforce
  moreover have "w_net w' = n" using assms(4) n(1) by (auto simp: call_pool_send_def)
  ultimately show ?thesis by (auto simp: delivered_def queue_data_def queue_enq_eq)
qed

lemma serial_take_delivers:
  assumes "serial_inv env F x" "deliverable (env_mavlink env) p" "readings_ok rd"
    "serial_take env rd p x = (r, y)" "net_conns (w_net (snd x)) c = Some conn" "c \<in> set (w_pool (snd x))"
    "c \<noteq> ser_connection (fst x)" "routes env rd p (net_guards (w_net (snd x))) c conn"
  shows "\<exists>conn'. net_conns (w_net (snd y)) c = Some conn' \<and>
    queue_data conn' = add_mset (pkt_data p) (queue_data conn)"
proof -
  obtain s w where x: "x = (s, w)" by (cases x)
  let ?c = "ser_connection s"
  obtain own where own: "net_conns (w_net w) ?c = Some own" using assms(1) by (auto simp: serial_inv_def x)
  have inv: "world_inv env F w" using assms(1) by (simp add: serial_inv_def x)
  obtain src where src: "packet_source p = Inr src" using deliverable_source [OF assms(2)] by blast
  obtain w1 where w1: "call_add_address env rd ?c src w = (Inr (), w1)" "passes env F ?c [] w w1"
      "w_pool w1 = w_pool w" "\<forall>d. d \<noteq> ?c \<longrightarrow> net_conns (w_net w1) d = net_conns (w_net w) d"
    using call_add_address_ok [OF inv own assms(3)] by blast
  have inv1: "world_inv env F w1" "net_guards (w_net w1) = net_guards (w_net w)"
    using w1(2) by (simp_all add: passes_def gains_def)
  obtain w2 where w2: "call_pool_send env rd (set_connection ?c p) w1 = (r, w2)" "y = (s, w2)"
    using assms(4) src w1(1) by (auto simp: x serial_take_def serial_handle_def Let_def split: prod.splits)
  show ?thesis
    using call_pool_send_delivers [OF inv1(1) _ assms(3) w2(1), of c conn] assms(2,5-8) w1(3,4) inv1(2)
    by (simp add: x w2(2))
qed

lemma udp_take_delivers:
  assumes "udp_inv env F x" "deliverable (env_mavlink env) p" "readings_ok rd"
    "udp_take env ip rd p x = (r, y)" "net_conns (w_net (snd x)) c = Some conn" "c \<in> set (w_pool (snd x))"
    "map_of (udp_connections (fst x)) ip \<noteq> Some c" "routes env rd p (net_guards (w_net (snd x))) c conn"
  shows "\<exists>conn'. net_conns (w_net (snd y)) c = Some conn' \<and>
    queue_data conn' = add_mset (pkt_data p) (queue_data conn)"
proof -
  obtain u w where x: "x = (u, w)" by (cases x)
  obtain u1 w1 where y1: "with_connection ip x = (u1, w1)" by (cases "with_connection ip x")
  note new = with_connection_ok [OF assms(1) y1 [symmetric], unfolded fst_conv snd_conv]
  obtain d where d: "map_of (udp_connections u1) ip = Some d" using new(6) by auto
  have inv: "world_inv env F w" "map_wf (udp_connections u)" using assms(1) by (simp_all add: x udp_inv_def Let_def)
  have c: "c < w_next w" using inv(1) assms(5) by (auto simp: x world_inv_def)
  have same: "net_conns (w_net w1) c = Some conn" "c \<in> set (w_pool w1)" "d \<noteq> c"
      "net_guards (w_net w1) = net_guards (w_net w)"
    using y1 d c assms(5-7) cmap.find_put [OF inv(2)]
    by (auto simp: x with_connection_def Let_def pool_add_set split: if_splits)
  have "(ip, d) \<in> set (udp_connections u1)" using d by (rule map_of_SomeD)
  then obtain own where own: "net_conns (w_net w1) d = Some own"
    using new(1) by (fastforce simp: udp_inv_def Let_def)
  have inv1: "world_inv env F w1" using new(1) by (simp add: udp_inv_def Let_def)
  obtain src where src: "packet_source p = Inr src" using deliverable_source [OF assms(2)] by blast
  obtain w2 where w2: "call_add_address env rd d src w1 = (Inr (), w2)" "passes env F d [] w1 w2"
      "w_pool w2 = w_pool w1" "\<forall>e. e \<noteq> d \<longrightarrow> net_conns (w_net w2) e = net_conns (w_net w1) e"
    using call_add_address_ok [OF inv1 own assms(3)] by blast
  have inv2: "world_inv env F w2" "net_guards (w_net w2) = net_guards (w_net w1)"
    using w2(2) by (simp_all add: passes_def gains_def)
  obtain w3 where w3: "call_pool_send env rd (set_connection d p) w2 = (r, w3)" "y = (u1, w3)"
    using assms(4) src w2(1) y1 d
    by (auto simp: x udp_take_def udp_handle_def update_connections_eq [OF inv(2)] split: prod.splits)
  show ?thesis
    using call_pool_send_delivers [OF inv2(1) _ assms(3) w3(1), of c conn] assms(2,8) w2(3,4) inv2(2) same
    by (simp add: x w3(2))
qed

section \<open>A block of bytes\<close>

lemma first_deliverable:
  "packets_of ml (fst (spec_run ml bs d)) = p # ps \<Longrightarrow> is_ok (packet_dest ml p) \<Longrightarrow> deliverable ml p"
  using packets_of_wf [OF spec_run_complete, of p ml bs d] by (simp add: deliverable_def)

lemma queued_stays:
  assumes "net_conns (w_net w) c = Some conn" "queue_data conn = add_mset d q" "gains env F ps w w'"
  shows "\<exists>conn'. net_conns (w_net w') c = Some conn' \<and> add_mset d q \<subseteq># queue_data conn'"
  using assms unfolding gains_def by metis

lemma serial_bytes_deliver:
  assumes "serial_inv env F (i, w)" "parser_inv (env_mavlink env) (ser_parser i)" "\<forall>j. readings_ok (clk j)"
    "packets_of (env_mavlink env) (fst (spec_run (env_mavlink env) bs (pp_buffer (ser_parser i)))) = p # ps"
    "\<forall>q \<in> set (p # ps). is_ok (packet_dest (env_mavlink env) q)" "serial_bytes env clk m bs i w = (r, i', w')"
    "net_conns (w_net w) c = Some conn" "c \<in> set (w_pool w)" "c \<noteq> ser_connection i"
    "routes env (clk m) p (net_guards (w_net w)) c conn"
  shows "\<exists>conn'. net_conns (w_net w') c = Some conn' \<and> add_mset (pkt_data p) (queue_data conn) \<subseteq># queue_data conn'"
proof -
  have frames: "packets_of (env_mavlink env) (ser.frames env bs (i, w)) = p # ps"
    using assms(4) by (simp add: ser.frames_def)
  obtain p1 ids1 y s' where y: "serial_take env (clk m) p (serial_feed p1 ids1 (i, w)) = (Inr (), y)"
      "serial_bytes env clk m bs i w = (Inr (), s')" "serial_step env F ps y s'"
    using ser.loop_first [of env F "(i, w)" clk bs p ps m] assms(1-3,5) frames by auto
  have w': "w' = snd s'" using assms(6) y(2) by (cases s') simp
  have "deliverable (env_mavlink env) p" using first_deliverable [OF assms(4)] assms(5) by simp
  from serial_take_delivers [OF ser.inv_feed [OF assms(1)] this assms(3) [rule_format] y(1), of c conn]
  obtain conn' where "net_conns (w_net (snd y)) c = Some conn'" "queue_data conn' = add_mset (pkt_data p) (queue_data conn)"
    using assms(7-10) by (auto simp: serial_feed_def)
  then show ?thesis using queued_stays y(3) unfolding w' serial_step_def by blast
qed

lemma udp_bytes_deliver:
  assumes "udp_inv env F (u, w)" "parser_inv (env_mavlink env) (udp_parser u)" "\<forall>j. readings_ok (clk j)"
    "packets_of (env_mavlink env) (fst (spec_run (env_mavlink env) bs (pp_buffer (udp_parser u)))) = p # ps"
    "\<forall>q \<in> set (p # ps). is_ok (packet_dest (env_mavlink env) q)" "udp_bytes env clk ip m bs u w = (r, u', w')"
    "net_conns (w_net w) c = Some conn" "c \<in> set (w_pool w)" "map_of (udp_connections u) ip \<noteq> Some c"
    "routes env (clk m) p (net_guards (w_net w)) c conn"
  shows "\<exists>conn'. net_conns (w_net w') c = Some conn' \<and> add_mset (pkt_data p) (queue_data conn) \<subseteq># queue_data conn'"
proof -
  have frames: "packets_of (env_mavlink env) (udp.frames env bs (u, w)) = p # ps"
    using assms(4) by (simp add: udp.frames_def)
  obtain p1 ids1 y s' where y: "udp_take env ip (clk m) p (udp_feed p1 ids1 (u, w)) = (Inr (), y)"
      "udp_bytes env clk ip m bs u w = (Inr (), s')" "udp_step env F ip ps y s'"
    using udp.loop_first [of env F "(u, w)" clk bs p ps ip m] assms(1-3,5) frames by auto
  have w': "w' = snd s'" using assms(6) y(2) by (cases s') simp
  have "deliverable (env_mavlink env) p" using first_deliverable [OF assms(4)] assms(5) by simp
  from udp_take_delivers [OF udp.inv_feed [OF assms(1)] this assms(3) [rule_format] y(1), of c conn]
  obtain conn' where "net_conns (w_net (snd y)) c = Some conn'" "queue_data conn' = add_mset (pkt_data p) (queue_data conn)"
    using assms(7-10) by (auto simp: udp_feed_def)
  then show ?thesis using queued_stays y(3) unfolding w' udp_step_def by blast
qed

text \<open>The same for the rest of a block whose first bytes have been received.\<close>

lemma serial_block_delivers:
  assumes "serial_inv env F (i, w)" "parser_inv (env_mavlink env) (ser_parser i)" "\<forall>j. readings_ok (clk j)"
    "routable (env_mavlink env) (fst (spec_run (env_mavlink env) (as @ bs) (pp_buffer (ser_parser i))))"
    "serial_receive_packet env clk as i w = (Inr (), i1, w1)"
    "packets_of (env_mavlink env) (fst (spec_run (env_mavlink env) bs (pp_buffer (ser_parser i1)))) = p # ps"
    "serial_receive_packet env clk (as @ bs) i w = (r, i', w')"
    "net_conns (w_net w1) c = Some conn" "c \<in> set (w_pool w1)" "c \<noteq> ser_connection i1"
    "routes env (clk (length (packets_of (env_mavlink env) (fst (spec_run (env_mavlink env) as (pp_buffer (ser_parser i)))))))
       p (net_guards (w_net w1)) c conn"
  shows "\<exists>conn'. net_conns (w_net w') c = Some conn' \<and> add_mset (pkt_data p) (queue_data conn) \<subseteq># queue_data conn'"
proof -
  let ?ml = "env_mavlink env"
  let ?fs = "fst (spec_run ?ml as (pp_buffer (ser_parser i)))"
  have bytes: "serial_receive_packet env clk d i w = serial_bytes env clk 0 d i w" for d
    by (cases d) (simp_all add: serial_receive_packet_def)
  have split: "fst (spec_run ?ml (as @ bs) (pp_buffer (ser_parser i))) =
      ?fs @ fst (spec_run ?ml bs (snd (spec_run ?ml as (pp_buffer (ser_parser i)))))"
    by (simp add: spec_run_append)
  then have route: "routable ?ml ?fs"
    using assms(4) by (simp add: routable_def frames_append)
  have one: "serial_inv env F (i1, w1)" "parser_inv ?ml (ser_parser i1)"
      "pp_buffer (ser_parser i1) = snd (spec_run ?ml as (pp_buffer (ser_parser i)))"
    using serial_receive_ok [OF assms(1-3) route] assms(5) by auto
  have good: "\<forall>q \<in> set (p # ps). is_ok (packet_dest ?ml q)"
    using assms(4,6) split one(3) by (simp add: routable_def frames_append)
  have "serial_bytes env clk 0 (as @ bs) i w = serial_bytes env clk (length (packets_of ?ml ?fs)) bs i1 w1"
    using ser.loop_append [of env F "(i, w)" clk as 0 "(i1, w1)" bs] assms(1-3,5) route
    by (simp add: bytes ser.frames_def routable_def)
  then have "serial_bytes env clk (length (packets_of ?ml ?fs)) bs i1 w1 = (r, i', w')"
    using assms(7) by (simp add: bytes)
  from serial_bytes_deliver [OF one(1,2) assms(3,6) good this assms(8-11)] show ?thesis .
qed

lemma udp_block_delivers:
  assumes "udp_inv env F (u, w)" "parser_inv (env_mavlink env) (udp_parser u)" "\<forall>j. readings_ok (clk j)"
    "routable (env_mavlink env) (datagram_frames (env_mavlink env) (as @ bs) ip u)"
    "udp_receive_packet env clk as ip u w = (Inr (), u1, w1)"
    "packets_of (env_mavlink env) (datagram_frames (env_mavlink env) bs ip u1) = p # ps"
    "udp_receive_packet env clk (as @ bs) ip u w = (r, u', w')"
    "net_conns (w_net w1) c = Some conn" "c \<in> set (w_pool w1)" "map_of (udp_connections u1) ip \<noteq> Some c"
    "routes env (clk (length (packets_of (env_mavlink env) (datagram_frames (env_mavlink env) as ip u))))
       p (net_guards (w_net w1)) c conn"
  shows "\<exists>conn'. net_conns (w_net w') c = Some conn' \<and> add_mset (pkt_data p) (queue_data conn) \<subseteq># queue_data conn'"
proof -
  let ?ml = "env_mavlink env" and ?m = "length (packets_of (env_mavlink env) (datagram_frames (env_mavlink env) as ip u))"
  define u0 where "u0 = (if ip \<noteq> udp_last_ip u
      then u\<lparr>udp_parser := parser_clear (udp_parser u), udp_last_ip := ip\<rparr> else u)"
  have u0: "udp_inv env F (u0, w)" "parser_inv ?ml (udp_parser u0)"
      "pp_buffer (udp_parser u0) = carried ip u" "udp_connections u0 = udp_connections u"
    using assms(1,2) parser_inv_initial by (simp_all add: u0_def udp_inv_def carried_def Let_def)
  have bytes: "d \<noteq> [] \<Longrightarrow> udp_receive_packet env clk d ip u w = udp_bytes env clk ip 0 d u0 w" for d
    by (simp add: udp_receive_packet_def u0_def Let_def)
  have split: "datagram_frames ?ml (as @ bs) ip u =
      datagram_frames ?ml as ip u @ fst (spec_run ?ml bs (snd (spec_run ?ml as (carried ip u))))"
    by (simp add: datagram_frames_def spec_run_append)
  have route: "routable ?ml (datagram_frames ?ml as ip u)"
    using assms(4) unfolding split by (simp add: routable_def frames_append)
  have "\<exists>v. udp_bytes env clk ip 0 as u0 w = (Inr (), v, w1) \<and> udp_inv env F (v, w1) \<and>
      parser_inv ?ml (udp_parser v) \<and> udp_connections v = udp_connections u1 \<and>
      pp_buffer (udp_parser v) = carried ip u1 \<and> carried ip u1 = snd (spec_run ?ml as (carried ip u))"
  proof (cases "as = []")
    case True
    then have "u1 = u" "w1 = w" using assms(5) by (simp_all add: udp_receive_packet_def)
    then show ?thesis using True u0 by simp
  next
    case False
    have "udp_bytes env clk ip 0 as u0 w = (Inr (), u1, w1)" using assms(5) bytes [OF False] by simp
    then show ?thesis
      using udp_receive_ok [OF assms(1-3) route] assms(5) False by (simp add: carried_def Let_def)
  qed
  then obtain v where v: "udp_bytes env clk ip 0 as u0 w = (Inr (), v, w1)" "udp_inv env F (v, w1)"
      "parser_inv ?ml (udp_parser v)" "udp_connections v = udp_connections u1"
      "pp_buffer (udp_parser v) = carried ip u1" "carried ip u1 = snd (spec_run ?ml as (carried ip u))"
    by blast
  have ps: "packets_of ?ml (fst (spec_run ?ml bs (pp_buffer (udp_parser v)))) = p # ps"
    using assms(6) v(5) by (simp add: datagram_frames_def)
  have good: "\<forall>q \<in> set (p # ps). is_ok (packet_dest ?ml q)"
    using assms(4) ps v(5,6) unfolding split by (simp add: routable_def frames_append)
  have "bs \<noteq> []" using ps by (auto simp: packets_of_def)
  then have all: "udp_bytes env clk ip 0 (as @ bs) u0 w = (r, u', w')" using assms(7) bytes [of "as @ bs"] by simp
  have "udp_bytes env clk ip 0 (as @ bs) u0 w = udp_bytes env clk ip ?m bs v w1"
    using udp.loop_append [of env F "(u0, w)" clk as ip 0 "(v, w1)" bs] u0(1-3) assms(3) route v(1)
    by (simp add: udp.frames_def routable_def datagram_frames_def)
  then have rest: "udp_bytes env clk ip ?m bs v w1 = (r, u', w')" using all by simp
  have new: "map_of (udp_connections v) ip \<noteq> Some c" using assms(10) v(4) by simp
  show ?thesis by (rule udp_bytes_deliver [OF v(2,3) assms(3) ps good rest assms(8,9) new assms(11)])
qed

section \<open>Endpoints have connections of their own\<close>

lemma serial_numbers_update:
  assumes "k < length ls" "serial_numbers [l] = serial_numbers [ls ! k]"
  shows "serial_numbers (ls[k := l]) = serial_numbers ls"
proof -
  have "serial_numbers (take k ls @ [l] @ drop (Suc k) ls) = serial_numbers (take k ls @ [ls ! k] @ drop (Suc k) ls)"
    using assms(2) by (simp del: append_Cons append_Nil)
  then show ?thesis
    using assms(1) by (simp add: upd_conv_take_nth_drop id_take_nth_drop [symmetric])
qed

lemma serial_number_in: "k < length ls \<Longrightarrow> ls ! k = SerialLink port i \<Longrightarrow> ser_connection i \<in> set (serial_numbers ls)"
  by (metis in_set_conv_decomp nth_mem serial_numbers.simps(2) serial_numbers_append UnCI list.set_intros(1) set_append)

lemma serial_numbers_differ:
  "distinct (serial_numbers ls) \<Longrightarrow> j < k \<Longrightarrow> k < length ls \<Longrightarrow> ls ! j = SerialLink port i \<Longrightarrow>
   ls ! k = SerialLink port' i' \<Longrightarrow> ser_connection i \<noteq> ser_connection i'"
proof (induction ls arbitrary: j k rule: serial_numbers.induct)
  case (2 p0 i0 ls)
  then show ?case
    using serial_number_in [of "k - 1" ls] by (cases j; cases k) (auto simp: less_Suc_eq_0_disj)
next
  case (3 s0 i0 ls)
  then show ?case by (cases j; cases k) auto
qed simp

lemma endpoint_owner:
  assumes "system_inv env F sy" "endpoint_conn (sy_links sy) (k, a) = Some c"
  shows "k < length (sy_links sy)" "c \<in> set (w_pool (sy_world sy))"
    "case sy_links sy ! k of
       SerialLink port i \<Rightarrow> net_owner (w_net (sy_world sy)) c = None \<and> a = None \<and> c = ser_connection i
     | UDPLink socket i \<Rightarrow> net_owner (w_net (sy_world sy)) c = Some k \<and>
         (\<exists>ip. a = Some ip \<and> map_of (udp_connections i) ip = Some c)"
proof -
  show k: "k < length (sy_links sy)" using assms(2) by (simp add: endpoint_conn_def split: if_splits)
  have inv: "link_inv env F (sy_world sy) k (sy_links sy ! k)" using assms(1) k by (simp add: system_inv_def)
  have "c \<in> set (w_pool (sy_world sy)) \<and> (case sy_links sy ! k of
       SerialLink port i \<Rightarrow> net_owner (w_net (sy_world sy)) c = None \<and> a = None \<and> c = ser_connection i
     | UDPLink socket i \<Rightarrow> net_owner (w_net (sy_world sy)) c = Some k \<and>
         (\<exists>ip. a = Some ip \<and> map_of (udp_connections i) ip = Some c))"
  proof (cases "sy_links sy ! k")
    case (SerialLink port i)
    then show ?thesis using inv assms(2) k by (auto simp: link_inv_def endpoint_conn_def split: if_splits)
  next
    case (UDPLink socket i)
    then obtain ip where ip: "a = Some ip" "map_of (udp_connections i) ip = Some c"
      using assms(2) k by (auto simp: endpoint_conn_def bind_eq_Some_conv)
    then have ic: "(ip, c) \<in> set (udp_connections i)" by (simp add: map_of_SomeD)
    have u: "udp_inv env F (i, sy_world sy)" "cf_number (udp_factory i) = k"
      using inv UDPLink by (simp_all add: link_inv_def)
    then have "c \<in> owned (w_net (sy_world sy)) k" using ic by (force simp: udp_inv_def Let_def)
    moreover have "c \<in> set (w_pool (sy_world sy))" using u(1) ic by (fastforce simp: udp_inv_def Let_def)
    ultimately show ?thesis using UDPLink ip by (simp add: owned_def)
  qed
  then show "c \<in> set (w_pool (sy_world sy))"
    "case sy_links sy ! k of
       SerialLink port i \<Rightarrow> net_owner (w_net (sy_world sy)) c = None \<and> a = None \<and> c = ser_connection i
     | UDPLink socket i \<Rightarrow> net_owner (w_net (sy_world sy)) c = Some k \<and>
         (\<exists>ip. a = Some ip \<and> map_of (udp_connections i) ip = Some c)" by blast+
qed

lemma endpoint_serial:
  assumes "system_inv env F sy" "endpoint_conn (sy_links sy) (k, a) = Some c" "sy_links sy ! k = SerialLink port i"
  shows "net_owner (w_net (sy_world sy)) c = None" "a = None" "c = ser_connection i"
  using endpoint_owner(3) [OF assms(1,2), unfolded assms(3) Interface.case] by blast+

lemma endpoint_udp:
  assumes "system_inv env F sy" "endpoint_conn (sy_links sy) (k, a) = Some c" "sy_links sy ! k = UDPLink socket i"
  shows "net_owner (w_net (sy_world sy)) c = Some k" "\<exists>ip. a = Some ip \<and> map_of (udp_connections i) ip = Some c"
    "distinct (map snd (udp_connections i))"
proof -
  note own = endpoint_owner [OF assms(1,2)]
  show "net_owner (w_net (sy_world sy)) c = Some k" "\<exists>ip. a = Some ip \<and> map_of (udp_connections i) ip = Some c"
    using own(3) [unfolded assms(3) Interface.case] by blast+
  have "link_inv env F (sy_world sy) k (UDPLink socket i)"
    using assms(1,3) own(1) by (metis system_inv_def)
  then show "distinct (map snd (udp_connections i))" by (simp add: link_inv_def udp_inv_def Let_def)
qed

lemma map_of_same_value:
  assumes "distinct (map snd xs)" "map_of xs a = Some c" "map_of xs b = Some c"
  shows "a = b"
proof -
  have "inj_on snd (set xs)" using assms(1) by (simp add: distinct_map)
  from inj_onD [OF this, of "(a, c)" "(b, c)"] show ?thesis
    using map_of_SomeD [OF assms(2)] map_of_SomeD [OF assms(3)] by simp
qed

lemma endpoint_conns_differ:
  assumes "system_inv env F sy" "distinct (serial_numbers (sy_links sy))"
    "endpoint_conn (sy_links sy) (j, a) = Some c" "endpoint_conn (sy_links sy) (k, b) = Some c"
  shows "(j, a) = (k, b)"
proof -
  have len: "j < length (sy_links sy)" "k < length (sy_links sy)"
    using endpoint_owner(1) [OF assms(1)] assms(3,4) by blast+
  show ?thesis
  proof (cases "sy_links sy ! j")
    case j: (SerialLink port i)
    note sj = endpoint_serial [OF assms(1,3) j]
    show ?thesis
    proof (cases "sy_links sy ! k")
      case k: (SerialLink port' i')
      note sk = endpoint_serial [OF assms(1,4) k]
      have "\<not> j < k" using serial_numbers_differ [OF assms(2) _ len(2) j k] sj(3) sk(3) by metis
      moreover have "\<not> k < j" using serial_numbers_differ [OF assms(2) _ len(1) k j] sj(3) sk(3) by metis
      ultimately show ?thesis unfolding sj(2) sk(2) by simp
    next
      case k: (UDPLink socket' i')
      show ?thesis using sj(1) endpoint_udp(1) [OF assms(1,4) k] by simp
    qed
  next
    case j: (UDPLink socket i)
    note uj = endpoint_udp [OF assms(1,3) j]
    show ?thesis
    proof (cases "sy_links sy ! k")
      case k: (SerialLink port' i')
      show ?thesis using uj(1) endpoint_serial(1) [OF assms(1,4) k] by simp
    next
      case k: (UDPLink socket' i')
      note uk = endpoint_udp [OF assms(1,4) k]
      have jk: "k = j" using uj(1) uk(1) by simp
      then have "i' = i" using j k by simp
      then show ?thesis using uj(2) uk(2) map_of_same_value [OF uj(3)] jk by blast
    qed
  qed
qed

lemma step_serial_numbers:
  assumes "system_inv env F sy" "admissible env sy e"
  shows "serial_numbers (sy_links (snd (system_step env e sy))) = serial_numbers (sy_links sy)"
proof (cases e)
  case (Receive k clk buffer ip)
  obtain r l w where run: "link_receive env clk buffer ip (sy_links sy ! k) (sy_world sy) = (r, l, w)"
    by (metis prod_cases3)
  have k: "k < length (sy_links sy)" and adm: "admissible env sy (Receive k clk buffer ip)"
    using assms(2) Receive by simp_all
  have "serial_numbers [l] = serial_numbers [sy_links sy ! k]"
  proof (cases "sy_links sy ! k")
    case (SerialLink port i)
    then obtain i' where l: "l = SerialLink port i'" using run by (auto simp: link_receive_def split: prod.splits)
    show ?thesis
      using link_receive_serial(2) [OF assms(1) adm SerialLink run, of "(k, None)"] k l SerialLink
      by (simp add: endpoint_conn_def)
  next
    case (UDPLink socket i)
    then show ?thesis using run by (auto simp: link_receive_def split: prod.splits)
  qed
  then show ?thesis using serial_numbers_update [OF k] run Receive by simp
next
  case (Transmit k)
  then show ?thesis by (simp split: prod.split)
qed

section \<open>A block on a link\<close>

lemma routes_dest: "routes env rd p g c conn \<Longrightarrow> is_ok (packet_dest (env_mavlink env) p)"
  by (auto simp: routes_def is_ok_iff split: sum.splits)

lemma admissible_prefix:
  "admissible env sy (Receive k clk (as @ bs) ip) \<Longrightarrow> admissible env sy (Receive k clk as ip)"
  by (auto simp: routable_def datagram_frames_def spec_run_append frames_append split: Interface.splits)

text \<open>
  Any packet of a block: \<open>sy1\<close> is the state when the bytes \<open>as\<close> before it have been received.
\<close>

lemma receive_delivers:
  assumes "system_inv env F sy" "distinct (serial_numbers (sy_links sy))"
    "admissible env sy (Receive k clk (as @ bs) ip)" "system_step env (Receive k clk as ip) sy = (Inr (), sy1)"
    "link_packets env bs ip (sy_links sy1 ! k) = p # ps" "endpoint_conn (sy_links sy1) x = Some c"
    "x \<noteq> link_endpoint k ip (sy_links sy ! k)" "net_conns (w_net (sy_world sy1)) c = Some conn"
    "routes env (clk (length (link_packets env as ip (sy_links sy ! k)))) p (net_guards (w_net (sy_world sy1))) c conn"
  shows "add_mset (pkt_data p) (waiting sy1 x) \<subseteq># waiting (snd (system_step env (Receive k clk (as @ bs) ip) sy)) x"
proof -
  obtain j a where x: "x = (j, a)" by (cases x)
  let ?l = "sy_links sy ! k" and ?w = "sy_world sy"
  obtain r l w where run: "link_receive env clk (as @ bs) ip ?l ?w = (r, l, w)" by (metis prod_cases3)
  then have step: "snd (system_step env (Receive k clk (as @ bs) ip) sy) = \<lparr>sy_links = (sy_links sy)[k := l], sy_world = w\<rparr>"
    by simp
  obtain l1 w1 where run1: "link_receive env clk as ip ?l ?w = (Inr (), l1, w1)"
      and sy1: "sy1 = \<lparr>sy_links = (sy_links sy)[k := l1], sy_world = w1\<rparr>"
    using assms(4) by (auto split: prod.splits)
  note adm1 = admissible_prefix [OF assms(3)]
  have k: "k < length (sy_links sy)" and clk: "\<forall>i. readings_ok (clk i)" using assms(3) by simp_all
  have l1: "sy_links sy1 ! k = l1" using k by (simp add: sy1)
  have inv1: "system_inv env F sy1" using system_step_ok [OF assms(1) adm1] assms(4) by simp
  have dis1: "distinct (serial_numbers (sy_links sy1))"
    using step_serial_numbers [OF assms(1) adm1] assms(2,4) by (simp del: system_step.simps)
  have pool: "c \<in> set (w_pool w1)" using endpoint_owner(2) [OF inv1] assms(6) x sy1 by fastforce
  have conn: "net_conns (w_net w1) c = Some conn" using assms(8) sy1 by simp
  have inv: "link_inv env F ?w k ?l" using assms(1) k by (simp add: system_inv_def)
  have "(\<exists>conn'. net_conns (w_net w) c = Some conn' \<and> add_mset (pkt_data p) (queue_data conn) \<subseteq># queue_data conn') \<and>
      endpoint_conn ((sy_links sy)[k := l]) x = Some c"
  proof (cases ?l)
    case (SerialLink port i)
    have pre: "serial_inv env F (i, ?w)" "parser_inv (env_mavlink env) (ser_parser i)"
        "routable (env_mavlink env) (fst (spec_run (env_mavlink env) (as @ bs) (pp_buffer (ser_parser i))))"
      using inv SerialLink assms(3) by (simp_all add: link_inv_def)
    obtain i1 where i1: "serial_receive_packet env clk as i ?w = (Inr (), i1, w1)" "l1 = SerialLink port i1"
      using run1 SerialLink by (auto simp: link_receive_def split: prod.splits)
    obtain i' where i': "serial_receive_packet env clk (as @ bs) i ?w = (r, i', w)"
      using run SerialLink by (auto simp: link_receive_def split: prod.splits)
    have ps: "packets_of (env_mavlink env) (fst (spec_run (env_mavlink env) bs (pp_buffer (ser_parser i1)))) = p # ps"
      using assms(5) l1 i1(2) by (simp add: link_packets_def)
    have own: "endpoint_conn (sy_links sy1) (k, None) = Some (ser_connection i1)"
      using l1 i1(2) k by (simp add: endpoint_conn_def sy1)
    have "c \<noteq> ser_connection i1"
      using endpoint_conns_differ [OF inv1 dis1 _ own] assms(6,7) SerialLink x by (auto simp: link_endpoint_def)
    from serial_block_delivers [OF pre(1,2) clk pre(3) i1(1) ps i' conn pool this]
    show ?thesis
      using assms(6,9) link_receive_serial(2) [OF assms(1,3) SerialLink run, of x]
        link_receive_serial(2) [OF assms(1) adm1 SerialLink run1, of x]
      by (simp add: sy1 link_packets_def SerialLink)
  next
    case (UDPLink socket i)
    have pre: "udp_inv env F (i, ?w)" "parser_inv (env_mavlink env) (udp_parser i)"
        "routable (env_mavlink env) (datagram_frames (env_mavlink env) (as @ bs) ip i)"
      using inv UDPLink assms(3) by (simp_all add: link_inv_def)
    obtain i1 where i1: "udp_receive_packet env clk as ip i ?w = (Inr (), i1, w1)" "l1 = UDPLink socket i1"
      using run1 UDPLink by (auto simp: link_receive_def split: prod.splits)
    obtain i' where i': "udp_receive_packet env clk (as @ bs) ip i ?w = (r, i', w)"
      using run UDPLink by (auto simp: link_receive_def split: prod.splits)
    have ps: "packets_of (env_mavlink env) (datagram_frames (env_mavlink env) bs ip i1) = p # ps"
      using assms(5) l1 i1(2) by (simp add: link_packets_def)
    have x': "x \<noteq> (k, Some ip)" using assms(7) UDPLink by (simp add: link_endpoint_def)
    have own: "endpoint_conn (sy_links sy1) (k, Some ip) = map_of (udp_connections i1) ip"
      using l1 i1(2) k by (simp add: endpoint_conn_def sy1)
    have "map_of (udp_connections i1) ip \<noteq> Some c"
      using endpoint_conns_differ [OF inv1 dis1, of j a c k "Some ip"] own assms(6) x x' by auto
    from udp_block_delivers [OF pre(1,2) clk pre(3) i1(1) ps i' conn pool this]
    show ?thesis
      using assms(6,9) link_receive_udp(2) [OF assms(1,3) UDPLink run x']
        link_receive_udp(2) [OF assms(1) adm1 UDPLink run1 x']
      by (simp add: sy1 link_packets_def UDPLink)
  qed
  then show ?thesis using assms(6) conn unfolding step by (auto simp: waiting_def conn_waiting_def sy1)
qed

section \<open>Nothing is lost\<close>

lemma conn_waiting_kept:
  assumes "gains env F ps w w'"
  shows "conn_waiting (w_net w) c \<subseteq># conn_waiting (w_net w') c"
proof (cases "Option.bind c (net_conns (w_net w))")
  case None
  then show ?thesis by (simp add: conn_waiting_def)
next
  case (Some conn)
  then obtain d where d: "c = Some d" "net_conns (w_net w) d = Some conn" by (auto simp: bind_eq_Some_conv)
  then obtain conn' where "net_conns (w_net w') d = Some conn'" "queue_data conn \<subseteq># queue_data conn'"
    using assms unfolding gains_def by metis
  then show ?thesis using d by (simp add: conn_waiting_def)
qed

lemma receive_keeps:
  assumes "system_inv env F sy" "admissible env sy (Receive k clk buffer ip)"
  shows "waiting sy x \<subseteq># waiting (snd (system_step env (Receive k clk buffer ip) sy)) x"
proof -
  let ?y = "link_endpoint k ip (sy_links sy ! k)"
  obtain r l w where run: "link_receive env clk buffer ip (sy_links sy ! k) (sy_world sy) = (r, l, w)"
    by (metis prod_cases3)
  have all: "gains env F (link_packets env buffer ip (sy_links sy ! k)) (sy_world sy) w"
      "x \<noteq> ?y \<Longrightarrow> endpoint_conn ((sy_links sy)[k := l]) x = endpoint_conn (sy_links sy) x"
      "conn_waiting (w_net w) (endpoint_conn ((sy_links sy)[k := l]) ?y) = waiting sy ?y"
    using link_receive_serial [OF assms _ run] link_receive_udp [OF assms _ run]
    by (cases "sy_links sy ! k"; simp add: link_endpoint_def)+
  show ?thesis
  proof (cases "x = ?y")
    case True
    then show ?thesis using all(3) run by (simp add: waiting_def)
  next
    case False
    then show ?thesis using all(2) run conn_waiting_kept [OF all(1)] by (simp add: waiting_def)
  qed
qed

lemma transmit_keeps:
  assumes "system_inv env F sy" "distinct (serial_numbers (sy_links sy))" "admissible env sy (Transmit k)"
  shows "waiting sy x \<subseteq># waiting (snd (system_step env (Transmit k) sy)) x + sent_out x (event_output (Transmit k) sy)"
proof -
  obtain w where step: "snd (system_step env (Transmit k) sy) = sy\<lparr>sy_world := w\<rparr>" and w: "took sy k w"
    using transmit_took [OF assms(1,3)] by blast
  have "waiting sy x \<subseteq># conn_waiting (w_net w) (endpoint_conn (sy_links sy) x) + sent_out x (event_output (Transmit k) sy)"
  proof (cases "fst x = k")
    case True
    then show ?thesis using took_own(1) [OF assms(1) w] by simp
  next
    case False
    have "c \<notin> link_conns (sy_links sy ! k)" if c: "endpoint_conn (sy_links sy) x = Some c" for c
    proof
      assume c': "c \<in> link_conns (sy_links sy ! k)"
      have k: "k < length (sy_links sy)" using assms(3) by simp
      have inv: "link_inv env F (sy_world sy) k (sy_links sy ! k)" using assms(1) k by (simp add: system_inv_def)
      have "\<exists>b. endpoint_conn (sy_links sy) (k, b) = Some c"
      proof (cases "sy_links sy ! k")
        case (SerialLink port i)
        then show ?thesis using c' k by (auto simp: link_conns_def endpoint_conn_def)
      next
        case (UDPLink socket i)
        then have "distinct (map fst (udp_connections i))"
          using inv cmap.distinct_keys [of "udp_connections i"] by (auto simp: link_inv_def udp_inv_def Let_def)
        moreover obtain ip where "(ip, c) \<in> set (udp_connections i)" using c' UDPLink by (auto simp: link_conns_def)
        ultimately show ?thesis using UDPLink k by (auto simp: endpoint_conn_def intro!: exI [of _ "Some ip"])
      qed
      then show False using endpoint_conns_differ [OF assms(1,2)] c False by (metis fst_conv surj_pair)
    qed
    then have "conn_waiting (w_net w) (endpoint_conn (sy_links sy) x) = waiting sy x"
      using w unfolding took_def Let_def
      by (cases "endpoint_conn (sy_links sy) x") (simp_all add: waiting_def conn_waiting_def)
    then show ?thesis by simp
  qed
  then show ?thesis unfolding step by (simp add: waiting_def)
qed

lemma event_keeps:
  assumes "system_inv env F sy" "distinct (serial_numbers (sy_links sy))" "admissible env sy e"
  shows "waiting sy x \<subseteq># waiting (snd (system_step env e sy)) x + sent_out x (event_output e sy)"
proof (cases e)
  case (Receive k clk buffer ip)
  then show ?thesis using receive_keeps [OF assms(1)] assms(3) by (simp del: system_step.simps)
next
  case (Transmit k)
  then show ?thesis using transmit_keeps [OF assms(1,2)] assms(3) by (simp del: system_step.simps event_output.simps)
qed

lemma run_keeps:
  "system_inv env F sy \<Longrightarrow> distinct (serial_numbers (sy_links sy)) \<Longrightarrow> admissible_run env sy es \<Longrightarrow>
   waiting sy x \<subseteq># waiting (snd (system_run env es sy)) x + sent_out x (run_output env es sy)"
proof (induction es arbitrary: sy)
  case (Cons e es)
  have adm: "admissible env sy e" "admissible_run env (snd (system_step env e sy)) es"
    using Cons.prems(3) by simp_all
  obtain sy1 where sy1: "system_step env e sy = (Inr (), sy1)" "system_inv env F sy1"
    using system_step_ok [OF Cons.prems(1) adm(1)] by blast
  have "waiting sy1 x \<subseteq># waiting (snd (system_run env es sy1)) x + sent_out x (run_output env es sy1)"
    using Cons.IH [OF sy1(2)] adm(2) step_serial_numbers [OF Cons.prems(1) adm(1)] Cons.prems(2) sy1(1)
    by (simp del: system_step.simps)
  moreover have "waiting sy x \<subseteq># waiting sy1 x + sent_out x (event_output e sy)"
    using event_keeps [OF Cons.prems(1,2) adm(1), of x] sy1(1) by simp
  ultimately have "waiting sy x \<subseteq># (waiting (snd (system_run env es sy1)) x + sent_out x (run_output env es sy1)) +
      sent_out x (event_output e sy)"
    by (meson subset_mset.add_right_mono subset_mset.order_trans)
  then show ?case using sy1(1) by (simp add: ac_simps del: system_step.simps event_output.simps)
qed simp

section \<open>Draining\<close>

text \<open>Enough calls of \<open>send_packet\<close> on a link send everything that waits for its endpoints.\<close>

lemma drain:
  "system_inv env F sy \<Longrightarrow> admissible_run env sy (replicate n (Transmit k)) \<Longrightarrow> fst x = k \<Longrightarrow>
   size (waiting sy x) \<le> n \<Longrightarrow> sent_out x (run_output env (replicate n (Transmit k)) sy) = waiting sy x"
proof (induction n arbitrary: sy)
  case (Suc n)
  have adm: "admissible env sy (Transmit k)"
      "admissible_run env (snd (system_step env (Transmit k) sy)) (replicate n (Transmit k))"
    using Suc.prems(2) by simp_all
  obtain w where step: "snd (system_step env (Transmit k) sy) = sy\<lparr>sy_world := w\<rparr>" and w: "took sy k w"
    using transmit_took [OF Suc.prems(1) adm(1)] by blast
  obtain sy1 where sy1: "system_step env (Transmit k) sy = (Inr (), sy1)" "system_inv env F sy1"
    using system_step_ok [OF Suc.prems(1) adm(1)] by blast
  have eq: "sy1 = sy\<lparr>sy_world := w\<rparr>" using sy1(1) step by simp
  let ?out = "sent_out x (event_output (Transmit k) sy)"
  have sum: "waiting sy1 x + ?out = waiting sy x" and some: "waiting sy x \<noteq> {#} \<Longrightarrow> ?out \<noteq> {#}"
    using took_own [OF Suc.prems(1) w Suc.prems(3)] by (simp_all add: eq waiting_def del: event_output.simps)
  have "size (waiting sy x) = size (waiting sy1 x) + size ?out" using sum by (metis size_union)
  moreover have "waiting sy x \<noteq> {#} \<Longrightarrow> 0 < size ?out" using some by (simp add: nonempty_has_size)
  ultimately have "size (waiting sy1 x) \<le> n"
    using Suc.prems(4) by (cases "waiting sy x = {#}") auto
  then have "sent_out x (run_output env (replicate n (Transmit k)) sy1) = waiting sy1 x"
    using Suc.IH [OF sy1(2) _ Suc.prems(3)] adm(2) sy1(1) by simp
  then show ?case using sy1(1) sum by (simp add: add.commute del: event_output.simps system_step.simps)
qed (simp add: waiting_def)

section \<open>Runs\<close>

lemma run_serial_numbers:
  "system_inv env F sy \<Longrightarrow> admissible_run env sy es \<Longrightarrow>
   serial_numbers (sy_links (snd (system_run env es sy))) = serial_numbers (sy_links sy)"
proof (induction es arbitrary: sy)
  case (Cons e es)
  obtain sy1 where sy1: "system_step env e sy = (Inr (), sy1)" "system_inv env F sy1"
    using system_step_ok [OF Cons.prems(1), of e] Cons.prems(2) by auto
  then show ?case
    using Cons.IH [OF sy1(2)] step_serial_numbers [OF Cons.prems(1), of e] Cons.prems(2)
    by (simp del: system_step.simps)
qed simp

lemma system_run_append:
  "system_run env es sy = (Inr (), sy') \<Longrightarrow>
   system_run env (es @ fs) sy = system_run env fs sy' \<and>
   run_output env (es @ fs) sy = run_output env es sy @ run_output env fs sy'"
proof (induction es arbitrary: sy)
  case (Cons e es)
  then obtain sy1 where "system_step env e sy = (Inr (), sy1)" "system_run env es sy1 = (Inr (), sy')"
    by (auto split: prod.splits sum.splits simp del: system_step.simps)
  then show ?case using Cons.IH by (simp del: system_step.simps event_output.simps)
qed simp

lemma delivered_by:
  assumes "system_inv env F sy" "distinct (serial_numbers (sy_links sy))" "net_guards (w_net (sy_world sy)) = (\<lambda>_. {})"
    "admissible_run env sy (Receive k clk (as @ bs) ip # fs)"
    "system_step env (Receive k clk as ip) sy = (Inr (), sy1)"
    "link_packets env bs ip (sy_links sy1 ! k) = p # ps" "x \<noteq> link_endpoint k ip (sy_links sy ! k)"
    "endpoint_conn (sy_links sy1) x = Some c" "net_conns (w_net (sy_world sy1)) c = Some conn"
    "routes env (clk (length (link_packets env as ip (sy_links sy ! k)))) p (\<lambda>_. {}) c conn"
  shows "add_mset (pkt_data p) (waiting sy1 x) \<subseteq>#
    waiting (snd (system_run env (Receive k clk (as @ bs) ip # fs) sy)) x +
    sent_out x (run_output env (Receive k clk (as @ bs) ip # fs) sy)"
proof -
  let ?e = "Receive k clk (as @ bs) ip"
  have adm: "admissible env sy ?e" "admissible_run env (snd (system_step env ?e sy)) fs" using assms(4) by simp_all
  obtain sy2 where sy2: "system_step env ?e sy = (Inr (), sy2)" "system_inv env F sy2"
    using system_step_ok [OF assms(1) adm(1)] by blast
  have g: "net_guards (w_net (sy_world sy1)) = (\<lambda>_. {})"
    using event_waiting(2) [OF assms(1) admissible_prefix [OF adm(1)] assms(3)] unfolding assms(5) by simp
  have one: "add_mset (pkt_data p) (waiting sy1 x) \<subseteq># waiting sy2 x"
    using receive_delivers [OF assms(1,2) adm(1) assms(5,6,8,7,9)] assms(10) unfolding g sy2(1) by simp
  have "distinct (serial_numbers (sy_links sy2))"
    using step_serial_numbers [OF assms(1) adm(1)] assms(2) unfolding sy2(1) by simp
  moreover have "admissible_run env sy2 fs" using adm(2) unfolding sy2(1) by simp
  ultimately have "waiting sy2 x \<subseteq># waiting (snd (system_run env fs sy2)) x + sent_out x (run_output env fs sy2)"
    by (rule run_keeps [OF sy2(2)])
  from subset_mset.order_trans [OF one this] show ?thesis using sy2(1) by (simp del: system_step.simps)
qed

section \<open>Property\<close>

text \<open>C2: the router forwards, and loses nothing.  Take any run of the program built from a configuration
  file, a packet completed anywhere in a block that arrives on an interface, and another endpoint to whose
  connection the routing rules direct it, by the addresses live there and the verdicts of the filter at
  that moment.  Whatever receives and sends of all interfaces follow, in whatever order, the packet and what
  waited for the endpoint before it have been sent to the endpoint or still wait for it; and once the
  interface of the endpoint has then sent as often as packets wait for it, they have all been sent.  The
  chains do not refer to each other in a circle, no version 1 packet too short for a target field arrives,
  the calls are taken one at a time and handle each packet within two minutes, and the devices take
  what they are given.\<close>

theorem forwards_live_packets:
  assumes "make_app sys tok split_colon env clock root s = (Inr app, s', w)" "config_ranked rank root"
    "\<forall>k i. readings_ok (clock k i)" "mavlink_tables_agree (env_mavlink env)"
    "evs = Receive k clk (as @ bs) ip # fs" "ts = replicate n (Transmit (fst x))"
    "timely_run env (system_of app w) (es @ evs @ ts)"
    "\<not> short_received env (run_input env (es @ evs @ ts) (system_of app w))"
    "system_run env es (system_of app w) = (Inr (), sy)" "system_step env (Receive k clk as ip) sy = (Inr (), sy1)"
    "link_packets env bs ip (sy_links sy1 ! k) = p # ps" "x \<noteq> link_endpoint k ip (sy_links sy ! k)"
    "endpoint_conn (sy_links sy1) x = Some c" "net_conns (w_net (sy_world sy1)) c = Some conn"
    "routes env (clk (length (link_packets env as ip (sy_links sy ! k)))) p (\<lambda>_. {}) c conn"
  shows "\<exists>sy'. system_run env evs sy = (Inr (), sy') \<and>
    add_mset (pkt_data p) (waiting sy1 x) \<subseteq># sent_out x (run_output env evs sy) + waiting sy' x \<and>
    (size (waiting sy' x) \<le> n \<longrightarrow>
       add_mset (pkt_data p) (waiting sy1 x) \<subseteq># sent_out x (run_output env (evs @ ts) sy))"
proof -
  from make_app_built [OF assms(1-3)] obtain F where F: "built env F (map fst app) w" by blast
  have inv0: "system_inv env F (system_of app w)" using built_system [OF F] by (simp add: system_of_def)
  have "admissible_run env (system_of app w) (es @ evs @ ts)"
    using admissible_run_or_short [OF inv0 assms(4,7)] assms(8) by blast
  then have adm: "admissible_run env (system_of app w) es" "admissible_run env sy (evs @ ts)"
    using admissible_run_append [OF assms(9)] by simp_all
  have adm1: "admissible_run env sy evs" using adm(2) by (rule admissible_run_prefix)
  have inv: "system_inv env F sy" using system_run_ok [OF inv0 adm(1)] assms(9) by auto
  have "distinct (serial_numbers (map fst app))" using F by (simp add: built_def)
  then have dis: "distinct (serial_numbers (sy_links sy))"
    using run_serial_numbers [OF inv0 adm(1)] assms(9) by (simp add: system_of_def)
  have g: "net_guards (w_net (sy_world sy)) = (\<lambda>_. {})"
    using run_guards [OF inv0 adm(1) waiting_start(2) [OF F]] assms(9) by simp
  obtain sy' where sy': "system_run env evs sy = (Inr (), sy')" "system_inv env F sy'"
    using system_run_ok [OF inv adm1] by blast
  have kept: "add_mset (pkt_data p) (waiting sy1 x) \<subseteq># waiting sy' x + sent_out x (run_output env evs sy)"
    using delivered_by [OF inv dis g adm1 [unfolded assms(5)] assms(10-15)] sy'(1) by (simp add: assms(5))
  have "admissible_run env sy' ts" using adm(2) admissible_run_append [OF sy'(1)] by simp
  then have "size (waiting sy' x) \<le> n \<longrightarrow> sent_out x (run_output env ts sy') = waiting sy' x"
    using drain [OF sy'(2) _ refl] by (simp add: assms(6))
  then show ?thesis using kept sy'(1) system_run_append [OF sy'(1)] by (simp add: add.commute)
qed

section \<open>A concrete run\<close>

text \<open>
  A configuration that accepts everything, with a UDP interface and a serial port on which the component
  1.3 is known from the start.
\<close>

definition relay_tree :: "node list" where
  "relay_tree =
     [Node ''config::default_action'' 1 None [Node ''config::accept'' 1 None []],
      Node ''config::udp'' 2 None [Node ''config::port'' 3 (Some ''14555'') []],
      Node ''config::serial'' 5 None
        [Node ''config::device'' 6 (Some ''ttyS0'') [], Node ''config::preload'' 7 (Some ''1.3'') []]]"

definition relay_filter :: Filter where
  "relay_filter = \<lparr>filter_chains = [\<lparr>chain_name = ''default'', chain_rules = []\<rparr>], default_chain = 0, accept_by_default = True\<rparr>"

lemma relay_tree_filter: "parse_filter ml tok relay_tree = Inr relay_filter"
  by (simp add: parse_filter_def relay_tree_def relay_filter_def Chain_construct_def sum_bind_def parse_chain_def Filter_construct_eq)

lemma relay_verdict: "will_accept relay_filter t p addr (\<lambda>_. {}) = Some (Inr (True, 0), \<lambda>_. {})"
  by (simp add: will_accept_def nesting_def relay_filter_def chain_at_def guard_enter_def guard_exit_def
      make_continue_def fun_eq_iff)

definition relay_address :: MAVAddress where
  "relay_address = MkMAVAddress 0x103"

lemma relay_text: "MAVAddress_of_string ''1.3'' = Inr relay_address"
  by (simp add: MAVAddress_of_string_def stream_eval MAVAddress_construct_def relay_address_def)

definition relay_conn :: "string \<Rightarrow> Filter \<Rightarrow> int \<Rightarrow> MAVAddress \<Rightarrow> Connection" where
  "relay_conn name F t a =
     \<lparr>conn_name = name, conn_filter = F, conn_mirror = False, conn_pool = pool_add t a (AddressPool_construct 120000),
      conn_queue = PacketQueue_construct False\<rparr>"

lemma preload_one:
  "net_conns (w_net w) c = Some conn \<Longrightarrow> preload_addresses sample_env clk 0 c [a] w =
     (Inr (), w\<lparr>w_net := (w_net w)\<lparr>net_conns := (net_conns (w_net w))
        (c \<mapsto> conn\<lparr>conn_pool := pool_add (rd_add (clk 0)) a (conn_pool conn)\<rparr>)\<rparr>\<rparr>)"
  by (simp add: call_add_address_def on_connection_def add_address_def andthen_def ret_def env_in_def
      notify_owner_def sample_env_def split: option.split)

lemma attach_one:
  "attach_serial sample_env clk name F [a] w =
     (Inr \<lparr>ser_connection = w_next w, ser_parser = parser_initial\<rparr>,
      w\<lparr>w_net := (w_net w)\<lparr>net_conns := (net_conns (w_net w))(w_next w \<mapsto> relay_conn name F (rd_add (clk 0)) a)\<rparr>,
        w_next := Suc (w_next w), w_pool := conn_pool_add (w_next w) (w_pool w)\<rparr>)"
  by (simp add: attach_serial_def Connection_construct_def SerialInterface_construct_def Let_def preload_one relay_conn_def
      del: preload_addresses.simps)

lemma relay_options:
  "serial_options [Node ''config::device'' 6 (Some ''ttyS0'') [], Node ''config::preload'' 7 (Some ''1.3'') []] serial_defaults =
     Inr \<lparr>ss_device = Some ''ttyS0'', ss_baud_rate = 9600, ss_features = 0, ss_preload = [relay_address]\<rparr>"
  by (simp add: sum_bind_def content_def relay_text serial_defaults_def)

lemma relay_udp:
  "\<exists>socket u s1. parse_udp (table_os 0) (\<lambda>_. []) 0 F
      (Node ''config::udp'' 2 None [Node ''config::port'' 3 (Some ''14555'') []]) [] new_world =
     (Inr (UDPLink socket u), s1, new_world)"
proof -
  have "stol ''14555'' = Inr 14555" by (simp add: stol_def sto_signed_def stream_eval)
  moreover have "(\<lambda>f. if f = (0::nat) then 0 else 0) = (\<lambda>_. 0 :: u64)" by auto
  ultimately show ?thesis
    by (simp add: parse_udp_def content_def sum_bind_def udp_defaults_def UnixUDPSocket_construct_def
        create_socket_def table_os_def fresh_descriptor_def Let_def UDPInterface_construct_def
        ConnectionFactory_construct_def new_world_def fun_upd_def)
qed

lemma relay_serial:
  "\<exists>port s1. parse_serial (table_os 0) sample_env (sample_readings 1) F
      (Node ''config::serial'' 5 None
        [Node ''config::device'' 6 (Some ''ttyS0'') [], Node ''config::preload'' 7 (Some ''1.3'') []]) s w =
     (Inr (SerialLink port \<lparr>ser_connection = w_next w, ser_parser = parser_initial\<rparr>), s1,
      w\<lparr>w_net := (w_net w)\<lparr>net_conns := (net_conns (w_net w))(w_next w \<mapsto> relay_conn ''ttyS0'' F 0 relay_address)\<rparr>,
        w_next := Suc (w_next w), w_pool := conn_pool_add (w_next w) (w_pool w)\<rparr>)"
  using fresh_descriptor(1) [of s]
  by (simp add: parse_serial_def relay_options attach_one UnixSerialPort_construct_def open_port_def
        configure_port_def speed_constant_def speed_table_def table_os_def Let_def
        sample_readings_def del: serial_options.simps)

lemma relay_app:
  "\<exists>app s' w port socket u. make_app (table_os 0) (\<lambda>_. []) (\<lambda>_. []) sample_env sample_readings relay_tree [] = (Inr app, s', w) \<and>
     map fst app = [UDPLink socket u, SerialLink port \<lparr>ser_connection = 0, ser_parser = parser_initial\<rparr>] \<and>
     net_conns (w_net w) 0 = Some (relay_conn ''ttyS0'' relay_filter 0 relay_address)"
proof -
  obtain socket u s1 where udp: "parse_udp (table_os 0) (\<lambda>_. []) 0 relay_filter
      (Node ''config::udp'' 2 None [Node ''config::port'' 3 (Some ''14555'') []]) [] new_world =
     (Inr (UDPLink socket u), s1, new_world)" using relay_udp by blast
  obtain port s2 where ser: "parse_serial (table_os 0) sample_env (sample_readings 1) relay_filter
      (Node ''config::serial'' 5 None
        [Node ''config::device'' 6 (Some ''ttyS0'') [], Node ''config::preload'' 7 (Some ''1.3'') []]) s1 new_world =
     (Inr (SerialLink port \<lparr>ser_connection = w_next new_world, ser_parser = parser_initial\<rparr>), s2,
      new_world\<lparr>w_net := (w_net new_world)\<lparr>net_conns :=
          (net_conns (w_net new_world))(w_next new_world \<mapsto> relay_conn ''ttyS0'' relay_filter 0 relay_address)\<rparr>,
        w_next := Suc (w_next new_world), w_pool := conn_pool_add (w_next new_world) (w_pool new_world)\<rparr>)"
    using relay_serial by blast
  show ?thesis
    using udp ser
    by (simp add: make_app_def parse_interfaces_def relay_tree_filter App_construct_def)
       (simp add: relay_tree_def App_construct_def new_world_def)
qed

lemma relay_ranked: "config_ranked (\<lambda>_. 0) relay_tree"
  by (auto simp: config_ranked_def uses_chain_def block_rules_def relay_tree_def is_block_def split: if_splits)

lemma relay_live: "live 0 (conn_pool (relay_conn name F 0 a)) = {a}"
  by (auto simp: relay_conn_def live_def pool_add_def AddressPool_construct_def split: if_splits)

lemma relay_routes:
  "routes sample_env (sample_readings 0 0) heartbeat (\<lambda>_. {}) c (relay_conn name relay_filter 0 relay_address)"
proof -
  have "verdict_of sample_env (\<lambda>_. {}) heartbeat (relay_conn name relay_filter 0 relay_address) a = (True, 0)" for a
    by (simp add: verdict_of_def relay_verdict relay_conn_def)
  moreover have "mav_of_bytes 1 2 \<noteq> relay_address" by (simp add: mav_of_bytes_def relay_address_def)
  ultimately show ?thesis
    by (simp add: routes_def heartbeat_queries sample_readings_def relay_live delivery_def best_priority_def)
qed

theorem forwards_live_packets_witness:
  "\<exists>app s' w. make_app (table_os 0) (\<lambda>_. []) (\<lambda>_. []) sample_env sample_readings relay_tree [] = (Inr app, s', w) \<and>
     sample_heartbeat \<in># sent_out (1, None) (run_output sample_env sample_events (system_of app w))"
proof -
  obtain app s' w port socket u where a:
      "make_app (table_os 0) (\<lambda>_. []) (\<lambda>_. []) sample_env sample_readings relay_tree [] = (Inr app, s', w)"
      "map fst app = [UDPLink socket u, SerialLink port \<lparr>ser_connection = 0, ser_parser = parser_initial\<rparr>]"
      "net_conns (w_net w) 0 = Some (relay_conn ''ttyS0'' relay_filter 0 relay_address)"
    using relay_app by (elim exE conjE) (rule that)
  have kinds: "map node_name (filter is_link relay_tree) = [''config::udp'', ''config::serial'']"
    by (simp add: relay_tree_def is_link_def)
  obtain F where F: "built sample_env F (map fst app) w"
      "\<forall>ip. datagram_frames common_mavlink sample_heartbeat ip u = [(V1, sample_heartbeat)]"
    using two_links [OF a(1) relay_ranked kinds] a(2) by auto
  let ?sy = "system_of app w" and ?x = "(1 :: nat, None :: IPAddress option)" and ?ip = "MkIPAddress 1 14550"
  let ?evs = "[Receive 0 (sample_readings 0) ([] @ sample_heartbeat) ?ip]"
  have sy: "sy_links ?sy = [UDPLink socket u, SerialLink port \<lparr>ser_connection = 0, ser_parser = parser_initial\<rparr>]"
      "sy_world ?sy = w"
    using a(2) by (simp_all add: system_of_def)
  have inv: "system_inv sample_env F ?sy" using built_system [OF F(1)] by (simp add: system_of_def)
  have ev: "sample_events = [] @ ?evs @ replicate 1 (Transmit (fst ?x))" by (simp add: sample_events_def)
  have adm: "admissible_run sample_env ?sy sample_events" by (rule two_links_admissible [OF a(1) relay_ranked kinds])
  have "\<not> v1_too_short common_mavlink heartbeat"
    using dest_or_short [OF heartbeat_wf common_tables_agree] by (simp add: heartbeat_queries)
  moreover have ps: "link_packets sample_env sample_heartbeat ?ip (sy_links ?sy ! 0) = [heartbeat]"
    using F(2) heartbeat_frames by (simp add: sy link_packets_def)
  ultimately have short: "\<not> short_received sample_env (run_input sample_env sample_events ?sy)"
    by (simp add: sample_events_def short_received_def del: system_step.simps)
  have empty: "system_step sample_env (Receive 0 (sample_readings 0) [] ?ip) ?sy = (Inr (), ?sy)"
    "link_packets sample_env [] ?ip (sy_links ?sy ! 0) = []"
    using a(2) by (simp_all add: system_of_def link_receive_def udp_receive_packet_def link_packets_def datagram_frames_def
        packets_of_def)
  have tables: "mavlink_tables_agree (env_mavlink sample_env)" using common_tables_agree by simp
  have conn: "endpoint_conn (sy_links ?sy) ?x = Some 0" by (simp add: sy endpoint_conn_def)
  have x: "?x \<noteq> link_endpoint 0 ?ip (sy_links ?sy ! 0)" by (simp add: link_endpoint_def)
  have c: "net_conns (w_net (sy_world ?sy)) 0 = Some (relay_conn ''ttyS0'' relay_filter 0 relay_address)" by (simp add: sy a(3))
  obtain sy' where all: "system_run sample_env ?evs ?sy = (Inr (), sy')"
      "size (waiting sy' ?x) \<le> 1 \<longrightarrow>
         add_mset (pkt_data heartbeat) (waiting ?sy ?x) \<subseteq># sent_out ?x (run_output sample_env sample_events ?sy)"
    using forwards_live_packets [OF a(1) relay_ranked sample_readings_ok tables refl refl
        admissible_run_timely [OF inv adm, unfolded ev] short [unfolded ev] _ empty(1) ps x conn c] relay_routes
    unfolding ev empty(2) list.size(3) by auto
  have "admissible_run sample_env ?sy (?evs @ replicate 1 (Transmit (fst ?x)))" using adm unfolding ev by (simp only: append_Nil)
  then have "admissible_run sample_env ?sy ?evs" by (rule admissible_run_prefix)
  from run_waiting [OF inv this, of ?x] waiting_start [OF F(1)]
  have "waiting sy' ?x \<subseteq># from_others sample_env F ?x (run_input sample_env ?evs ?sy)" using all(1) by simp
  moreover have "size (from_others sample_env F ?x (run_input sample_env ?evs ?sy)) \<le> 1"
    using ps by (simp add: from_others_def through_def)
  ultimately have "size (waiting sy' ?x) \<le> 1" using size_mset_mono by fastforce
  then show ?thesis using all(2) a(1) mset_subset_eqD by fastforce
qed

end
