(* ===== verification/UnixRuns.thy ===== *)
theory UnixRuns
  imports Delivery "HOL-Library.Sublist"
begin

text \<open>
  The program on Unix devices.  The interfaces read from and write to \<open>UnixSerialPort\<close> and
  \<open>UnixUDPSocket\<close>, which may throw, over any operating system; an exception that leaves a call of an
  interface ends the program.  The runs are related to those of the theory \<open>System\<close>, whose devices take
  what they are given.
\<close>

section \<open>Interfaces on their devices\<close>

text \<open>\<open>receive_packet\<close>: the block is read from the device, then handled.\<close>

definition serial_receive_on ::
  "'s unix_calls \<Rightarrow> environment \<Rightarrow> (nat \<Rightarrow> readings) \<Rightarrow> int \<Rightarrow> UnixSerialPort \<Rightarrow> SerialInterface \<Rightarrow> world \<Rightarrow> 's \<Rightarrow>
   (cpp_error + unit) \<times> Interface \<times> world \<times> 's" where
  "serial_receive_on sys env clk timeout port i w s =
     (case serial_port_read sys timeout port s of
        (Inl e, port', s') \<Rightarrow> (Inl e, SerialLink port' i, w, s')
      | (Inr buffer, port', s') \<Rightarrow>
          (case serial_receive_packet env clk buffer i w of
             (r, i', w') \<Rightarrow> (r, SerialLink port' i', w', s')))"

definition udp_receive_on ::
  "'s unix_calls \<Rightarrow> environment \<Rightarrow> (nat \<Rightarrow> readings) \<Rightarrow> int \<Rightarrow> UnixUDPSocket \<Rightarrow> UDPInterface \<Rightarrow> world \<Rightarrow> 's \<Rightarrow>
   (cpp_error + unit) \<times> Interface \<times> world \<times> 's" where
  "udp_receive_on sys env clk timeout socket i w s =
     (case udp_socket_receive sys timeout socket s of
        (Inl e, socket', s') \<Rightarrow> (Inl e, UDPLink socket' i, w, s')
      | (Inr (buffer, ip), socket', s') \<Rightarrow>
          (case udp_receive_packet env clk buffer ip i w of
             (r, i', w') \<Rightarrow> (r, UDPLink socket' i', w', s')))"

text \<open>
  \<open>send_packet\<close>: what the device took, and the exception if there is one.  A packet that the device
  does not take has left its queue.
\<close>

definition serial_send_on ::
  "'s unix_calls \<Rightarrow> UnixSerialPort \<Rightarrow> SerialInterface \<Rightarrow> world \<Rightarrow> 's \<Rightarrow>
   u8 list list \<times> cpp_error option \<times> world \<times> 's" where
  "serial_send_on sys port i w s =
     (case net_conns (w_net w) (ser_connection i) of
        None \<Rightarrow> ([], Some (Undefined_behaviour ''null connection''), w, s)
      | Some conn \<Rightarrow>
          (let (packet, conn') = next_packet conn;
               w' = w\<lparr>w_net := (w_net w)\<lparr>net_conns := (net_conns (w_net w))(ser_connection i \<mapsto> conn')\<rparr>\<rparr>
           in case packet of
                None \<Rightarrow> ([], None, w', s)
              | Some p \<Rightarrow>
                  (case serial_port_write sys (pkt_data p) port s of
                     (Inl e, s') \<Rightarrow> ([], Some e, w', s')
                   | (Inr _, s') \<Rightarrow> ([pkt_data p], None, w', s'))))"

fun udp_send_loop_on ::
  "'s unix_calls \<Rightarrow> ConnectionFactory \<Rightarrow> (IPAddress \<times> nat) list \<Rightarrow> bool \<Rightarrow> network \<Rightarrow> UnixUDPSocket \<Rightarrow> 's \<Rightarrow>
   (u8 list \<times> IPAddress) list \<times> cpp_error option \<times> network \<times> UnixUDPSocket \<times> 's" where
  "udp_send_loop_on sys cf [] not_first n u s = ([], None, n, u, s)"
| "udp_send_loop_on sys cf ((ip, c) # conns) not_first n u s =
     (case net_conns n c of
        None \<Rightarrow> ([], Some (Undefined_behaviour ''null connection''), n, u, s)
      | Some conn \<Rightarrow>
          (let (packet, conn') = next_packet conn; n' = n\<lparr>net_conns := (net_conns n)(c \<mapsto> conn')\<rparr> in
           case packet of
             None \<Rightarrow> udp_send_loop_on sys cf conns not_first n' u s
           | Some p \<Rightarrow>
               (case udp_socket_send sys (pkt_data p) ip u s of
                  (Inl e, u', s') \<Rightarrow> ([], Some e, n', u', s')
                | (Inr _, u', s') \<Rightarrow>
                    (case udp_send_loop_on sys cf conns True
                            (if not_first then snd (wait_for_packet cf n') else n') u' s' of
                       (out, e, n'', u'', s'') \<Rightarrow> ((pkt_data p, ip) # out, e, n'', u'', s'')))))"

definition udp_send_on ::
  "'s unix_calls \<Rightarrow> UnixUDPSocket \<Rightarrow> UDPInterface \<Rightarrow> world \<Rightarrow> 's \<Rightarrow>
   (u8 list \<times> IPAddress) list \<times> cpp_error option \<times> UnixUDPSocket \<times> world \<times> 's" where
  "udp_send_on sys u i w s =
     (let (available, n) = wait_for_packet (udp_factory i) (w_net w) in
      if available
      then (case udp_send_loop_on sys (udp_factory i) (udp_connections i) False n u s of
              (out, e, n', u', s') \<Rightarrow> (out, e, u', w\<lparr>w_net := n'\<rparr>, s'))
      else ([], None, u, w\<lparr>w_net := n\<rparr>, s))"

section \<open>Runs\<close>

text \<open>The 100 ms that \<open>App\<close> gives to each threader, in nanoseconds.\<close>

definition call_timeout :: int where
  "call_timeout = 100000000"

definition receive_on ::
  "'s unix_calls \<Rightarrow> environment \<Rightarrow> (nat \<Rightarrow> readings) \<Rightarrow> Interface \<Rightarrow> world \<Rightarrow> 's \<Rightarrow>
   (cpp_error + unit) \<times> Interface \<times> world \<times> 's" where
  "receive_on sys env clk l w s =
     (case l of
        SerialLink port i \<Rightarrow> serial_receive_on sys env clk call_timeout port i w s
      | UDPLink socket i \<Rightarrow> udp_receive_on sys env clk call_timeout socket i w s)"

definition send_on ::
  "'s unix_calls \<Rightarrow> Interface \<Rightarrow> world \<Rightarrow> 's \<Rightarrow>
   (IPAddress option \<times> u8 list) list \<times> cpp_error option \<times> Interface \<times> world \<times> 's" where
  "send_on sys l w s =
     (case l of
        SerialLink port i \<Rightarrow>
          (case serial_send_on sys port i w s of
             (out, e, w', s') \<Rightarrow> (map (Pair None) out, e, SerialLink port i, w', s'))
      | UDPLink socket i \<Rightarrow>
          (case udp_send_on sys socket i w s of
             (out, e, socket', w', s') \<Rightarrow> (map (\<lambda>(d, ip). (Some ip, d)) out, e, UDPLink socket' i, w', s')))"

text \<open>A call of a worker of the interface with the given number.\<close>

datatype unix_event = Receiver nat "nat \<Rightarrow> readings" | Transmitter nat

type_synonym 's unix_state = "system \<times> 's"

fun unix_step ::
  "'s unix_calls \<Rightarrow> environment \<Rightarrow> unix_event \<Rightarrow> 's unix_state \<Rightarrow>
   (endpoint \<times> u8 list) list \<times> cpp_error option \<times> 's unix_state" where
  "unix_step sys env (Receiver k clk) (sy, s) =
     (case receive_on sys env clk (sy_links sy ! k) (sy_world sy) s of
        (r, l, w, s') \<Rightarrow>
          ([], case r of Inl e \<Rightarrow> Some e | Inr _ \<Rightarrow> None, \<lparr>sy_links = (sy_links sy)[k := l], sy_world = w\<rparr>, s'))"
| "unix_step sys env (Transmitter k) (sy, s) =
     (case send_on sys (sy_links sy ! k) (sy_world sy) s of
        (out, e, l, w, s') \<Rightarrow>
          (map (\<lambda>(a, d). ((k, a), d)) out, e, \<lparr>sy_links = (sy_links sy)[k := l], sy_world = w\<rparr>, s'))"

text \<open>
  The event of the theory \<open>System\<close> that a call amounts to: the block its device gives, if it gives one.
  The address that comes with the block of a serial port has no meaning.
\<close>

fun seen :: "'s unix_calls \<Rightarrow> unix_event \<Rightarrow> 's unix_state \<Rightarrow> event list" where
  "seen sys (Receiver k clk) (sy, s) =
     (case sy_links sy ! k of
        SerialLink port i \<Rightarrow>
          (case fst (serial_port_read sys call_timeout port s) of
             Inl e \<Rightarrow> [] | Inr buffer \<Rightarrow> [Receive k clk buffer (MkIPAddress 0 0)])
      | UDPLink socket i \<Rightarrow>
          (case fst (udp_socket_receive sys call_timeout socket s) of
             Inl e \<Rightarrow> [] | Inr (buffer, ip) \<Rightarrow> [Receive k clk buffer ip]))"
| "seen sys (Transmitter k) st = [Transmit k]"

text \<open>
  A run ends with its calls or with the first exception; while the interfaces are not being shut down
  every exception ends the program.  It gives the exception, the events it
  amounts to, what the devices took, and the last state.
\<close>

fun unix_run ::
  "'s unix_calls \<Rightarrow> environment \<Rightarrow> unix_event list \<Rightarrow> 's unix_state \<Rightarrow>
   cpp_error option \<times> event list \<times> (endpoint \<times> u8 list) list \<times> 's unix_state" where
  "unix_run sys env [] st = (None, [], [], st)"
| "unix_run sys env (e # es) st =
     (case unix_step sys env e st of
        (out, Some x, st') \<Rightarrow> (Some x, seen sys e st, out, st')
      | (out, None, st') \<Rightarrow>
          (case unix_run sys env es st' of
             (x, evs, outs, st'') \<Rightarrow> (x, seen sys e st @ evs, out @ outs, st'')))"

text \<open>How a call ends for the worker that makes it.\<close>

definition call_end_of :: "cpp_error option \<Rightarrow> call_end" where
  "call_end_of x =
     (case x of
        None \<Rightarrow> Returned
      | Some e \<Rightarrow> (case e of PartialSendError _ _ \<Rightarrow> Partial_send | _ \<Rightarrow> Other_error))"

text \<open>The exceptions a device can throw.\<close>

definition device_raises :: "'s unix_calls \<Rightarrow> cpp_error \<Rightarrow> bool" where
  "device_raises sys e \<longleftrightarrow>
     (\<exists>port s. fst (serial_port_read sys call_timeout port s) = Inl e) \<or>
     (\<exists>data port s. fst (serial_port_write sys data port s) = Inl e) \<or>
     (\<exists>socket s. fst (udp_socket_receive sys call_timeout socket s) = Inl e) \<or>
     (\<exists>data ip socket s. fst (udp_socket_send sys data ip socket s) = Inl e)"

lemma device_raisesI:
  "serial_port_read sys call_timeout port s = (Inl e, t) \<Longrightarrow> device_raises sys e"
  "serial_port_write sys data port s = (Inl e, s') \<Longrightarrow> device_raises sys e"
  "udp_socket_receive sys call_timeout socket s = (Inl e, v) \<Longrightarrow> device_raises sys e"
  "udp_socket_send sys data ip socket s = (Inl e, v) \<Longrightarrow> device_raises sys e"
  unfolding device_raises_def by (metis fst_conv)+

lemma udp_socket_send_raises:
  assumes "udp_socket_send sys data ip socket s = (Inl e, v)"
  shows "call_end_of (Some e) = Other_error"
  using assms by (auto simp: udp_socket_send_def system_error_def call_end_of_def Let_def split: prod.splits if_splits)

lemma map_sum_Inr: "map_sum id (\<lambda>_. ()) r = Inr () \<longleftrightarrow> (\<exists>x. r = Inr x)"
  by (cases r) simp_all

section \<open>Devices make no difference\<close>

fun same_link :: "Interface \<Rightarrow> Interface \<Rightarrow> bool" where
  "same_link (SerialLink port i) (SerialLink port' i') \<longleftrightarrow> i = i'"
| "same_link (UDPLink socket i) (UDPLink socket' i') \<longleftrightarrow> i = i'"
| "same_link _ _ \<longleftrightarrow> False"

definition same_program :: "system \<Rightarrow> system \<Rightarrow> bool" where
  "same_program sy sy' \<longleftrightarrow> list_all2 same_link (sy_links sy) (sy_links sy') \<and> sy_world sy = sy_world sy'"

lemma same_link_refl [simp]: "same_link l l"
  by (cases l) simp_all

lemma same_link_trans: "same_link l m \<Longrightarrow> same_link m n \<Longrightarrow> same_link l n"
  by (cases l; cases m; cases n) simp_all

lemma same_program_refl [simp]: "same_program sy sy"
  by (simp add: same_program_def list_all2_same)

lemma same_program_update:
  assumes "same_program sy sy'" "same_link l l'"
  shows "same_program \<lparr>sy_links = (sy_links sy)[k := l], sy_world = w\<rparr>
    \<lparr>sy_links = (sy_links sy')[k := l'], sy_world = w\<rparr>"
  using assms by (auto simp: same_program_def intro: list_all2_update_cong)

lemma same_program_keep:
  assumes "same_program sy sy'" "same_link l (sy_links sy ! k)"
  shows "same_program \<lparr>sy_links = (sy_links sy)[k := l], sy_world = sy_world sy\<rparr> sy'"
proof -
  have "same_link ((sy_links sy)[k := l] ! i) (sy_links sy' ! i)" if "i < length (sy_links sy)" for i
  proof (cases "k = i")
    case True
    have "same_link (sy_links sy ! k) (sy_links sy' ! k)"
      using assms(1) that True by (simp add: same_program_def list_all2_conv_all_nth)
    then show ?thesis using same_link_trans [OF assms(2)] True that by simp
  qed (use assms(1) that in \<open>simp add: same_program_def list_all2_conv_all_nth\<close>)
  then show ?thesis using assms(1) by (simp add: same_program_def list_all2_conv_all_nth)
qed

lemma same_program_link:
  "same_program sy sy' \<Longrightarrow> k < length (sy_links sy') \<Longrightarrow> same_link (sy_links sy ! k) (sy_links sy' ! k)"
  by (simp add: same_program_def list_all2_conv_all_nth)

lemma udp_loop_agrees:
  "udp_send_loop_on sys cf conns b n u s = (out, x, n', u', s') \<Longrightarrow>
   udp_send_loop (\<lambda>_ _. Inr ()) cf conns b n = (Inr all, m) \<Longrightarrow>
   case x of None \<Rightarrow> all = out \<and> m = n'
   | Some e \<Rightarrow> prefix out all \<and> device_raises sys e \<and> call_end_of x = Other_error"
proof (induction sys cf conns b n u s arbitrary: out x n' u' s' all m rule: udp_send_loop_on.induct)
  case (2 sys cf ip c conns b n u s)
  obtain conn where conn: "net_conns n c = Some conn" using "2.prems"(2) by (auto split: option.splits)
  obtain packet conn' where nx: "next_packet conn = (packet, conn')" by fastforce
  let ?n = "n\<lparr>net_conns := (net_conns n)(c \<mapsto> conn')\<rparr>"
  show ?case
  proof (cases packet)
    case None
    then show ?thesis using "2.IH"(1) [OF conn nx [symmetric] refl refl None] "2.prems" conn nx by simp
  next
    case (Some p)
    obtain r v t where snd: "udp_socket_send sys (pkt_data p) ip u s = (r, v, t)" by (metis prod_cases3)
    show ?thesis
    proof (cases r)
      case (Inl e)
      then have "out = []" "x = Some e" using "2.prems"(1) conn nx Some snd by simp_all
      then show ?thesis using snd Inl by (simp add: device_raisesI(4) udp_socket_send_raises)
    next
      case (Inr y)
      let ?n1 = "if b then snd (wait_for_packet cf ?n) else ?n"
      obtain out1 where run: "udp_send_loop_on sys cf conns True ?n1 v t = (out1, x, n', u', s')"
          "out = (pkt_data p, ip) # out1"
        using "2.prems"(1) conn nx Some snd Inr by (auto simp: Let_def split: prod.splits)
      obtain all1 where acc: "udp_send_loop (\<lambda>_ _. Inr ()) cf conns True ?n1 = (Inr all1, m)"
          "all = (pkt_data p, ip) # all1"
        using "2.prems"(2) conn nx Some by (auto simp: Let_def split: prod.splits sum.splits)
      have "case x of None \<Rightarrow> all1 = out1 \<and> m = n'
         | Some e \<Rightarrow> prefix out1 all1 \<and> device_raises sys e \<and> call_end_of x = Other_error"
        using "2.IH"(2) [OF conn nx [symmetric] refl refl Some snd [symmetric] Inr refl run(1) acc(1)] by simp
      then show ?thesis using run(2) acc(2) by (auto split: option.splits)
    qed
  qed
qed simp

text \<open>A link on its device against the link of \<open>System\<close>.\<close>

definition seen_receive :: "'s unix_calls \<Rightarrow> Interface \<Rightarrow> 's \<Rightarrow> cpp_error + u8 list \<times> IPAddress" where
  "seen_receive sys l s =
     (case l of
        SerialLink port i \<Rightarrow> map_sum id (\<lambda>buffer. (buffer, MkIPAddress 0 0)) (fst (serial_port_read sys call_timeout port s))
      | UDPLink socket i \<Rightarrow> fst (udp_socket_receive sys call_timeout socket s))"

lemma seen_Receiver:
  "seen sys (Receiver k clk) (sy, s) =
     (case seen_receive sys (sy_links sy ! k) s of Inl e \<Rightarrow> [] | Inr (buffer, ip) \<Rightarrow> [Receive k clk buffer ip])"
  by (simp add: seen_receive_def split: Interface.split sum.split prod.split)

lemma receive_on_agrees:
  assumes "receive_on sys env clk l w s = (r, l', w', s')" "same_link l m"
  shows "case seen_receive sys l s of
      Inl e \<Rightarrow> r = Inl e \<and> device_raises sys e \<and> w' = w \<and> same_link l' m
    | Inr (buffer, ip) \<Rightarrow> \<exists>m'. link_receive env clk buffer ip m w = (r, m', w') \<and> same_link l' m'"
proof (cases l)
  case (SerialLink port i)
  then obtain port0 where m: "m = SerialLink port0 i" using assms(2) by (cases m) simp_all
  obtain q port' t where read: "serial_port_read sys call_timeout port s = (q, port', t)" by (metis prod_cases3)
  show ?thesis
  proof (cases q)
    case (Inl e)
    then show ?thesis
      using assms(1) SerialLink m read by (auto simp: device_raisesI(1) receive_on_def serial_receive_on_def seen_receive_def)
  next
    case (Inr buffer)
    then show ?thesis
      using assms(1) SerialLink m read
      by (auto simp: receive_on_def serial_receive_on_def seen_receive_def link_receive_def split: prod.splits)
  qed
next
  case (UDPLink socket i)
  then obtain socket0 where m: "m = UDPLink socket0 i" using assms(2) by (cases m) simp_all
  obtain q socket' t where read: "udp_socket_receive sys call_timeout socket s = (q, socket', t)" by (metis prod_cases3)
  show ?thesis
  proof (cases q)
    case (Inl e)
    then show ?thesis
      using assms(1) UDPLink m read by (auto simp: device_raisesI(3) receive_on_def udp_receive_on_def seen_receive_def)
  next
    case (Inr d)
    then show ?thesis
      using assms(1) UDPLink m read
      by (auto simp: receive_on_def udp_receive_on_def seen_receive_def link_receive_def split: prod.splits)
  qed
qed

lemma serial_send_agrees:
  assumes "serial_send_on sys port i w s = (out, x, w', s')" "serial_send_packet (\<lambda>_. Inr ()) i w = (Inr all, v)"
  shows "case x of None \<Rightarrow> all = out \<and> v = w'
    | Some e \<Rightarrow> prefix out all \<and> device_raises sys e \<and> v = w'"
proof -
  obtain conn where conn: "net_conns (w_net w) (ser_connection i) = Some conn"
    using assms(2) by (auto simp: serial_send_packet_def split: option.splits)
  obtain packet conn' where nx: "next_packet conn = (packet, conn')" by fastforce
  show ?thesis
  proof (cases packet)
    case None
    then show ?thesis using assms conn nx by (auto simp: serial_send_on_def serial_send_packet_def Let_def)
  next
    case (Some p)
    obtain r t where wr: "serial_port_write sys (pkt_data p) port s = (r, t)" by fastforce
    then have "r = Inl e \<Longrightarrow> device_raises sys e" for e
      using device_raisesI(2) [of sys "pkt_data p" port s e t] by simp
    then show ?thesis
      using assms conn nx Some wr
      by (cases r) (auto simp: serial_send_on_def serial_send_packet_def Let_def)
  qed
qed

lemma udp_send_agrees:
  assumes "udp_send_on sys u i w s = (out, x, u', w', s')" "udp_send_packet (\<lambda>_ _. Inr ()) i w = (Inr all, v)"
  shows "case x of None \<Rightarrow> all = out \<and> v = w'
    | Some e \<Rightarrow> prefix out all \<and> device_raises sys e \<and> call_end_of x = Other_error"
proof -
  obtain available n where wait: "wait_for_packet (udp_factory i) (w_net w) = (available, n)" by fastforce
  show ?thesis
  proof (cases available)
    case True
    obtain n1 where on: "udp_send_loop_on sys (udp_factory i) (udp_connections i) False n u s = (out, x, n1, u', s')"
        "w' = w\<lparr>w_net := n1\<rparr>"
      using assms(1) wait True by (auto simp: udp_send_on_def split: prod.splits)
    obtain n2 where acc: "udp_send_loop (\<lambda>_ _. Inr ()) (udp_factory i) (udp_connections i) False n = (Inr all, n2)"
        "v = w\<lparr>w_net := n2\<rparr>"
      using assms(2) wait True by (auto simp: udp_send_packet_def split: prod.splits)
    show ?thesis using udp_loop_agrees [OF on(1) acc(1)] on(2) acc(2) by (simp split: option.splits)
  next
    case False
    then show ?thesis using assms wait by (auto simp: udp_send_on_def udp_send_packet_def)
  qed
qed

lemma send_on_agrees:
  assumes "send_on sys l w s = (out, x, l', w', s')" "same_link l m" "link_send m w = (Inr (), v)"
  shows "same_link l' m \<and>
    (case x of
       None \<Rightarrow> out = link_output m w \<and> v = w'
     | Some e \<Rightarrow> prefix out (link_output m w) \<and> device_raises sys e \<and> (call_end_of x = Partial_send \<longrightarrow> v = w'))"
proof (cases l)
  case (SerialLink port i)
  then obtain port0 where m: "m = SerialLink port0 i" using assms(2) by (cases m) simp_all
  obtain out1 where on: "serial_send_on sys port i w s = (out1, x, w', s')" "out = map (Pair None) out1"
      "l' = SerialLink port i"
    using assms(1) SerialLink by (auto simp: send_on_def split: prod.splits)
  obtain all where acc: "serial_send_packet (\<lambda>_. Inr ()) i w = (Inr all, v)"
    using assms(3) m by (auto simp: link_send_def map_sum_Inr split: prod.splits)
  show ?thesis using serial_send_agrees [OF on(1) acc] on(2,3) m acc
    by (auto simp: link_output_def map_mono_prefix split: option.splits)
next
  case (UDPLink socket i)
  then obtain socket0 where m: "m = UDPLink socket0 i" using assms(2) by (cases m) simp_all
  obtain out1 u' where on: "udp_send_on sys socket i w s = (out1, x, u', w', s')"
      "out = map (\<lambda>(d, ip). (Some ip, d)) out1" "l' = UDPLink u' i"
    using assms(1) UDPLink by (auto simp: send_on_def split: prod.splits)
  obtain all where acc: "udp_send_packet (\<lambda>_ _. Inr ()) i w = (Inr all, v)"
    using assms(3) m by (auto simp: link_send_def map_sum_Inr split: prod.splits)
  show ?thesis using udp_send_agrees [OF on(1) acc] on(2,3) m acc
    by (auto simp: link_output_def map_mono_prefix split: option.splits)
qed

section \<open>Unix runs as runs of the program\<close>

text \<open>
  What a call gives, in a state that is that of \<open>System\<close> up to the devices: the same as its event, or a
  part of it and an exception of a device.  A partial write leaves the same state behind.
\<close>

definition agrees ::
  "'s unix_calls \<Rightarrow> environment \<Rightarrow> event list \<Rightarrow> system \<Rightarrow>
   (endpoint \<times> u8 list) list \<Rightarrow> cpp_error option \<Rightarrow> system \<Rightarrow> bool" where
  "agrees sys env evs sy0 out x sy' \<longleftrightarrow>
     (\<exists>sy1. system_run env evs sy0 = (Inr (), sy1) \<and>
        (case x of
           None \<Rightarrow> out = run_output env evs sy0 \<and> same_program sy' sy1
         | Some e \<Rightarrow> prefix out (run_output env evs sy0) \<and> device_raises sys e \<and>
            (call_end_of x = Partial_send \<longrightarrow> same_program sy' sy1)))"

lemma unix_receive_agrees:
  assumes "unix_step sys env (Receiver k clk) (sy, s) = (out, x, sy', s')" "same_program sy sy0"
    "system_inv env F sy0" "admissible_run env sy0 (seen sys (Receiver k clk) (sy, s))"
  shows "agrees sys env (seen sys (Receiver k clk) (sy, s)) sy0 out x sy'"
proof -
  let ?l = "sy_links sy ! k" and ?w = "sy_world sy"
  obtain r l w s1 where on: "receive_on sys env clk ?l ?w s = (r, l, w, s1)" by (rule prod_cases4)
  then have res: "out = []" "x = (case r of Inl e \<Rightarrow> Some e | Inr _ \<Rightarrow> None)"
      "sy' = \<lparr>sy_links = (sy_links sy)[k := l], sy_world = w\<rparr>"
    using assms(1) by auto
  show ?thesis
  proof (cases "seen_receive sys ?l s")
    case (Inl e)
    then have e: "r = Inl e" "device_raises sys e" "w = ?w" "same_link l ?l"
      using receive_on_agrees [OF on same_link_refl] by simp_all
    have "same_program sy' sy0"
      unfolding res(3) e(3) by (rule same_program_keep [OF assms(2) e(4)])
    then show ?thesis using e(1,2) Inl res(1,2) by (simp add: agrees_def seen_Receiver del: seen.simps)
  next
    case (Inr d)
    obtain buffer ip where d: "d = (buffer, ip)" by fastforce
    have seen: "seen sys (Receiver k clk) (sy, s) = [Receive k clk buffer ip]"
      using Inr d by (simp add: seen_Receiver del: seen.simps)
    have adm: "admissible env sy0 (Receive k clk buffer ip)" using assms(4) unfolding seen by simp
    then have k: "k < length (sy_links sy0)" by simp
    obtain m where m: "link_receive env clk buffer ip (sy_links sy0 ! k) ?w = (r, m, w)" "same_link l m"
      using receive_on_agrees [OF on same_program_link [OF assms(2) k]] Inr d by auto
    have w: "sy_world sy0 = ?w" using assms(2) by (simp add: same_program_def)
    obtain sy1 where step: "system_step env (Receive k clk buffer ip) sy0 = (Inr (), sy1)"
      using system_step_ok [OF assms(3) adm] by blast
    then have r: "r = Inr ()" "sy1 = \<lparr>sy_links = (sy_links sy0)[k := m], sy_world = w\<rparr>" using m(1) w by auto
    have "same_program sy' sy1" unfolding r res(3) by (rule same_program_update [OF assms(2) m(2)])
    then show ?thesis using seen step r(1) res(1,2) by (simp add: agrees_def del: system_step.simps seen.simps)
  qed
qed

lemma unix_transmit_agrees:
  assumes "unix_step sys env (Transmitter k) (sy, s) = (out, x, sy', s')" "same_program sy sy0"
    "system_inv env F sy0" "admissible_run env sy0 [Transmit k]"
  shows "agrees sys env [Transmit k] sy0 out x sy'"
proof -
  let ?l = "sy_links sy ! k" and ?w = "sy_world sy" and ?m = "sy_links sy0 ! k"
  obtain out1 l w where on: "send_on sys ?l ?w s = (out1, x, l, w, s')"
      "out = map (\<lambda>(a, d). ((k, a), d)) out1" "sy' = \<lparr>sy_links = (sy_links sy)[k := l], sy_world = w\<rparr>"
    using assms(1) by (auto split: prod.splits)
  have adm: "admissible env sy0 (Transmit k)" using assms(4) by simp
  then have k: "k < length (sy_links sy0)" by simp
  have w: "sy_world sy0 = ?w" using assms(2) by (simp add: same_program_def)
  obtain sy1 where step: "system_step env (Transmit k) sy0 = (Inr (), sy1)"
    using system_step_ok [OF assms(3) adm] by blast
  then obtain v where v: "link_send ?m ?w = (Inr (), v)" "sy1 = sy0\<lparr>sy_world := v\<rparr>"
    using w by (auto split: prod.splits)
  note both = send_on_agrees [OF on(1) same_program_link [OF assms(2) k] v(1)]
  have up: "sy0\<lparr>sy_world := w\<rparr> = \<lparr>sy_links = sy_links sy0, sy_world = w\<rparr>" by (cases sy0) simp
  have "same_program sy' sy1" if "v = w"
    using same_program_update [OF assms(2) conjunct1 [OF both], of k w] on(3) v(2) that up by simp
  then show ?thesis
    using step both on(2) w by (auto simp: agrees_def map_mono_prefix split: option.splits simp del: system_step.simps)
qed

lemma unix_step_agrees:
  assumes "unix_step sys env e (sy, s) = (out, x, sy', s')" "same_program sy sy0"
    "system_inv env F sy0" "admissible_run env sy0 (seen sys e (sy, s))"
  shows "agrees sys env (seen sys e (sy, s)) sy0 out x sy'"
proof (cases e)
  case (Receiver k clk)
  show ?thesis unfolding Receiver by (rule unix_receive_agrees [OF assms [unfolded Receiver]])
next
  case (Transmitter k)
  show ?thesis
    unfolding Transmitter seen.simps(2) by (rule unix_transmit_agrees [OF assms [unfolded Transmitter seen.simps(2)]])
qed

lemma unix_run_agrees:
  "unix_run sys env es (sy, s) = (x, evs, outs, sy', s') \<Longrightarrow> same_program sy sy0 \<Longrightarrow> system_inv env F sy0 \<Longrightarrow>
   admissible_run env sy0 evs \<Longrightarrow> agrees sys env evs sy0 outs x sy'"
proof (induction es arbitrary: sy s sy0 evs outs)
  case Nil
  then show ?case by (simp add: agrees_def)
next
  case (Cons e es)
  obtain out y sya sa where st: "unix_step sys env e (sy, s) = (out, y, sya, sa)" by (rule prod_cases4)
  show ?case
  proof (cases y)
    case (Some err)
    then have "x = Some err" "evs = seen sys e (sy, s)" "outs = out" "sy' = sya"
      using Cons.prems(1) st by simp_all
    then show ?thesis using unix_step_agrees [OF st Cons.prems(2,3)] Cons.prems(4) Some by simp
  next
    case None
    obtain evs1 outs1 where run: "unix_run sys env es (sya, sa) = (x, evs1, outs1, sy', s')"
        "evs = seen sys e (sy, s) @ evs1" "outs = out @ outs1"
      using Cons.prems(1) st None by (auto split: prod.splits)
    have "admissible_run env sy0 (seen sys e (sy, s))"
      using Cons.prems(4) run(2) admissible_run_prefix by blast
    from unix_step_agrees [OF st Cons.prems(2,3) this] None obtain sy1 where
      one: "system_run env (seen sys e (sy, s)) sy0 = (Inr (), sy1)" "same_program sya sy1"
        "out = run_output env (seen sys e (sy, s)) sy0"
      by (auto simp: agrees_def)
    have adm: "admissible_run env sy1 evs1" using Cons.prems(4) admissible_run_append [OF one(1)] run(2) by simp
    have "system_inv env F sy1" using system_run_ok [OF Cons.prems(3)] one(1) \<open>admissible_run env sy0 (seen sys e (sy, s))\<close> by fastforce
    from Cons.IH [OF run(1) one(2) this adm] show ?thesis
      using system_run_append [OF one(1), of evs1] run(2,3) one(3)
      by (auto simp: agrees_def split: option.splits)
  qed
qed

section \<open>Property\<close>

lemma sent_out_prefix: "prefix outs outs' \<Longrightarrow> sent_out y outs \<subseteq># sent_out y outs'"
  by (auto simp: prefix_def)

text \<open>C4: the program on its Unix devices, whatever the operating system does.  A run of the worker calls,
  taken one at a time, is a run of the program with the blocks the devices read: while no device throws,
  the devices take exactly the packets that run sends, and otherwise a first part of them; the only
  exceptions that can end the program early are those a device throws.  In particular nothing is ever
  handed to the operating system for an endpoint but packets received from the other endpoints and
  accepted by the filter.  All this until a version 1 packet too short for a target field of its message
  is received, on which the program has undefined behaviour; the chains do not refer to each other in a
  circle, each packet is handled within two minutes and fewer than \<open>2 ^ 64\<close> packets wait on an interface.\<close>

theorem unix_run_refines:
  assumes "make_app sys tok split_colon env clk root s = (Inr app, s', w)" "config_ranked rank root"
    "\<forall>k i. readings_ok (clk k i)" "mavlink_tables_agree (env_mavlink env)"
    "unix_run sys env calls (system_of app w, s') = (x, evs, outs, sy', s'')"
    "timely_run env (system_of app w) evs" "\<not> short_received env (run_input env evs (system_of app w))"
  shows "\<exists>F sy. parse_filter (env_mavlink env) tok root = Inr F \<and>
    system_run env evs (system_of app w) = (Inr (), sy) \<and>
    (case x of
       None \<Rightarrow> outs = run_output env evs (system_of app w) \<and> same_program sy' sy
     | Some e \<Rightarrow> prefix outs (run_output env evs (system_of app w)) \<and> device_raises sys e) \<and>
    (\<forall>y. sent_out y outs \<subseteq># from_others env F y (run_input env evs (system_of app w)))"
proof -
  from make_app_built [OF assms(1-3)] obtain F where F: "parse_filter (env_mavlink env) tok root = Inr F"
      "built env F (map fst app) w" by blast
  have inv: "system_inv env F (system_of app w)" using built_system [OF F(2)] by (simp add: system_of_def)
  have adm: "admissible_run env (system_of app w) evs"
    using admissible_run_or_short [OF inv assms(4,6)] assms(7) by blast
  obtain sy where sy: "system_run env evs (system_of app w) = (Inr (), sy)"
      "case x of
         None \<Rightarrow> outs = run_output env evs (system_of app w) \<and> same_program sy' sy
       | Some e \<Rightarrow> prefix outs (run_output env evs (system_of app w)) \<and> device_raises sys e"
    using unix_run_agrees [OF assms(5) same_program_refl inv adm] by (cases x) (auto simp: agrees_def)
  have "sent_out y outs \<subseteq># from_others env F y (run_input env evs (system_of app w))" for y
  proof -
    have "prefix outs (run_output env evs (system_of app w))" using sy(2) by (simp split: option.splits)
    from sent_out_prefix [OF this, of y] show ?thesis
      using run_waiting [OF inv adm waiting_start(2) [OF F(2)], of y] waiting_start(1) [OF F(2), of y]
      by (simp add: subset_mset.order_trans [of _ _ "_ + _"]) (meson mset_subset_eq_add_right subset_mset.order_trans)
  qed
  then show ?thesis using F(1) sy by blast
qed

section \<open>Exceptions of a device\<close>

lemma sendto_fails:
  assumes "\<forall>fd d p a s. fst (sys_sendto sys fd d p a s) < 0"
  shows "\<exists>c t. fst (udp_socket_send sys data ip u s) = Inl (System_error c t)"
  using assms by (simp add: udp_socket_send_def system_error_def Let_def split: prod.split) (metis fst_conv)

lemma udp_loop_fails:
  assumes "\<forall>fd d p a s. fst (sys_sendto sys fd d p a s) < 0"
    "udp_send_loop (\<lambda>_ _. Inr ()) cf conns b n = (Inr (d # ds), m)"
  shows "\<exists>c t n' u' s'. udp_send_loop_on sys cf conns b n u s = ([], Some (System_error c t), n', u', s')"
  using assms(2)
proof (induction conns arbitrary: n)
  case (Cons ic conns)
  obtain ip c where ic: "ic = (ip, c)" by fastforce
  obtain conn where conn: "net_conns n c = Some conn" using Cons.prems ic by (auto split: option.splits)
  obtain packet conn' where nx: "next_packet conn = (packet, conn')" by fastforce
  show ?case
  proof (cases packet)
    case None
    then show ?thesis using Cons.IH Cons.prems ic conn nx by simp
  next
    case (Some p)
    obtain e t v s' where "udp_socket_send sys (pkt_data p) ip u s = (Inl (System_error e t), v, s')"
      using sendto_fails [OF assms(1), of "pkt_data p" ip u s] by (metis prod.collapse)
    then show ?thesis using ic conn nx Some by simp
  qed
qed simp

text \<open>
  One destination that \<open>sendto\<close> refuses, for example one without a route, ends the router for all: a
  UDP interface that has a packet to send raises the error, and the worker crashes.
\<close>

lemma refused_destination_crashes:
  assumes "\<forall>fd d p a s. fst (sys_sendto sys fd d p a s) < 0"
    "sy_links sy ! k = UDPLink socket i" "udp_send_packet (\<lambda>_ _. Inr ()) i (sy_world sy) = (Inr (d # ds), w)"
  shows "\<exists>c t. fst (unix_run sys env [Transmitter k] (sy, s)) = Some (System_error c t) \<and>
    tx_runner_return running (call_end_of (Some (System_error c t))) = Crashed"
proof -
  obtain n where wait: "wait_for_packet (udp_factory i) (w_net (sy_world sy)) = (True, n)"
    using assms(3) by (auto simp: udp_send_packet_def split: prod.splits if_splits)
  obtain m where "udp_send_loop (\<lambda>_ _. Inr ()) (udp_factory i) (udp_connections i) False n = (Inr (d # ds), m)"
    using assms(3) wait by (auto simp: udp_send_packet_def split: prod.splits)
  from udp_loop_fails [OF assms(1) this, of socket s] obtain c t n' u' s' where
    "udp_send_loop_on sys (udp_factory i) (udp_connections i) False n socket s = ([], Some (System_error c t), n', u', s')"
    by (elim exE) (rule that)
  then show ?thesis
    using wait assms(2) by (simp add: send_on_def udp_send_on_def call_end_of_def tx_runner_return_def)
qed

section \<open>A concrete run\<close>

text \<open>An operating system on which a datagram with a heartbeat from one address is always waiting.\<close>

definition feeding_os :: "int list unix_calls" where
  "feeding_os = (table_os 0)\<lparr>sys_poll := (\<lambda>_ _ s. ((1, False, True), s)),
     sys_fionread := (\<lambda>_ s. ((0, int (length sample_heartbeat)), s)),
     sys_recvfrom := (\<lambda>_ _ s. (\<lparr>dg_size = int (length sample_heartbeat), dg_data = sample_heartbeat, dg_addrlen = 16,
        dg_inet = True, dg_addr = 1, dg_port = 14550\<rparr>, s))\<rparr>"

lemma feeding_app:
  "\<exists>app s' w. make_app feeding_os (\<lambda>_. []) (\<lambda>_. []) env sample_readings sample_links [] = (Inr app, s', w)"
proof -
  have "stol ''14555'' = Inr 14555" by (simp add: stol_def sto_signed_def stream_eval)
  then show ?thesis
    by (simp add: make_app_def parse_interfaces_def sample_links_filter sample_tree_filter)
      (simp add: sample_links_def sample_tree_def parse_udp_def parse_serial_def content_def serial_defaults_def
        udp_defaults_def UnixUDPSocket_construct_def create_socket_def UnixSerialPort_construct_def open_port_def
        configure_port_def speed_constant_def speed_table_def feeding_os_def table_os_def fresh_descriptor_def Let_def
        attach_serial_def Connection_construct_def SerialInterface_construct_def UDPInterface_construct_def
        ConnectionFactory_construct_def)
qed

lemma feeding_receive:
  "udp_socket_receive feeding_os t u s = (Inr (sample_heartbeat, MkIPAddress 1 14550), u, s)"
proof -
  have "IPAddress_construct 1 14550 = Inr (MkIPAddress 1 14550)" by (simp add: IPAddress_construct_def)
  moreover have "sample_heartbeat \<noteq> []" by (simp add: sample_heartbeat_def)
  ultimately show ?thesis
    by (simp add: udp_socket_receive_def udp_receive_datagram_def feeding_os_def Let_def)
qed

lemma feeding_no_error: "\<not> device_raises feeding_os e"
  by (simp add: device_raises_def feeding_receive)
    (simp add: serial_port_read_def serial_port_write_def udp_socket_send_def serial_read_available_def
      feeding_os_def table_os_def Let_def)

definition sample_calls :: "unix_event list" where
  "sample_calls = [Receiver 0 (sample_readings 0), Transmitter 1]"

theorem unix_run_refines_witness:
  "\<exists>app s' w outs sy' s'' sy F.
     make_app feeding_os (\<lambda>_. []) (\<lambda>_. []) sample_env sample_readings sample_links [] = (Inr app, s', w) \<and>
     parse_filter (env_mavlink sample_env) (\<lambda>_. []) sample_links = Inr F \<and>
     unix_run feeding_os sample_env sample_calls (system_of app w, s') = (None, sample_events, outs, sy', s'') \<and>
     system_run sample_env sample_events (system_of app w) = (Inr (), sy) \<and> same_program sy' sy \<and>
     outs = run_output sample_env sample_events (system_of app w) \<and>
     sent_out (1, None) outs \<subseteq># from_others sample_env F (1, None) (run_input sample_env sample_events (system_of app w))"
proof -
  obtain app s' w where a: "make_app feeding_os (\<lambda>_. []) (\<lambda>_. []) sample_env sample_readings sample_links [] = (Inr app, s', w)"
    using feeding_app by blast
  have kinds: "map node_name (filter is_link sample_links) = [''config::udp'', ''config::serial'']"
    by (simp add: sample_links_def sample_tree_def is_link_def)
  obtain socket i l1 where links: "sy_links (system_of app w) = [UDPLink socket i, l1]"
    using two_links [OF a sample_ranked kinds] by (auto simp: system_of_def)
  obtain x evs outs sy' s'' where run: "unix_run feeding_os sample_env sample_calls (system_of app w, s') = (x, evs, outs, sy', s'')"
    by (rule prod_cases5)
  have seen: "seen feeding_os (Receiver 0 (sample_readings 0)) (system_of app w, s') = [hd sample_events]"
    using links by (simp add: feeding_receive sample_events_def)
  obtain out1 y st1 where one: "unix_step feeding_os sample_env (Receiver 0 (sample_readings 0)) (system_of app w, s') = (out1, y, st1)"
    by (rule prod_cases3)
  obtain out2 z st2 where two: "unix_step feeding_os sample_env (Transmitter 1) st1 = (out2, z, st2)"
    by (rule prod_cases3)
  have evs: "evs = (case y of Some _ \<Rightarrow> [hd sample_events] | None \<Rightarrow> sample_events)"
    using run seen one two unfolding sample_calls_def
    by (auto simp: sample_events_def split: option.splits simp del: unix_step.simps seen.simps(1))
  note input = two_links_input [OF a sample_ranked kinds]
  have time: "timely_run sample_env (system_of app w) evs" "\<not> short_received sample_env (run_input sample_env evs (system_of app w))"
    using input unfolding evs
    by (simp_all add: sample_events_def del: system_step.simps timely.simps event_input.simps split: option.split prod.splits sum.splits)
  have tables: "mavlink_tables_agree (env_mavlink sample_env)" using common_tables_agree by simp
  from unix_run_refines [OF a sample_ranked sample_readings_ok tables run time] obtain F sy where res:
      "parse_filter (env_mavlink sample_env) (\<lambda>_. []) sample_links = Inr F"
      "system_run sample_env evs (system_of app w) = (Inr (), sy)"
      "case x of None \<Rightarrow> outs = run_output sample_env evs (system_of app w) \<and> same_program sy' sy
       | Some e \<Rightarrow> prefix outs (run_output sample_env evs (system_of app w)) \<and> device_raises feeding_os e"
      "\<forall>y. sent_out y outs \<subseteq># from_others sample_env F y (run_input sample_env evs (system_of app w))" by blast
  have x: "x = None" using res(3) feeding_no_error by (simp split: option.splits)
  moreover have "y = None"
    using run one x unfolding sample_calls_def by (cases y) (simp_all del: unix_step.simps seen.simps(1))
  ultimately show ?thesis using a run res evs by simp
qed

end
