(* ===== verification/ProgramRuns.thy ===== *)
theory ProgramRuns
  imports UnixRuns AppRun
begin

text \<open>
  The program with everything at once: the main thread and the workers of all interfaces (theory
  \<open>AppRun\<close>), whose calls do on the Unix devices what the theory \<open>UnixRuns\<close> says.  How a call ends for its
  worker is no longer arbitrary: it is the way the call of the interface ends.
\<close>

section \<open>Steps\<close>

record 's program =
  pr_app :: app_state
  pr_state :: "'s unix_state"

text \<open>No call of a worker returns in the step.\<close>

definition no_return :: "app_state \<Rightarrow> app_state \<Rightarrow> bool" where
  "no_return a b \<longleftrightarrow>
     (\<forall>k < length (app_threads a).
        (th_tx (app_threads a ! k) = Calling \<longrightarrow> th_tx (app_threads b ! k) = Calling) \<and>
        (th_rx (app_threads a ! k) = Calling \<longrightarrow> th_rx (app_threads b ! k) = Calling))"

definition app_crashed :: "app_state \<Rightarrow> bool" where
  "app_crashed a \<longleftrightarrow> list_ex crashed (app_threads a)"

definition tx_returns :: "nat \<Rightarrow> cpp_error option \<Rightarrow> app_state \<Rightarrow> app_state" where
  "tx_returns k x a = (let t = app_threads a ! k in
     a\<lparr>app_threads := (app_threads a)[k := t\<lparr>th_tx := tx_runner_return (th_running t) (call_end_of x)\<rparr>]\<rparr>)"

definition rx_returns :: "nat \<Rightarrow> cpp_error option \<Rightarrow> app_state \<Rightarrow> app_state" where
  "rx_returns k x a = (let t = app_threads a ! k in
     a\<lparr>app_threads := (app_threads a)[k := t\<lparr>th_rx := rx_runner_return (call_end_of x)\<rparr>]\<rparr>)"

text \<open>
  A step of the program, with the events it amounts to and what the devices take.  The effects of a call
  happen when it returns, all at once: what two calls do at the same time is not interleaved.  A program
  with a crashed thread has been terminated.
\<close>

inductive program_step ::
  "'s unix_calls \<Rightarrow> environment \<Rightarrow> 's program \<Rightarrow> event list \<Rightarrow> (endpoint \<times> u8 list) list \<Rightarrow> 's program \<Rightarrow> bool"
  for sys env where
  control: "\<not> app_crashed (pr_app p) \<Longrightarrow> app_step (pr_app p) a \<Longrightarrow> no_return (pr_app p) a \<Longrightarrow>
     program_step sys env p [] [] (p\<lparr>pr_app := a\<rparr>)"
| sent: "\<not> app_crashed (pr_app p) \<Longrightarrow> app_phase (pr_app p) \<noteq> Killed \<Longrightarrow> k < length (app_threads (pr_app p)) \<Longrightarrow>
     th_tx (app_threads (pr_app p) ! k) = Calling \<Longrightarrow>
     unix_step sys env (Transmitter k) (pr_state p) = (out, x, st) \<Longrightarrow>
     program_step sys env p (seen sys (Transmitter k) (pr_state p)) out
       \<lparr>pr_app = tx_returns k x (pr_app p), pr_state = st\<rparr>"
| received: "\<not> app_crashed (pr_app p) \<Longrightarrow> app_phase (pr_app p) \<noteq> Killed \<Longrightarrow> k < length (app_threads (pr_app p)) \<Longrightarrow>
     th_rx (app_threads (pr_app p) ! k) = Calling \<Longrightarrow>
     unix_step sys env (Receiver k clk) (pr_state p) = (out, x, st) \<Longrightarrow>
     program_step sys env p (seen sys (Receiver k clk) (pr_state p)) out
       \<lparr>pr_app = rx_returns k x (pr_app p), pr_state = st\<rparr>"

inductive_cases program_stepE: "program_step sys env p evs out q"

inductive program_reach ::
  "'s unix_calls \<Rightarrow> environment \<Rightarrow> App \<Rightarrow> 's unix_state \<Rightarrow> event list \<Rightarrow> (endpoint \<times> u8 list) list \<Rightarrow>
   's program \<Rightarrow> bool"
  for sys env app st where
  begun: "program_reach sys env app st [] [] \<lparr>pr_app = App_run app, pr_state = st\<rparr>"
| went: "program_reach sys env app st evs outs p \<Longrightarrow> program_step sys env p evs' out q \<Longrightarrow>
     program_reach sys env app st (evs @ evs') (outs @ out) q"

section \<open>Steps of the threads\<close>

lemma tx_returns_step:
  assumes "app_phase a \<noteq> Killed" "k < length (app_threads a)" "th_tx (app_threads a ! k) = Calling"
  shows "app_step a (tx_returns k x a)"
  unfolding tx_returns_def Let_def by (rule work [OF assms(1,2) tx_return [OF assms(3)]]) simp

lemma rx_returns_step:
  assumes "app_phase a \<noteq> Killed" "k < length (app_threads a)" "th_rx (app_threads a ! k) = Calling"
  shows "app_step a (rx_returns k x a)"
  unfolding rx_returns_def Let_def by (rule work [OF assms(1,2) rx_return [OF assms(3)]]) simp

lemma program_step_app: "program_step sys env p evs out q \<Longrightarrow> app_step (pr_app p) (pr_app q)"
  by (induction rule: program_step.induct) (simp_all add: tx_returns_step rx_returns_step)

lemma program_reach_app: "program_reach sys env app st evs outs p \<Longrightarrow> app_reach app (pr_app p)"
  by (induction rule: program_reach.induct) (auto intro: app_reach.intros program_step_app)

text \<open>A call is always able to return, so the program is stuck only where its threads are.\<close>

lemma program_progress:
  assumes "app_step (pr_app p) a" "app_phase a \<noteq> Killed" "\<not> app_crashed (pr_app p)" "app_phase (pr_app p) \<noteq> Killed"
  shows "\<exists>evs out q. program_step sys env p evs out q \<and> app_phase (pr_app q) \<noteq> Killed"
proof -
  let ?ts = "app_threads (pr_app p)"
  consider k where "k < length ?ts" "th_tx (?ts ! k) = Calling"
    | k where "k < length ?ts" "th_rx (?ts ! k) = Calling"
    | "no_return (pr_app p) a"
    by (auto simp: no_return_def)
  then show ?thesis
  proof cases
    case 1
    obtain out x st where "unix_step sys env (Transmitter k) (pr_state p) = (out, x, st)" by (rule prod_cases3)
    from sent [OF assms(3,4) 1 this] show ?thesis using assms(4) by (fastforce simp: tx_returns_def Let_def)
  next
    case 2
    obtain out x st where "unix_step sys env (Receiver k clk) (pr_state p) = (out, x, st)" by (rule prod_cases3)
    from received [OF assms(3,4) 2 this] show ?thesis using assms(4) by (fastforce simp: rx_returns_def Let_def)
  next
    case 3
    from control [OF assms(3,1) 3] show ?thesis using assms(2) by fastforce
  qed
qed

text \<open>Steps in which no call returns crash nothing, as long as no thread is started twice.\<close>

lemma quiet_threader:
  assumes "threader_step t t'" "threader_inv t" "\<not> crashed t"
    "th_tx t = Calling \<longrightarrow> th_tx t' = Calling" "th_rx t = Calling \<longrightarrow> th_rx t' = Calling"
  shows "\<not> crashed t'"
  using assms
  by (induction rule: threader_step.induct)
    (auto simp: crashed_def threader_defs tx_runner_return_def split: call_end.splits if_splits)

lemma quiet_app:
  assumes "app_step a b" "app_inv a" "\<not> app_crashed a" "no_return a b"
  shows "\<not> app_crashed b"
  using assms
proof (induction rule: app_step.induct)
  case (start_one a k)
  then have "down (app_threads a ! k)" "threader_inv (app_threads a ! k)" by (auto simp: app_inv_def)
  then have "\<not> crashed (threader_start (app_threads a ! k))"
    by (auto simp: crashed_def down_def threader_defs)
  then show ?case using start_one by (auto simp: app_crashed_def list_ex_length nth_list_update)
next
  case (stop_one a k)
  then show ?case by (auto simp: app_crashed_def list_ex_length nth_list_update crashed_def threader_shutdown_def)
next
  case (work a k t)
  have "\<not> crashed t"
    by (rule quiet_threader [OF work(3)])
      (use work in \<open>auto simp: app_inv_def no_return_def app_crashed_def list_ex_length\<close>)
  then show ?case using work by (auto simp: app_crashed_def list_ex_length nth_list_update)
qed (simp_all add: app_crashed_def)

section \<open>The program against its events\<close>

definition program_agrees ::
  "'s unix_calls \<Rightarrow> environment \<Rightarrow> system \<Rightarrow> event list \<Rightarrow> (endpoint \<times> u8 list) list \<Rightarrow> 's program \<Rightarrow> bool" where
  "program_agrees sys env sy0 evs outs p \<longleftrightarrow>
     (app_crashed (pr_app p) \<longrightarrow> (\<exists>e. device_raises sys e)) \<and>
     (\<exists>sy. system_run env evs sy0 = (Inr (), sy) \<and>
        (\<forall>y. sent_out y outs \<subseteq># sent_out y (run_output env evs sy0)) \<and>
        (\<not> app_crashed (pr_app p) \<longrightarrow> same_program (fst (pr_state p)) sy))"

lemma returned_crashed:
  assumes "\<not> app_crashed a" "k < length (app_threads a)"
  shows "app_crashed (tx_returns k x a) \<Longrightarrow> x \<noteq> None"
    "\<not> app_crashed (tx_returns k x a) \<Longrightarrow> x = None \<or> call_end_of x = Partial_send"
    "app_crashed (rx_returns k x a) \<Longrightarrow> x \<noteq> None"
    "\<not> app_crashed (rx_returns k x a) \<Longrightarrow> x = None"
  using assms
  by (auto simp: app_crashed_def list_ex_length nth_list_update crashed_def tx_returns_def rx_returns_def Let_def
      tx_runner_return_def rx_runner_return_def call_end_of_def split: if_splits option.splits cpp_error.splits)

lemma call_agrees:
  assumes "program_agrees sys env sy0 evs outs p" "\<not> app_crashed (pr_app p)" "system_inv env F sy0"
    "unix_step sys env e (pr_state p) = (out, x, st)"
    "admissible_run env sy0 (evs @ seen sys e (pr_state p))"
    "app_crashed a \<Longrightarrow> x \<noteq> None" "\<not> app_crashed a \<Longrightarrow> x = None \<or> call_end_of x = Partial_send"
  shows "program_agrees sys env sy0 (evs @ seen sys e (pr_state p)) (outs @ out) \<lparr>pr_app = a, pr_state = st\<rparr>"
proof -
  let ?s = "seen sys e (pr_state p)"
  obtain sy s where ps: "pr_state p = (sy, s)" by fastforce
  obtain sy' s' where st: "st = (sy', s')" by fastforce
  obtain sy1 where one: "system_run env evs sy0 = (Inr (), sy1)" "same_program sy sy1"
      "\<forall>y. sent_out y outs \<subseteq># sent_out y (run_output env evs sy0)"
    using assms(1,2) ps by (auto simp: program_agrees_def)
  have adm: "admissible_run env sy0 evs" "admissible_run env sy1 ?s"
    using assms(5) admissible_run_append [OF one(1)] by simp_all
  have "system_inv env F sy1" using system_run_ok [OF assms(3) adm(1)] one(1) by auto
  from unix_step_agrees [OF assms(4) [unfolded ps st] one(2) this] adm(2) ps
  have "agrees sys env ?s sy1 out x sy'" by simp
  then obtain sy2 where two: "system_run env ?s sy1 = (Inr (), sy2)" "prefix out (run_output env ?s sy1)"
      "x \<noteq> None \<Longrightarrow> \<exists>e. device_raises sys e" "x = None \<or> call_end_of x = Partial_send \<Longrightarrow> same_program sy' sy2"
    by (cases x) (auto simp: agrees_def)
  note app = system_run_append [OF one(1), of ?s]
  have "sent_out y (outs @ out) \<subseteq># sent_out y (run_output env (evs @ ?s) sy0)" for y
    using subset_mset.add_mono [OF one(3) [rule_format, of y] sent_out_prefix [OF two(2), of y]] app by simp
  then show ?thesis
    using app two(1,3,4) assms(6,7) st by (auto simp: program_agrees_def)
qed

lemma program_reach_agrees:
  assumes "program_reach sys env app st evs outs p" "system_inv env F (fst st)" "admissible_run env (fst st) evs"
    "list_all (\<lambda>x. snd x = InterfaceThreader_construct False) app"
  shows "program_agrees sys env (fst st) evs outs p"
  using assms(1,3)
proof (induction rule: program_reach.induct)
  case begun
  have "\<not> crashed (InterfaceThreader_construct False)" by (simp add: crashed_def InterfaceThreader_construct_def)
  then have "\<not> app_crashed (App_run app)"
    using assms(4) by (auto simp: app_crashed_def App_run_def list_ex_iff list_all_iff)
  then show ?case by (simp add: program_agrees_def)
next
  case (went evs outs p evs' out q)
  have IH: "program_agrees sys env (fst st) evs outs p"
    using went.IH went.prems admissible_run_prefix by blast
  show ?case
  proof (rule program_stepE [OF went.hyps(2)])
    fix a
    assume c: "evs' = []" "out = []" "q = p\<lparr>pr_app := a\<rparr>" "\<not> app_crashed (pr_app p)" "app_step (pr_app p) a"
      "no_return (pr_app p) a"
    have "app_inv (pr_app p)" using app_inv_reach [OF program_reach_app [OF went.hyps(1)] assms(4)] by simp
    then have "\<not> app_crashed a" using quiet_app c(4-6) by blast
    then show "program_agrees sys env (fst st) (evs @ evs') (outs @ out) q"
      using IH c(1-4) by (simp add: program_agrees_def)
  next
    fix k x st'
    assume c: "evs' = [Transmit k]" "q = \<lparr>pr_app = tx_returns k x (pr_app p), pr_state = st'\<rparr>"
      "\<not> app_crashed (pr_app p)" "app_phase (pr_app p) \<noteq> Killed" "k < length (app_threads (pr_app p))" "th_tx (app_threads (pr_app p) ! k) = Calling"
      "unix_step sys env (Transmitter k) (pr_state p) = (out, x, st')"
    show "program_agrees sys env (fst st) (evs @ evs') (outs @ out) q"
      unfolding c(1,2)
      by (rule call_agrees [OF IH c(3) assms(2) c(7), unfolded seen.simps(2)])
        (use went.prems c(1) returned_crashed(1,2) [OF c(3,5)] in blast)+
  next
    fix k clk x st'
    assume c: "evs' = seen sys (Receiver k clk) (pr_state p)" "q = \<lparr>pr_app = rx_returns k x (pr_app p), pr_state = st'\<rparr>"
      "\<not> app_crashed (pr_app p)" "app_phase (pr_app p) \<noteq> Killed" "k < length (app_threads (pr_app p))" "th_rx (app_threads (pr_app p) ! k) = Calling"
      "unix_step sys env (Receiver k clk) (pr_state p) = (out, x, st')"
    show "program_agrees sys env (fst st) (evs @ evs') (outs @ out) q"
      unfolding c(1,2)
      by (rule call_agrees [OF IH c(3) assms(2) c(7)])
        (use went.prems c(1) returned_crashed(3,4) [OF c(3,5)] in blast)+
  qed
qed

section \<open>Property\<close>

lemma make_app_threads:
  "make_app sys tok split_colon env clk root s = (Inr app, s', w) \<Longrightarrow>
   list_all (\<lambda>x. snd x = InterfaceThreader_construct False) app"
  by (auto simp: make_app_def App_construct_def list_all_iff split: sum.splits prod.splits)


section \<open>A concrete run\<close>

text \<open>Two interfaces that have been started; the receiving thread of the first is in its call.\<close>

definition idle_threader :: threader where
  "idle_threader = \<lparr>th_running = False, th_tx = No_thread, th_rx = No_thread, th_owner = Idle\<rparr>"

definition started_app :: "phase \<Rightarrow> nat \<Rightarrow> worker \<Rightarrow> app_state" where
  "started_app ph n rx = \<lparr>app_phase = ph, app_failed = None,
     app_threads = [if 0 < n then \<lparr>th_running = True, th_tx = Checking, th_rx = rx, th_owner = Idle\<rparr> else idle_threader,
                    if 1 < n then threader_start idle_threader else idle_threader]\<rparr>"

lemma started_app_steps:
  "app_step (started_app (Starting 0) 0 Checking) (started_app (Starting 1) 1 Checking)"
  "app_step (started_app (Starting 1) 1 Checking) (started_app (Starting 2) 2 Checking)"
  "app_step (started_app (Starting 2) 2 Checking) (started_app Waiting 2 Checking)"
  "app_step (started_app Waiting 2 Checking) (started_app Waiting 2 Calling)"
  using start_one [of "started_app (Starting 0) 0 Checking" 0] start_one [of "started_app (Starting 1) 1 Checking" 1]
    all_started [of "started_app (Starting 2) 2 Checking"]
    work [of "started_app Waiting 2 Checking" 0, OF _ _ rx_check]
  by (simp_all add: started_app_def idle_threader_def threader_start_def launch_def rx_runner_check_def numeral_2_eq_2)

lemma started_app_quiet:
  "\<not> app_crashed (started_app ph n Checking)" "no_return (started_app ph n Checking) (started_app ph' m rx)"
  "\<not> app_crashed (started_app ph n Calling)"
  by (auto simp: app_crashed_def no_return_def started_app_def idle_threader_def threader_start_def launch_def
      crashed_def less_Suc_eq)

lemma started_reach:
  assumes "App_run app = started_app (Starting 0) 0 Checking"
  shows "program_reach sys env app st [] [] \<lparr>pr_app = started_app Waiting 2 Calling, pr_state = st\<rparr>"
proof -
  have step: "program_reach sys env app st [] [] \<lparr>pr_app = b, pr_state = st\<rparr>"
    if "program_reach sys env app st [] [] \<lparr>pr_app = a, pr_state = st\<rparr>" "app_step a b" "\<not> app_crashed a" "no_return a b" for a b
    using went [OF that(1) control [of "\<lparr>pr_app = a, pr_state = st\<rparr>" b]] that(2-4) by simp
  note r0 = begun [of sys env app st, unfolded assms]
  note r1 = step [OF r0 started_app_steps(1) started_app_quiet(1,2)]
  note r2 = step [OF r1 started_app_steps(2) started_app_quiet(1,2)]
  note r3 = step [OF r2 started_app_steps(3) started_app_quiet(1,2)]
  show ?thesis by (rule step [OF r3 started_app_steps(4) started_app_quiet(1,2)])
qed


end
