(* ===== verification/Mavtables.thy ===== *)
theory Mavtables
  imports Startup ProgramRuns ConfigReading
begin

text \<open>
  The program \<open>mavtables\<close> with its own parts in place of the parameters of \<open>main\<close>: the configuration
  parser, the application, and the messages of its exceptions.
\<close>

section \<open>Messages\<close>

definition InvalidPacketIDError_what :: "string \<Rightarrow> u64 \<Rightarrow> string" where
  "InvalidPacketIDError_what dialect i =
     ''Packet ID (#'' @ show_nat (unat i) @ '') is not part of the '' @ [CHR 0x27] @ dialect @ [CHR 0x27] @
     '' MAVLink dialect.''"

definition DNSLookupError_what :: "string \<Rightarrow> string" where
  "DNSLookupError_what url =
     ''DNSLookupError: Could not find an IP address for '' @ [CHR 0x22] @ url @ [CHR 0x22]"

text \<open>
  \<open>strerror\<close> gives the text of an error number, to which \<open>std::system_error\<close> puts its own text in front.
  What is undefined has no message.
\<close>

definition error_what :: "string \<Rightarrow> (int \<Rightarrow> string) \<Rightarrow> cpp_error \<Rightarrow> string" where
  "error_what dialect strerror e =
     (case e of
        Out_of_range m \<Rightarrow> m
      | Invalid_argument m \<Rightarrow> m
      | Length_error m \<Rightarrow> m
      | Runtime_error m \<Rightarrow> m
      | System_error c m \<Rightarrow> (if m = [] then strerror c else m @ '': '' @ strerror c)
      | InvalidPacketIDError i \<Rightarrow> InvalidPacketIDError_what dialect i
      | PartialSendError n k \<Rightarrow> PartialSendError_what n k
      | RecursionError m \<Rightarrow> m
      | DNSLookupError url \<Rightarrow> DNSLookupError_what url
      | Undefined_behaviour m \<Rightarrow> [])"

section \<open>Printing interfaces and connections\<close>

definition show_Connection :: "Connection \<Rightarrow> string" where
  "show_Connection conn = conn_name conn"

definition serial_print :: "UnixSerialPort \<Rightarrow> SerialInterface \<Rightarrow> string" where
  "serial_print port i = show_UnixSerialPort port"

definition udp_print :: "UnixUDPSocket \<Rightarrow> UDPInterface \<Rightarrow> string" where
  "udp_print socket i = show_UnixUDPSocket socket"

definition show_Interface :: "Interface \<Rightarrow> string" where
  "show_Interface l = (case l of SerialLink port i \<Rightarrow> serial_print port i | UDPLink socket i \<Rightarrow> udp_print socket i)"

section \<open>The program\<close>

text \<open>
  How \<open>App::run\<close> ends, from the state its threads are in: a thread that an exception has left ends the
  process, and so does an interrupt that is not the one \<open>sigwait\<close> gets; otherwise it ends when
  the main thread has joined all others, and throws if \<open>sigwait\<close> failed.
\<close>

definition App_run_end :: "app_state \<Rightarrow> run_end" where
  "App_run_end a =
     (if app_crashed a then Terminates
      else (case app_phase a of
              Ended \<Rightarrow> (case app_failed a of None \<Rightarrow> Returns | Some errno \<Rightarrow> Throws (System_error errno []))
            | Killed \<Rightarrow> Dies
            | _ \<Rightarrow> Goes_on))"

text \<open>
  \<open>reached\<close> has the choices of the scheduler and of the operating system: the state of the threads
  of the application when the process has ended or is looked at.
\<close>

definition run_program ::
  "'s unix_calls \<Rightarrow> (string \<Rightarrow> string list) \<Rightarrow> (string \<Rightarrow> string list) \<Rightarrow> environment \<Rightarrow>
   (nat \<Rightarrow> nat \<Rightarrow> readings) \<Rightarrow> 's \<Rightarrow> (nat \<Rightarrow> App \<Rightarrow> 's unix_state \<Rightarrow> app_state) \<Rightarrow> u32 \<Rightarrow> node list \<Rightarrow> run_end" where
  "run_program sys tok split_colon env clk s reached loglevel root =
     (case make_app sys tok split_colon (env\<lparr>env_level := unat loglevel\<rparr>) clk root s of
        (Inl e, s', w) \<Rightarrow> Throws e
      | (Inr app, s', w) \<Rightarrow> App_run_end (reached (unat loglevel) app (system_of app w, s')))"

definition mavtables ::
  "string \<Rightarrow> (int \<Rightarrow> string) \<Rightarrow> surroundings \<Rightarrow> pegtl \<Rightarrow> 's unix_calls \<Rightarrow> (string \<Rightarrow> string list) \<Rightarrow>
   (string \<Rightarrow> string list) \<Rightarrow> environment \<Rightarrow> (nat \<Rightarrow> nat \<Rightarrow> readings) \<Rightarrow> 's \<Rightarrow>
   (nat \<Rightarrow> App \<Rightarrow> 's unix_state \<Rightarrow> app_state) \<Rightarrow> cpp_error + variables_map \<Rightarrow> process_end \<times> string \<times> string" where
  "mavtables dialect strerror files lib sys tok split_colon env clk s reached command_line =
     main (error_what dialect strerror) files (ConfigParser_construct lib)
       (run_program sys tok split_colon env clk s reached) command_line"

text \<open>The schedule is one of the program: every state it gives is reached by steps of the threads.\<close>

definition scheduled ::
  "'s unix_calls \<Rightarrow> environment \<Rightarrow> (nat \<Rightarrow> App \<Rightarrow> 's unix_state \<Rightarrow> app_state) \<Rightarrow> bool" where
  "scheduled sys env reached \<longleftrightarrow>
     (\<forall>l app st. \<exists>evs outs p. program_reach sys (env\<lparr>env_level := l\<rparr>) app st evs outs p \<and> pr_app p = reached l app st)"

section \<open>Properties\<close>

text \<open>
  The start of the program never runs into undefined behaviour, whatever the command line, the
  environment, the configuration file and the operating system: the members of \<open>Options\<close> that stay
  uninitialised are not read, and no tree of a file misleads the parser of the configuration.
\<close>

lemma startup_without_ub:
  assumes "follows (pg_match lib) g_grammar" "char_separator_spec tok" "\<forall>k i. readings_ok (clk k i)"
    "\<forall>path. no_ub (pg_read lib path)" "no_ub command_line"
  shows "fst (mavtables dialect strerror files lib sys tok split_colon env clk s reached command_line) \<noteq> Undefined"
proof -
  let ?body = "main_body files (ConfigParser_construct lib) (run_program sys tok split_colon env clk s reached)"
  have reading: "no_ub (ConfigParser_construct lib path)" for path
    using reading_without_ub [OF assms(1)] assms(4) by blast
  have running: "run_program sys tok split_colon env clk s reached l root \<noteq> Throws (Undefined_behaviour m) \<and> is_ok (show_tree root)"
    if "ConfigParser_construct lib path = Inr root" for l root path m
    using no_ub_make_app [OF parsed_tree [OF assms(1) that] assms(2,3), of sys split_colon "env\<lparr>env_level := unat l\<rparr>" s]
      config_tree_prints [OF parsed_tree [OF assms(1) that]]
    by (auto simp: run_program_def App_run_end_def split: prod.split sum.split phase.split option.split)
  have "fst (?body command_line) \<noteq> Throws (Undefined_behaviour m)" for m
  proof (cases command_line)
    case (Inl e)
    then show ?thesis using assms(5) by (auto simp: main_body_def Options_construct_def)
  next
    case vm: (Inr vm)
    show ?thesis
    proof (cases "vm_help vm \<or> vm_version vm")
      case True
      then show ?thesis using vm by (simp add: body_asked)
    next
      case False
      show ?thesis
      proof (cases "\<exists>path. chosen_file files vm path")
        case True
        then obtain path where "chosen_file files vm path" by blast
        note found = body_file [OF _ _ this, of "ConfigParser_construct lib" "run_program sys tok split_colon env clk s reached"]
        show ?thesis
        proof (cases "ConfigParser_construct lib path")
          case (Inl e)
          then show ?thesis using found False reading [of path] vm by simp
        next
          case (Inr root)
          obtain t where "show_tree root = Inr t" using running [OF Inr] by (auto simp: is_ok_iff)
          then show ?thesis using found False running [OF Inr] vm Inr by simp
        qed
      next
        case no: False
        then show ?thesis using False vm by (simp add: body_no_file)
      qed
    qed
  qed
  then show ?thesis by (auto simp: mavtables_def main_ends split: run_end.splits cpp_error.splits)
qed

text \<open>The application that is run, and the state it is run in.\<close>

definition launched ::
  "surroundings \<Rightarrow> pegtl \<Rightarrow> 's unix_calls \<Rightarrow> (string \<Rightarrow> string list) \<Rightarrow> (string \<Rightarrow> string list) \<Rightarrow> environment \<Rightarrow>
   (nat \<Rightarrow> nat \<Rightarrow> readings) \<Rightarrow> 's \<Rightarrow> variables_map \<Rightarrow> App \<Rightarrow> 's unix_state \<Rightarrow> bool" where
  "launched files lib sys tok split_colon env clk s vm app st \<longleftrightarrow>
     \<not> vm_help vm \<and> \<not> vm_version vm \<and> \<not> vm_ast vm \<and>
     (\<exists>path root s' w. chosen_file files vm path \<and> ConfigParser_construct lib path = Inr root \<and>
        make_app sys tok split_colon (env\<lparr>env_level := unat (level_of vm)\<rparr>) clk root s = (Inr app, s', w) \<and>
        st = (system_of app w, s'))"

lemma body_ends:
  fixes files lib sys tok split_colon env clk s reached vm
  defines "body \<equiv> fst (main_body files (ConfigParser_construct lib) (run_program sys tok split_colon env clk s reached) (Inr vm))"
  shows "(\<exists>app st. launched files lib sys tok split_colon env clk s vm app st \<and>
        body = App_run_end (reached (unat (level_of vm)) app st)) \<or>
    (\<not> (\<exists>app st. launched files lib sys tok split_colon env clk s vm app st) \<and> (body = Returns \<or> (\<exists>e. body = Throws e)) \<and>
     (body = Returns \<longleftrightarrow> vm_help vm \<or> vm_version vm \<or>
        (vm_ast vm \<and> (\<exists>path root. chosen_file files vm path \<and> ConfigParser_construct lib path = Inr root \<and>
           is_ok (show_tree root)))))"
proof -
  let ?l = "launched files lib sys tok split_colon env clk s vm"
  consider (asked) "vm_help vm \<or> vm_version vm"
    | (none) "\<not> vm_help vm" "\<not> vm_version vm" "\<And>path. \<not> chosen_file files vm path"
    | (found) path where "\<not> vm_help vm" "\<not> vm_version vm" "chosen_file files vm path" by blast
  then show ?thesis
  proof cases
    case asked
    then show ?thesis by (auto simp: body_def body_asked launched_def)
  next
    case none
    then show ?thesis by (auto simp: body_def body_no_file launched_def)
  next
    case found
    have path: "chosen_file files vm q \<longleftrightarrow> q = path" for q using chosen_file_unique found(3) by blast
    note body = body_file [OF found, of "ConfigParser_construct lib" "run_program sys tok split_colon env clk s reached",
        folded body_def]
    show ?thesis
    proof (cases "ConfigParser_construct lib path")
      case (Inl e)
      then show ?thesis using body found(1,2) by (simp add: launched_def path)
    next
      case root: (Inr root)
      show ?thesis
      proof (cases "vm_ast vm")
        case True
        then show ?thesis using body root found(1,2) by (auto simp: launched_def path is_ok_def split: sum.splits)
      next
        case run: False
        obtain r s' w where made: "make_app sys tok split_colon (env\<lparr>env_level := unat (level_of vm)\<rparr>) clk root s = (r, s', w)"
          by (rule prod_cases3)
        have l: "?l app st \<longleftrightarrow> r = Inr app \<and> st = (system_of app w, s')" for app st
          using found(1,2) run root made by (auto simp: launched_def path)
        show ?thesis
          using body root run made found(1,2) unfolding l by (cases r) (auto simp: run_program_def)
      qed
    qed
  qed
qed

lemma reached_ends:
  assumes "scheduled sys env reached" "launched files lib sys tok split_colon env clk s vm app st"
    "a = reached (unat (level_of vm)) app st"
  shows "App_run_end a = Returns \<longleftrightarrow> app_phase a = Ended \<and> app_failed a = None \<and> all_threads False a"
proof -
  obtain evs outs p where p: "program_reach sys (env\<lparr>env_level := unat (level_of vm)\<rparr>) app st evs outs p" "pr_app p = a"
    using assms(1,3) unfolding scheduled_def by blast
  obtain root s' w where "make_app sys tok split_colon (env\<lparr>env_level := unat (level_of vm)\<rparr>) clk root s = (Inr app, s', w)"
    using assms(2) unfolding launched_def by blast
  from app_run_ends [OF program_reach_app [OF p(1)] make_app_threads [OF this]] p(2)
  have "app_phase a = Ended \<Longrightarrow> all_threads False a" by simp
  moreover have "all_threads False a \<Longrightarrow> \<not> app_crashed a"
    by (auto simp: all_threads_def app_crashed_def crashed_def list_all_iff list_ex_iff)
  ultimately show ?thesis
    by (auto simp: App_run_end_def split: if_splits phase.splits option.splits)
qed


text \<open>A schedule on which the main thread has not made a step, and a command line that asks for the syntax tree.\<close>

definition tree_wanted :: variables_map where
  "tree_wanted = \<lparr>vm_help = False, vm_version = False, vm_config = Some ''c'', vm_loglevel = None, vm_ast = True\<rparr>"

definition one_file :: surroundings where
  "one_file = \<lparr>file_exists = (\<lambda>p. p = ''c''), getenv = (\<lambda>_. None), path_append = (@), install_prefix = ''/usr/local'',
     program_version = (0, 2, 1), help_text = []\<rparr>"


end
