(* ===== verification/DeviceOverloads.thy ===== *)
theory DeviceOverloads
  imports UnixDevices
begin

text \<open>
  The base classes \<open>SerialPort\<close> and \<open>UDPSocket\<close>.  Each operation has two virtual overloads, one for
  vectors and one for iterators, and each of the two is implemented by a call of the other, so that
  a child class needs to override only one.  A class is a table of its overrides, over the state \<open>'s\<close>
  of the device; an overload that is not overridden is the one of the base class, whose call is
  dispatched through the table again.  The first argument bounds the depth of the calls: \<open>None\<close> means
  that they have not come back at that depth.
\<close>

section \<open>SerialPort\<close>

text \<open>
  The iterator overload of \<open>read\<close> gets the vector its back inserter appends to and gives it back, also
  when it throws; that of \<open>write\<close> gets a vector and the two positions in it.
\<close>

record 's serial_class =
  sc_read :: "(int \<Rightarrow> 's \<Rightarrow> (cpp_error + u8 list) \<times> 's) option"
  sc_read_into :: "(u8 list \<Rightarrow> int \<Rightarrow> 's \<Rightarrow> ((cpp_error + unit) \<times> u8 list) \<times> 's) option"
  sc_write :: "(u8 list \<Rightarrow> 's \<Rightarrow> (cpp_error + unit) \<times> 's) option"
  sc_write_range :: "(u8 list \<Rightarrow> nat \<Rightarrow> nat \<Rightarrow> 's \<Rightarrow> (cpp_error + unit) \<times> 's) option"
  sc_print :: "string option"

definition copy_range :: "'a list \<Rightarrow> nat \<Rightarrow> nat \<Rightarrow> 'a list" where
  "copy_range data first end_pos = take (end_pos - first) (drop first data)"

fun SerialPort_read :: "nat \<Rightarrow> 's serial_class \<Rightarrow> int \<Rightarrow> 's \<Rightarrow> ((cpp_error + u8 list) \<times> 's) option"
  and SerialPort_read_into ::
    "nat \<Rightarrow> 's serial_class \<Rightarrow> u8 list \<Rightarrow> int \<Rightarrow> 's \<Rightarrow> (((cpp_error + unit) \<times> u8 list) \<times> 's) option"
where
  "SerialPort_read 0 cls timeout s = None"
| "SerialPort_read (Suc n) cls timeout s =
     (case sc_read cls of
        Some f \<Rightarrow> Some (f timeout s)
      | None \<Rightarrow>
          (case SerialPort_read_into n cls [] timeout s of
             None \<Rightarrow> None
           | Some ((Inl e, vec), s') \<Rightarrow> Some (Inl e, s')
           | Some ((Inr _, vec), s') \<Rightarrow> Some (Inr vec, s')))"
| "SerialPort_read_into 0 cls it timeout s = None"
| "SerialPort_read_into (Suc n) cls it timeout s =
     (case sc_read_into cls of
        Some f \<Rightarrow> Some (f it timeout s)
      | None \<Rightarrow>
          (case SerialPort_read n cls timeout s of
             None \<Rightarrow> None
           | Some (Inl e, s') \<Rightarrow> Some ((Inl e, it), s')
           | Some (Inr vec, s') \<Rightarrow> Some ((Inr (), it @ vec), s')))"

fun SerialPort_write :: "nat \<Rightarrow> 's serial_class \<Rightarrow> u8 list \<Rightarrow> 's \<Rightarrow> ((cpp_error + unit) \<times> 's) option"
  and SerialPort_write_range ::
    "nat \<Rightarrow> 's serial_class \<Rightarrow> u8 list \<Rightarrow> nat \<Rightarrow> nat \<Rightarrow> 's \<Rightarrow> ((cpp_error + unit) \<times> 's) option"
where
  "SerialPort_write 0 cls data s = None"
| "SerialPort_write (Suc n) cls data s =
     (case sc_write cls of
        Some f \<Rightarrow> Some (f data s)
      | None \<Rightarrow> SerialPort_write_range n cls data 0 (length data) s)"
| "SerialPort_write_range 0 cls data first end_pos s = None"
| "SerialPort_write_range (Suc n) cls data first end_pos s =
     (case sc_write_range cls of
        Some f \<Rightarrow> Some (f data first end_pos s)
      | None \<Rightarrow> SerialPort_write n cls (copy_range data first end_pos) s)"

text \<open>\<open>print_\<close> and the output operator.\<close>

definition SerialPort_print :: "'s serial_class \<Rightarrow> string" where
  "SerialPort_print cls = (case sc_print cls of Some t \<Rightarrow> t | None \<Rightarrow> ''unknown serial port'')"

definition show_SerialPort :: "'s serial_class \<Rightarrow> string" where
  "show_SerialPort cls = SerialPort_print cls"

section \<open>UDPSocket\<close>

text \<open>
  In \<open>return {vec, receive(std::back_inserter(vec), timeout)}\<close> the pair is made from a reference to
  \<open>vec\<close>, after the call has filled it.
\<close>

record 's udp_class =
  uc_send :: "(u8 list \<Rightarrow> IPAddress \<Rightarrow> 's \<Rightarrow> (cpp_error + unit) \<times> 's) option"
  uc_send_range :: "(u8 list \<Rightarrow> nat \<Rightarrow> nat \<Rightarrow> IPAddress \<Rightarrow> 's \<Rightarrow> (cpp_error + unit) \<times> 's) option"
  uc_receive :: "(int \<Rightarrow> 's \<Rightarrow> (cpp_error + u8 list \<times> IPAddress) \<times> 's) option"
  uc_receive_into :: "(u8 list \<Rightarrow> int \<Rightarrow> 's \<Rightarrow> ((cpp_error + IPAddress) \<times> u8 list) \<times> 's) option"
  uc_print :: "string option"

fun UDPSocket_send :: "nat \<Rightarrow> 's udp_class \<Rightarrow> u8 list \<Rightarrow> IPAddress \<Rightarrow> 's \<Rightarrow> ((cpp_error + unit) \<times> 's) option"
  and UDPSocket_send_range ::
    "nat \<Rightarrow> 's udp_class \<Rightarrow> u8 list \<Rightarrow> nat \<Rightarrow> nat \<Rightarrow> IPAddress \<Rightarrow> 's \<Rightarrow> ((cpp_error + unit) \<times> 's) option"
where
  "UDPSocket_send 0 cls data address s = None"
| "UDPSocket_send (Suc n) cls data address s =
     (case uc_send cls of
        Some f \<Rightarrow> Some (f data address s)
      | None \<Rightarrow> UDPSocket_send_range n cls data 0 (length data) address s)"
| "UDPSocket_send_range 0 cls data first end_pos address s = None"
| "UDPSocket_send_range (Suc n) cls data first end_pos address s =
     (case uc_send_range cls of
        Some f \<Rightarrow> Some (f data first end_pos address s)
      | None \<Rightarrow> UDPSocket_send n cls (copy_range data first end_pos) address s)"

fun UDPSocket_receive ::
    "nat \<Rightarrow> 's udp_class \<Rightarrow> int \<Rightarrow> 's \<Rightarrow> ((cpp_error + u8 list \<times> IPAddress) \<times> 's) option"
  and UDPSocket_receive_into ::
    "nat \<Rightarrow> 's udp_class \<Rightarrow> u8 list \<Rightarrow> int \<Rightarrow> 's \<Rightarrow> (((cpp_error + IPAddress) \<times> u8 list) \<times> 's) option"
where
  "UDPSocket_receive 0 cls timeout s = None"
| "UDPSocket_receive (Suc n) cls timeout s =
     (case uc_receive cls of
        Some f \<Rightarrow> Some (f timeout s)
      | None \<Rightarrow>
          (case UDPSocket_receive_into n cls [] timeout s of
             None \<Rightarrow> None
           | Some ((Inl e, vec), s') \<Rightarrow> Some (Inl e, s')
           | Some ((Inr address, vec), s') \<Rightarrow> Some (Inr (vec, address), s')))"
| "UDPSocket_receive_into 0 cls it timeout s = None"
| "UDPSocket_receive_into (Suc n) cls it timeout s =
     (case uc_receive_into cls of
        Some f \<Rightarrow> Some (f it timeout s)
      | None \<Rightarrow>
          (case UDPSocket_receive n cls timeout s of
             None \<Rightarrow> None
           | Some (Inl e, s') \<Rightarrow> Some ((Inl e, it), s')
           | Some (Inr (vec, address), s') \<Rightarrow> Some ((Inr address, it @ vec), s')))"

definition UDPSocket_print :: "'s udp_class \<Rightarrow> string" where
  "UDPSocket_print cls = (case uc_print cls of Some t \<Rightarrow> t | None \<Rightarrow> ''unknown UDP socket'')"

definition show_UDPSocket :: "'s udp_class \<Rightarrow> string" where
  "show_UDPSocket cls = UDPSocket_print cls"

section \<open>The classes of the Unix devices\<close>

text \<open>Both override the vector overloads; the state is that of the operating system and the object.\<close>

definition unix_serial_class :: "'s unix_calls \<Rightarrow> UnixSerialPort \<Rightarrow> (UnixSerialPort \<times> 's) serial_class" where
  "unix_serial_class sys p =
     \<lparr>sc_read = Some (\<lambda>timeout (p, s). serial_port_read sys timeout p s),
      sc_read_into = None,
      sc_write = Some (\<lambda>data (p, s). case serial_port_write sys data p s of (r, s') \<Rightarrow> (r, p, s')),
      sc_write_range = None,
      sc_print = Some (show_UnixSerialPort p)\<rparr>"

definition unix_udp_class :: "'s unix_calls \<Rightarrow> UnixUDPSocket \<Rightarrow> (UnixUDPSocket \<times> 's) udp_class" where
  "unix_udp_class sys u =
     \<lparr>uc_send = Some (\<lambda>data address (u, s). udp_socket_send sys data address u s),
      uc_send_range = None,
      uc_receive = Some (\<lambda>timeout (u, s). udp_socket_receive sys timeout u s),
      uc_receive_into = None,
      uc_print = Some (show_UnixUDPSocket u)\<rparr>"

section \<open>Lemmas\<close>

lemma copy_range_all [simp]: "copy_range data 0 (length data) = data"
  by (simp add: copy_range_def)

text \<open>With neither overload overridden the calls never come back.\<close>

lemma neither_serial:
  "sc_read cls = None \<Longrightarrow> sc_read_into cls = None \<Longrightarrow>
     SerialPort_read n cls t s = None \<and> SerialPort_read_into n cls it t s = None"
  "sc_write cls = None \<Longrightarrow> sc_write_range cls = None \<Longrightarrow>
     SerialPort_write n cls data s = None \<and> SerialPort_write_range n cls data i j s = None"
  by (induction n arbitrary: it data i j) simp_all

lemma neither_udp:
  "uc_receive cls = None \<Longrightarrow> uc_receive_into cls = None \<Longrightarrow>
     UDPSocket_receive n cls t s = None \<and> UDPSocket_receive_into n cls it t s = None"
  "uc_send cls = None \<Longrightarrow> uc_send_range cls = None \<Longrightarrow>
     UDPSocket_send n cls data a s = None \<and> UDPSocket_send_range n cls data i j a s = None"
  by (induction n arbitrary: it data i j) simp_all

text \<open>With one of them overridden, two calls are enough.\<close>

lemma either_serial:
  "SerialPort_read (Suc (Suc 0)) cls t s = None \<Longrightarrow> sc_read cls = None \<and> sc_read_into cls = None"
  "SerialPort_read_into (Suc (Suc 0)) cls it t s = None \<Longrightarrow> sc_read cls = None \<and> sc_read_into cls = None"
  "SerialPort_write (Suc (Suc 0)) cls data s = None \<Longrightarrow> sc_write cls = None \<and> sc_write_range cls = None"
  "SerialPort_write_range (Suc (Suc 0)) cls data i j s = None \<Longrightarrow> sc_write cls = None \<and> sc_write_range cls = None"
  by (simp_all split: option.splits sum.splits prod.splits)

lemma either_udp:
  "UDPSocket_receive (Suc (Suc 0)) cls t s = None \<Longrightarrow> uc_receive cls = None \<and> uc_receive_into cls = None"
  "UDPSocket_receive_into (Suc (Suc 0)) cls it t s = None \<Longrightarrow> uc_receive cls = None \<and> uc_receive_into cls = None"
  "UDPSocket_send (Suc (Suc 0)) cls data a s = None \<Longrightarrow> uc_send cls = None \<and> uc_send_range cls = None"
  "UDPSocket_send_range (Suc (Suc 0)) cls data i j a s = None \<Longrightarrow> uc_send cls = None \<and> uc_send_range cls = None"
  by (simp_all split: option.splits sum.splits prod.splits)

text \<open>The iterator overloads of the Unix devices are their vector overloads.\<close>

lemma unix_serial_overloads:
  "SerialPort_read (Suc n) (unix_serial_class sys p) t (q, s) = Some (serial_port_read sys t q s)"
  "SerialPort_read_into (Suc (Suc n)) (unix_serial_class sys p) it t (q, s) =
     Some (case serial_port_read sys t q s of
        (Inl e, s') \<Rightarrow> ((Inl e, it), s')
      | (Inr vec, s') \<Rightarrow> ((Inr (), it @ vec), s'))"
  "SerialPort_write_range (Suc (Suc n)) (unix_serial_class sys p) data i j (q, s) =
     SerialPort_write (Suc n) (unix_serial_class sys p) (copy_range data i j) (q, s)"
  by (simp_all add: unix_serial_class_def split: sum.split prod.split)

lemma unix_udp_overloads:
  "UDPSocket_receive (Suc n) (unix_udp_class sys u) t (v, s) = Some (udp_socket_receive sys t v s)"
  "UDPSocket_receive_into (Suc (Suc n)) (unix_udp_class sys u) it t (v, s) =
     Some (case udp_socket_receive sys t v s of
        (Inl e, s') \<Rightarrow> ((Inl e, it), s')
      | (Inr (vec, address), s') \<Rightarrow> ((Inr address, it @ vec), s'))"
  "UDPSocket_send_range (Suc (Suc n)) (unix_udp_class sys u) data i j a (v, s) =
     UDPSocket_send (Suc n) (unix_udp_class sys u) (copy_range data i j) a (v, s)"
  by (simp_all add: unix_udp_class_def split: sum.split prod.split)

lemma never_iff:
  assumes "f (Suc (Suc 0)) = None \<Longrightarrow> P" "P \<Longrightarrow> (\<And>n. f n = None)"
  shows "(\<forall>n. f n = None) \<longleftrightarrow> P"
proof
  assume "\<forall>n. f n = None"
  then show P by (intro assms(1)) simp
next
  assume P
  then show "\<forall>n. f n = None" using assms(2) by simp
qed

section \<open>Property\<close>

text \<open>C40: the rule that the headers of the base classes state: a call of either overload of an operation
  never comes back if and only if the class overrides neither of the two, so that they call each
  other forever.  That holds for reading and writing on a serial port and for sending and receiving on
  a UDP socket, whatever the device does.\<close>

theorem overloads_come_back:
  "((\<forall>n. SerialPort_read n cls t s = None) \<longleftrightarrow> sc_read cls = None \<and> sc_read_into cls = None) \<and>
   ((\<forall>n. SerialPort_read_into n cls it t s = None) \<longleftrightarrow> sc_read cls = None \<and> sc_read_into cls = None) \<and>
   ((\<forall>n. SerialPort_write n cls data s = None) \<longleftrightarrow> sc_write cls = None \<and> sc_write_range cls = None) \<and>
   ((\<forall>n. SerialPort_write_range n cls data i j s = None) \<longleftrightarrow> sc_write cls = None \<and> sc_write_range cls = None) \<and>
   ((\<forall>n. UDPSocket_receive n ucls t s' = None) \<longleftrightarrow> uc_receive ucls = None \<and> uc_receive_into ucls = None) \<and>
   ((\<forall>n. UDPSocket_receive_into n ucls it t s' = None) \<longleftrightarrow> uc_receive ucls = None \<and> uc_receive_into ucls = None) \<and>
   ((\<forall>n. UDPSocket_send n ucls data a s' = None) \<longleftrightarrow> uc_send ucls = None \<and> uc_send_range ucls = None) \<and>
   ((\<forall>n. UDPSocket_send_range n ucls data i j a s' = None) \<longleftrightarrow> uc_send ucls = None \<and> uc_send_range ucls = None)"
  by (intro conjI [of "_ \<longleftrightarrow> _"] never_iff)
    (blast dest: either_serial either_udp neither_serial neither_udp)+

end
