(* ===== verification/Spec2Isabelle.thy ===== *)
theory Spec2Isabelle
  imports Utility MavAddress MavSubnet IpAddress MavPacket ByteParser PacketQueueing AddrPool FilterRules Connections Interfaces Traffic Threader UnixDevices ConfigFilter ConfigBuild AppRun Startup ConfigReading Mavtables System Forwarding Delivery UnixRuns ProgramRuns DeviceOverloads
begin

text \<open>
  A verification development for mavtables, a MAVLink router and firewall.  All paths are under
  \<open>src/src/\<close>; the width of the integers is that of an LP64 Unix system.

  The program.  mavtables reads a configuration file, builds a firewall (a graph of chains of rules)
  and a set of interfaces (serial ports and UDP sockets) from it, and then moves MAVLink packets
  between them.  Every interface has two worker threads.  The receiving one reads a block of bytes
  from the device, cuts packets out of it with a parser, records the source address of each packet on
  the connection it came over, and hands the packet to the one connection pool that all interfaces
  share.  The pool offers it to every connection.  A connection asks the one filter whether the packet
  may go to the addresses heard on that connection, and if so queues it with the priority the filter
  gave.  The transmitting thread takes packets off the queues of the connections of its interface and
  gives their bytes to the device.  A serial port has one connection; a UDP socket has one for each
  address a packet came from, made when the first packet arrives.

  The theories, from the bottom up, with the files they model.

  \<^item> \<open>MtPrelude\<close>: widths, the exceptions (\<open>cpp_error\<close>), character classes, integer printing, and the
    generic lemmas.  \<open>CxxMap\<close>: \<open>std::map\<close> as an ordered association list.  \<open>CxxStreams\<close>: integer
    extraction from streams, \<open>std::stoi\<close> and its kin.  \<open>Utility\<close>: \<open>utility.hpp\<close>.
  \<^item> \<open>MavAddress\<close>, \<open>MavSubnet\<close>, \<open>IpAddress\<close>: the classes of these names.  Printing and parsing are inverse,
    the slash form of a subnet contains what it should, and lemmas name the texts the parsers accept
    although the comments promise an exception.
  \<^item> \<open>MavPacket\<close>: \<open>mavlink.cpp\<close>, \<open>Packet\<close> and both wire formats.  What the constructors accept, byte by byte,
    and where the destination of a packet is read from.
  \<^item> \<open>ByteParser\<close>: \<open>PacketParser\<close>.  The state machine refines one that keeps only the bytes of the frame
    in progress, computes the reference segmentation of any stream, and never throws.
  \<^item> \<open>PacketQueueing\<close>: \<open>QueuedPacket\<close> and \<open>PacketQueue\<close>, a refinement of a stable priority queue although
    the tickets wrap around.  \<open>AddrPool\<close>: \<open>AddressPool\<close>, a refinement of a set that forgets on time.
  \<^item> \<open>FilterRules\<close>: \<open>Action\<close>, \<open>If\<close>, the rules, \<open>Chain\<close>, \<open>RecursionGuard\<close>, \<open>Filter\<close>.  The evaluation with
    guards and bounded nesting agrees with the guard-free meaning \<open>chain_eval\<close> of the rules.
  \<^item> \<open>Connections\<close>: \<open>Logger\<close>, \<open>semaphore\<close>, \<open>Connection\<close>, \<open>ConnectionPool\<close>, \<open>ConnectionFactory\<close>.  What a send
    does to every queue, on every branch.
  \<^item> \<open>Interfaces\<close>: \<open>SerialInterface\<close> and \<open>UDPInterface\<close> over a network of connections (\<open>world\<close>), with the
    invariant of that network.  \<open>Traffic\<close>: histories of datagrams and of sends on one interface.
  \<^item> \<open>Threader\<close>: \<open>InterfaceThreader\<close>, the two workers and their owner as a step relation.
  \<^item> \<open>UnixDevices\<close>: \<open>UnixUDPSocket\<close>, \<open>UnixSerialPort\<close> over a record of system calls, with the rate limiter.
    \<open>DeviceOverloads\<close>: the base classes \<open>UDPSocket\<close> and \<open>SerialPort\<close>, whose overloads call each other.
  \<^item> \<open>PegRules\<close>, \<open>SyntaxTree\<close>, \<open>ConfigGrammar\<close>: grammars as values, \<open>parse_tree.hpp\<close>, and the grammar of
    \<open>config_grammar.hpp\<close> with its messages.  \<open>ConfigFilter\<close>, \<open>ConfigBuild\<close>: what \<open>ConfigParser.cpp\<close> makes of the
    tree, up to \<open>make_app\<close>.  \<open>ConfigReading\<close>: from the text of the file to the program.
  \<^item> \<open>AppRun\<close>: \<open>App::run\<close> over the threaders of all interfaces.  The interrupt is blocked only after the
    workers have been started, so it ends \<open>sigwait\<close> or takes its default action (\<open>Killed\<close>).  \<open>Startup\<close>:
    \<open>Options.cpp\<close>, \<open>mavtables.cpp\<close>.  \<open>Mavtables\<close>: \<open>main\<close> with the parser, the application and the messages of
    the program, and how the process ends for each schedule of its threads.
  \<^item> \<open>System\<close>, \<open>Forwarding\<close>, \<open>Delivery\<close>, \<open>UnixRuns\<close>, \<open>ProgramRuns\<close>: the whole program at work,
    described below.

  State and effects.  An object is a record and a method returns the changed record.  Objects that are
  shared live in a store: chains in a list, of which a chain pointer is an index; connections and
  semaphores in the record \<open>network\<close>, under numbers; the weak pointers of the pool, the next free number
  and the error stream in \<open>world\<close>.  A weak pointer has expired when its number has no connection.  The
  guards of the filter map a chain to the threads inside it.  An operation that can throw returns a
  sum whose left side is the exception, together with the state at that time.  \<open>Undefined_behaviour\<close>
  is not an exception; it marks executions to which C++ gives no meaning, so that their absence can be
  stated and proved.  A reading of the clock is an argument of the operation that makes it
  (\<open>readings\<close> holds those for one packet).  An operation that blocks is described by what it does once it
  goes on: popping an empty open queue is not enabled in \<open>queue_step\<close>, and the waits with a time limit
  return what they return when nothing came.

  The program as a whole.  A state of \<open>System\<close> holds all interfaces and the world.  An event is one
  call a worker makes: a block was received on an interface, or an interface sends.  Calls of
  different threads come in any order, but each is one event (see below, what is not modelled).  \<open>system_inv\<close> is the invariant: every link
  satisfies its own, the semaphore of a UDP interface counts the packets that wait on its connections, no
  connection has two owners.  \<open>make_app\<close> establishes it and every event keeps it.  In \<open>System\<close> the devices
  take what they are given.  On top of it \<open>Forwarding\<close> shows that what goes out to an endpoint came, byte
  for byte and counted, from the others and passed the filter, and \<open>Delivery\<close> that what should go out
  is never lost, whatever other calls come in between, and goes out once its interface has sent often enough.
  \<open>UnixRuns\<close> puts the Unix devices under the interfaces, with any operating system: the runs send what
  \<open>System\<close> says, and they end early only by an exception of a device.  \<open>AppRun\<close> has the threads of the same program: the phases of the main thread, and every access
  to \<open>running_\<close> as a step of its own.  \<open>ProgramRuns\<close> joins the two: a worker that is in its call does what
  \<open>UnixRuns\<close> says when the call returns, and goes on or crashes as the call ends.

  Interfaces between the parts are locales, each interpreted on the definitions of the model:
  \<open>ordered_map\<close> (\<open>cmap\<close>: the association list behind \<open>std::map\<close>), \<open>packet_format\<close> (\<open>v1f\<close>, \<open>v2f\<close>, and \<open>frm\<close> for
  both at once: what the parser needs of a wire format), \<open>stable_queue\<close> (\<open>pq\<close>: the promise of the queue),
  \<open>packet_receiver\<close> (\<open>ser\<close>, \<open>udp\<close>: the receiving loop, whatever is done with a packet).

  Bounds.  The nesting of chains is bounded by \<open>nesting f\<close>, one more than the number of chains; the
  recursion guard refuses to enter a chain twice, so this is enough, as the theory \<open>FilterRules\<close> proves.  Tickets are compared with
  wrap-around, which is a total order on the queue while the oldest waiting ticket is less than \<open>2 ^ 63\<close>
  behind the newest.  The depth of the calls between overloads in \<open>DeviceOverloads\<close> is arbitrary, and two
  is enough for a class that overrides one of them.  The counter of a semaphore has 64 bits; \<open>timely\<close> asks
  that fewer than \<open>2 ^ 64\<close> packets wait on the interface of a transmission.

  Parameters, for code outside the repository: the generated MAVLink library (\<open>mavlink_lib\<close>; \<open>common_mavlink\<close> is
  an instance with a few messages), the boost tokenizer and splitter (\<open>tok\<close> with \<open>char_separator_spec\<close>,
  \<open>split_colon\<close> with \<open>split_spec\<close>), \<open>getaddrinfo\<close>, the boost command line and paths (\<open>surroundings\<close>,
  \<open>variables_map\<close>), the system calls (\<open>unix_calls\<close> over any state of the operating system), and PEGTL
  (record \<open>pegtl\<close>).  PEGTL is the only one of them about which much is assumed: \<open>follows\<close> says that the
  matcher behaves as the rule reference of the library documents, \<open>rule_outcome\<close> is that reference
  as a relation, and \<open>reference_matcher\<close> is a matcher for which it holds.

  What the properties need.  The theorems about the whole program ask that no chain refers to itself through
  others (\<open>config_ranked\<close>; without it a packet can raise a \<open>RecursionError\<close>) and that a packet is handled
  within the two minutes an address lives (\<open>readings_ok\<close>, \<open>timely\<close>).  They hold until a version 1 packet is
  received that ends before a target field of its message (\<open>v1_too_short\<close>, \<open>short_received\<close>): the code accepts
  such a packet and reads past the end of its data, so that nothing can be said of what follows.  Both
  are in the statements, not in the model.  The lemmas, and the theorem that only received packets are
  forwarded, are about \<open>admissible\<close> events, which are timely ones whose packets have a destination that can
  be read (\<open>routable\<close>).

  Not modelled.  \<open>UnixSyscalls.cpp\<close> forwards each call to the operating system; it is the parameter
  \<open>unix_calls\<close>.  \<open>Filesystem.cpp\<close> forwards to boost.  Locks and memory order are not modelled: an
  operation that takes a lock is atomic, and so is a whole call of \<open>send_packet\<close> or \<open>receive_packet\<close>, whose
  effects come at its end.  In the code the calls of several threads overlap: a push can come before the
  wake-up that follows it in another thread, and the map of a \<open>UDPInterface\<close>, and the pool while it
  drops expired pointers under a shared lock, are not locked at all.  What the theorems say of runs of calls they
  say of calls taken one at a time.  The time stamps of log lines, the order in which two log
  lines reach the terminal, the iteration order of the pool (a set ordered by addresses in memory; the
  model takes a list, and the theorems hold for any order), allocation failures, failures to create a thread, and destructors
  that only exist to anchor a virtual table are left out, as are declarations of classes whose
  members are modelled from their definitions.
\<close>

end
